theory Spec2Isabelle
  imports Main "HOL-Library.Sublist"
begin

section \<open>Constants of the solver\<close>

text \<open>
  The source fixes \<open>SUDOKU_SIZE = 25\<close>; every other constant is computed from it.
  The grid side is a parameter \<open>N\<close> here, so that the same definitions describe the
  build for every side length. All indices of the program are non-negative and far below
  the range of a C \<open>int\<close> for the side length of the source, so they are modelled as
  natural numbers (\<open>div\<close> and \<open>mod\<close> on non-negative C integers are those of \<open>nat\<close>).
\<close>

definition SUDOKU_SIZE_SQUARED :: "nat \<Rightarrow> nat" where
  "SUDOKU_SIZE_SQUARED N = N * N"

text \<open>\<open>(int) sqrt(SUDOKU_SIZE)\<close>: the number of \<open>k \<ge> 1\<close> whose square is at most \<open>N\<close>.\<close>

definition SUDOKU_SIZE_SQUARE_ROOT :: "nat \<Rightarrow> nat" where
  "SUDOKU_SIZE_SQUARE_ROOT N = length (filter (\<lambda>k. k * k \<le> N) [1..<Suc N])"

definition ROWS :: "nat \<Rightarrow> nat" where
  "ROWS N = N * N * N"

definition COLUMNS :: "nat \<Rightarrow> nat" where
  "COLUMNS N = 4 * N * N"

section \<open>The exact cover matrix\<close>

text \<open>The four local variables computed at the top of the loop body.\<close>

definition candidate_of :: "nat \<Rightarrow> nat \<Rightarrow> nat" where
  "candidate_of N i = i mod N"

definition row_of :: "nat \<Rightarrow> nat \<Rightarrow> nat" where
  "row_of N i = i div SUDOKU_SIZE_SQUARED N"

definition column_of :: "nat \<Rightarrow> nat \<Rightarrow> nat" where
  "column_of N i = (i div N) mod N"

definition box_of :: "nat \<Rightarrow> nat \<Rightarrow> nat" where
  "box_of N i =
     (row_of N i div SUDOKU_SIZE_SQUARE_ROOT N) * SUDOKU_SIZE_SQUARE_ROOT N
     + column_of N i div SUDOKU_SIZE_SQUARE_ROOT N"

text \<open>The columns written by the four assignments of the loop body, in source order.\<close>

definition cell_constraint :: "nat \<Rightarrow> nat \<Rightarrow> nat" where
  "cell_constraint N i = 0 * SUDOKU_SIZE_SQUARED N + row_of N i * N + column_of N i"

definition row_constraint :: "nat \<Rightarrow> nat \<Rightarrow> nat" where
  "row_constraint N i = 1 * SUDOKU_SIZE_SQUARED N + row_of N i * N + candidate_of N i"

definition column_constraint :: "nat \<Rightarrow> nat \<Rightarrow> nat" where
  "column_constraint N i = 2 * SUDOKU_SIZE_SQUARED N + column_of N i * N + candidate_of N i"

definition box_constraint :: "nat \<Rightarrow> nat \<Rightarrow> nat" where
  "box_constraint N i = 3 * SUDOKU_SIZE_SQUARED N + box_of N i * N + candidate_of N i"

type_synonym ecp = "nat \<Rightarrow> nat \<Rightarrow> bool"

text \<open>\<open>ECP[i][j] = 1\<close>\<close>

definition ecp_set :: "ecp \<Rightarrow> nat \<Rightarrow> nat \<Rightarrow> ecp" where
  "ecp_set E i j = E(i := (E i)(j := True))"

definition ecp_row_step :: "nat \<Rightarrow> nat \<Rightarrow> ecp \<Rightarrow> ecp" where
  "ecp_row_step N i E =
     ecp_set (ecp_set (ecp_set (ecp_set E i (cell_constraint N i))
        i (row_constraint N i)) i (column_constraint N i)) i (box_constraint N i)"

text \<open>The global array starts zeroed.\<close>

definition EXACT_COVER_PROBLEM :: ecp where
  "EXACT_COVER_PROBLEM = (\<lambda>i j. False)"

definition initializeExactCoverProblem :: "nat \<Rightarrow> ecp \<Rightarrow> ecp" where
  "initializeExactCoverProblem N E = fold (ecp_row_step N) [0..<ROWS N] E"

text \<open>
  \<open>initializeMatrix\<close> of the matrix variant: each row is resized to \<open>COLUMNS\<close> entries
  (all false) and four of them are set.
\<close>

record sequenceAlgorithmX =
  sequence :: "bool list"
  numberInOriginalSequence :: nat

definition matrix_row :: "nat \<Rightarrow> nat \<Rightarrow> sequenceAlgorithmX" where
  "matrix_row N i =
     \<lparr> sequence = (replicate (COLUMNS N) False)
          [row_of N i * N + column_of N i := True,
           SUDOKU_SIZE_SQUARED N + row_of N i * N + candidate_of N i := True,
           2 * SUDOKU_SIZE_SQUARED N + column_of N i * N + candidate_of N i := True,
           3 * SUDOKU_SIZE_SQUARED N + box_of N i * N + candidate_of N i := True],
       numberInOriginalSequence = i \<rparr>"

definition initializeMatrix :: "nat \<Rightarrow> sequenceAlgorithmX list" where
  "initializeMatrix N = map (matrix_row N) [0..<ROWS N]"

section \<open>The doubly-linked structure\<close>

text \<open>
  \<open>struct Node\<close>, with the heap split by field: \<open>leftNode s p\<close> is \<open>p->leftNode\<close> for
  the node at address \<open>p\<close>. The record also carries the globals \<open>headNode\<close>,
  \<open>CURRENT_SOLUTION\<close> and \<open>SUDOKU_SOLUTION\<close>. The three entries of the \<open>identifier\<close>
  array are (candidate, row, column).
\<close>

record solver =
  leftNode :: "nat \<Rightarrow> nat"
  rightNode :: "nat \<Rightarrow> nat"
  upperNode :: "nat \<Rightarrow> nat"
  lowerNode :: "nat \<Rightarrow> nat"
  columnNode :: "nat \<Rightarrow> nat"
  columnSize :: "nat \<Rightarrow> int"
  identifier' :: "nat \<Rightarrow> nat \<times> nat \<times> nat"
  headNode :: nat
  CURRENT_SOLUTION :: "nat list"
  SUDOKU_SOLUTION :: "int list"

subsection \<open>coverColumn\<close>

text \<open>The body of the innermost loop of \<open>coverColumn\<close>, statement by statement.\<close>

definition cover_node :: "solver \<Rightarrow> nat \<Rightarrow> solver" where
  "cover_node s rightLink =
     (let s1 = s\<lparr>upperNode := (upperNode s)(lowerNode s rightLink := upperNode s rightLink)\<rparr>;
          s2 = s1\<lparr>lowerNode := (lowerNode s1)(upperNode s1 rightLink := lowerNode s1 rightLink)\<rparr>
      in s2\<lparr>columnSize := (columnSize s2)
            (columnNode s2 rightLink := columnSize s2 (columnNode s2 rightLink) - 1)\<rparr>)"

text \<open>\<open>for (rightLink = rowNode->rightNode; rightLink != rowNode; rightLink = rightLink->rightNode)\<close>\<close>

partial_function (option) cover_row :: "solver \<Rightarrow> nat \<Rightarrow> nat \<Rightarrow> solver option" where
  "cover_row s rowNode rightLink =
     (if rightLink = rowNode then Some s
      else cover_row (cover_node s rightLink) rowNode
             (rightNode (cover_node s rightLink) rightLink))"

text \<open>\<open>for (rowNode = column->lowerNode; rowNode != column; rowNode = rowNode->lowerNode)\<close>\<close>

partial_function (option) cover_rows :: "solver \<Rightarrow> nat \<Rightarrow> nat \<Rightarrow> solver option" where
  "cover_rows s column rowNode =
     (if rowNode = column then Some s
      else Option.bind (cover_row s rowNode (rightNode s rowNode))
             (\<lambda>s'. cover_rows s' column (lowerNode s' rowNode)))"

definition coverColumn :: "solver \<Rightarrow> nat \<Rightarrow> solver option" where
  "coverColumn s column =
     (let s1 = s\<lparr>leftNode := (leftNode s)(rightNode s column := leftNode s column)\<rparr>;
          s2 = s1\<lparr>rightNode := (rightNode s1)(leftNode s1 column := rightNode s1 column)\<rparr>
      in cover_rows s2 column (lowerNode s2 column))"

subsection \<open>uncoverColumn\<close>

definition uncover_node :: "solver \<Rightarrow> nat \<Rightarrow> solver" where
  "uncover_node s leftLink =
     (let s1 = s\<lparr>columnSize := (columnSize s)
            (columnNode s leftLink := columnSize s (columnNode s leftLink) + 1)\<rparr>;
          s2 = s1\<lparr>lowerNode := (lowerNode s1)(upperNode s1 leftLink := leftLink)\<rparr>
      in s2\<lparr>upperNode := (upperNode s2)(lowerNode s2 leftLink := leftLink)\<rparr>)"

partial_function (option) uncover_row :: "solver \<Rightarrow> nat \<Rightarrow> nat \<Rightarrow> solver option" where
  "uncover_row s rowNode leftLink =
     (if leftLink = rowNode then Some s
      else uncover_row (uncover_node s leftLink) rowNode
             (leftNode (uncover_node s leftLink) leftLink))"

partial_function (option) uncover_rows :: "solver \<Rightarrow> nat \<Rightarrow> nat \<Rightarrow> solver option" where
  "uncover_rows s column rowNode =
     (if rowNode = column then Some s
      else Option.bind (uncover_row s rowNode (leftNode s rowNode))
             (\<lambda>s'. uncover_rows s' column (upperNode s' rowNode)))"

definition uncoverColumn :: "solver \<Rightarrow> nat \<Rightarrow> solver option" where
  "uncoverColumn s column =
     Option.bind (uncover_rows s column (upperNode s column))
       (\<lambda>s1. let s2 = s1\<lparr>rightNode := (rightNode s1)(leftNode s1 column := column)\<rparr>
             in Some (s2\<lparr>leftNode := (leftNode s2)(rightNode s2 column := column)\<rparr>))"

subsection \<open>search\<close>

text \<open>
  The loop that looks for the column with the smallest size: \<open>chosenColumn\<close> starts at
  \<open>headNode->rightNode\<close>, \<open>currentColumn\<close> at its right neighbour.
\<close>

partial_function (option) choose_column :: "solver \<Rightarrow> nat \<Rightarrow> nat \<Rightarrow> nat option" where
  "choose_column s chosenColumn currentColumn =
     (if currentColumn = headNode s then Some chosenColumn
      else choose_column s
             (if columnSize s currentColumn < columnSize s chosenColumn
              then currentColumn else chosenColumn)
             (rightNode s currentColumn))"

text \<open>The loop covering the columns of the other nodes of the chosen row.\<close>

partial_function (option) cover_row_columns :: "solver \<Rightarrow> nat \<Rightarrow> nat \<Rightarrow> solver option" where
  "cover_row_columns s rowNode rightLink =
     (if rightLink = rowNode then Some s
      else Option.bind (coverColumn s (columnNode s rightLink))
             (\<lambda>s'. cover_row_columns s' rowNode (rightNode s' rightLink)))"

text \<open>
  The loop uncovering them again; its bound is \<open>CURRENT_SOLUTION.back()\<close>, read at every
  test. \<open>back()\<close> of an empty vector is undefined behaviour: no result.
\<close>

partial_function (option) uncover_row_columns :: "solver \<Rightarrow> nat \<Rightarrow> solver option" where
  "uncover_row_columns s leftLink =
     (if CURRENT_SOLUTION s = [] then None
      else if leftLink = last (CURRENT_SOLUTION s) then Some s
      else Option.bind (uncoverColumn s (columnNode s leftLink))
             (\<lambda>s'. uncover_row_columns s' (leftNode s' leftLink)))"

text \<open>
  The loop that copies \<open>CURRENT_SOLUTION\<close> into \<open>SUDOKU_SOLUTION\<close> once the column ring is
  empty. \<open>printSolution\<close> then prints \<open>SUDOKU_SOLUTION\<close>; the grid printed is this array.
\<close>

definition store_row :: "nat \<Rightarrow> nat \<Rightarrow> solver \<Rightarrow> solver" where
  "store_row N p s =
     (case identifier' s p of (candidate, row, column) \<Rightarrow>
        s\<lparr>SUDOKU_SOLUTION := (SUDOKU_SOLUTION s)[row * N + column := int candidate]\<rparr>)"

definition store_solution :: "nat \<Rightarrow> solver \<Rightarrow> solver" where
  "store_solution N s = fold (store_row N) (CURRENT_SOLUTION s) s"

text \<open>
  The loop over the rows of the chosen column. \<open>rec\<close> is the recursive call of
  \<open>search\<close>; its result \<open>False\<close> means a solution was found, as in the source.
  The local \<open>chosenColumn\<close> is reassigned in the body and is therefore part of the loop
  state.
\<close>

partial_function (option) search_rows ::
  "(solver \<Rightarrow> (bool \<times> solver) option) \<Rightarrow> solver \<Rightarrow> nat \<Rightarrow> nat \<Rightarrow> (bool \<times> solver) option" where
  "search_rows rec s chosenColumn rowNode =
     (if rowNode = chosenColumn
      then Option.bind (uncoverColumn s chosenColumn) (\<lambda>s'. Some (True, s'))
      else let s1 = s\<lparr>CURRENT_SOLUTION := CURRENT_SOLUTION s @ [rowNode]\<rparr> in
        Option.bind (cover_row_columns s1 rowNode (rightNode s1 rowNode)) (\<lambda>s2.
        Option.bind (rec s2) (\<lambda>(r, s3).
          if \<not> r then Some (False, s3)
          else if CURRENT_SOLUTION s3 = [] then None
          else let chosenColumn' = columnNode s3 (last (CURRENT_SOLUTION s3)) in
            Option.bind (uncover_row_columns s3 (leftNode s3 (last (CURRENT_SOLUTION s3))))
              (\<lambda>s4. if CURRENT_SOLUTION s4 = [] then None
                 else let s5 = s4\<lparr>CURRENT_SOLUTION := butlast (CURRENT_SOLUTION s4)\<rparr> in
                   search_rows rec s5 chosenColumn' (lowerNode s5 rowNode)))))"

text \<open>
  \<open>search\<close>. The first argument bounds the depth of the recursion (the number of nested
  calls); \<open>None\<close> stands for a call that does not return within that depth.
\<close>

fun search :: "nat \<Rightarrow> nat \<Rightarrow> solver \<Rightarrow> (bool \<times> solver) option" where
  "search N 0 s = None"
| "search N (Suc d) s =
     (if rightNode s (headNode s) = headNode s then Some (False, store_solution N s)
      else Option.bind
             (choose_column s (rightNode s (headNode s))
                (rightNode s (rightNode s (headNode s))))
             (\<lambda>chosenColumn. Option.bind (coverColumn s chosenColumn)
                (\<lambda>s1. search_rows (search N d) s1 chosenColumn (lowerNode s1 chosenColumn))))"

subsection \<open>initializeDoublyLinkedList\<close>

text \<open>
  \<open>new Node\<close> takes the next free address and leaves the fields of the new node as they
  are in memory: the structure is built over an arbitrary initial memory. The loop states
  carry the allocation counter \<open>free\<close> and the locals \<open>columnNode\<close> and \<open>previousNode\<close>
  (\<open>None\<close> for \<open>nullptr\<close>).
\<close>

definition new_column :: "solver \<times> nat \<times> nat \<Rightarrow> solver \<times> nat \<times> nat" where
  "new_column = (\<lambda>(s, free, columnNode).
     let newNode = free;
         s1 = s\<lparr>leftNode := (leftNode s)(newNode := columnNode)\<rparr>;
         s2 = s1\<lparr>rightNode := (rightNode s1)(newNode := headNode s1)\<rparr>;
         s3 = s2\<lparr>upperNode := (upperNode s2)(newNode := newNode)\<rparr>;
         s4 = s3\<lparr>lowerNode := (lowerNode s3)(newNode := newNode)\<rparr>;
         s5 = s4\<lparr>columnSize := (columnSize s4)(newNode := 0)\<rparr>;
         s6 = s5\<lparr>rightNode := (rightNode s5)(columnNode := newNode)\<rparr>;
         s7 = s6\<lparr>leftNode := (leftNode s6)(headNode s6 := newNode)\<rparr>
     in (s7, Suc free, newNode))"

text \<open>The body of \<open>if (ECP[i][j])\<close>: a new node for row \<open>i\<close> below \<open>columnNode\<close>.\<close>

definition new_node ::
  "nat \<times> nat \<times> nat \<Rightarrow> solver \<times> nat \<times> nat \<times> nat option \<Rightarrow> solver \<times> nat \<times> nat option" where
  "new_node ident = (\<lambda>(s, free, columnNode, previousNode).
     let newNode = free;
         s1 = s\<lparr>identifier' := (identifier' s)(newNode := ident)\<rparr>;
         s2 = s1\<lparr>columnNode := (solver.columnNode s1)(newNode := columnNode)\<rparr>;
         s3 = s2\<lparr>columnSize := (columnSize s2)(columnNode := columnSize s2 columnNode + 1)\<rparr>;
         s4 = (case previousNode of
                 None \<Rightarrow>
                   (let t1 = s3\<lparr>rightNode := (rightNode s3)(newNode := newNode)\<rparr>
                    in t1\<lparr>leftNode := (leftNode t1)(newNode := newNode)\<rparr>)
               | Some prev \<Rightarrow>
                   (let t1 = s3\<lparr>leftNode := (leftNode s3)(newNode := prev)\<rparr>;
                        t2 = t1\<lparr>rightNode := (rightNode t1)(newNode := rightNode t1 prev)\<rparr>;
                        t3 = t2\<lparr>leftNode := (leftNode t2)(rightNode t2 newNode := newNode)\<rparr>
                    in t3\<lparr>rightNode := (rightNode t3)(prev := newNode)\<rparr>));
         s5 = s4\<lparr>upperNode := (upperNode s4)(newNode := upperNode s4 columnNode)\<rparr>;
         s6 = s5\<lparr>lowerNode := (lowerNode s5)(newNode := columnNode)\<rparr>;
         s7 = s6\<lparr>lowerNode := (lowerNode s6)(upperNode s6 columnNode := newNode)\<rparr>;
         s8 = s7\<lparr>upperNode := (upperNode s7)(columnNode := newNode)\<rparr>
     in (s8, Suc free, Some newNode))"

text \<open>One iteration of the loop over \<open>j\<close>, with its increment \<open>columnNode = columnNode->rightNode\<close>.\<close>

definition column_iter ::
  "ecp \<Rightarrow> nat \<times> nat \<times> nat \<Rightarrow> nat \<Rightarrow> nat
   \<Rightarrow> solver \<times> nat \<times> nat \<times> nat option \<Rightarrow> solver \<times> nat \<times> nat \<times> nat option" where
  "column_iter E ident i j = (\<lambda>(s, free, columnNode, previousNode).
     case (if E i j then new_node ident (s, free, columnNode, previousNode)
           else (s, free, previousNode)) of
       (s', free', previousNode') \<Rightarrow> (s', free', rightNode s' columnNode, previousNode'))"

text \<open>One iteration of the loop over the rows \<open>i\<close>.\<close>

definition row_iter :: "nat \<Rightarrow> ecp \<Rightarrow> nat \<Rightarrow> solver \<times> nat \<Rightarrow> solver \<times> nat" where
  "row_iter N E i = (\<lambda>(s, free).
     case fold (column_iter E (candidate_of N i, row_of N i, column_of N i) i) [0..<COLUMNS N]
            (s, free, rightNode s (headNode s), None) of
       (s', free', columnNode', previousNode') \<Rightarrow> (s', free'))"

definition initializeDoublyLinkedList :: "nat \<Rightarrow> ecp \<Rightarrow> solver \<Rightarrow> solver" where
  "initializeDoublyLinkedList N E s =
     (let s0 = s\<lparr>headNode := 0\<rparr>;
          (s1, free1, columnNode1) = fold (\<lambda>i. new_column) [0..<COLUMNS N] (s0, Suc 0, headNode s0)
      in fst (fold (row_iter N E) [0..<ROWS N] (s1, free1)))"

subsection \<open>updateDoublyLinkedList\<close>

text \<open>
  The grid \<open>SUDOKU_INPUT\<close> is a function from row and column to the value read from the
  file; any integer can be there. \<open>in_grid\<close> says that the two indices read from the
  identifier of a node are inside the arrays; the source has no result outside.
\<close>

definition in_grid :: "nat \<Rightarrow> solver \<Rightarrow> nat \<Rightarrow> bool" where
  "in_grid N s rowNode =
     (case identifier' s rowNode of (candidate, row, column) \<Rightarrow> row < N \<and> column < N)"

text \<open>The test of the \<open>if\<close> in the inner loop.\<close>

definition clue_matches :: "(nat \<Rightarrow> nat \<Rightarrow> int) \<Rightarrow> solver \<Rightarrow> nat \<Rightarrow> bool" where
  "clue_matches input s rowNode =
     (case identifier' s rowNode of (candidate, row, column) \<Rightarrow>
        int candidate = input row column)"

text \<open>The assignment to \<open>SUDOKU_SOLUTION\<close>.\<close>

definition store_clue :: "nat \<Rightarrow> (nat \<Rightarrow> nat \<Rightarrow> int) \<Rightarrow> solver \<Rightarrow> nat \<Rightarrow> solver" where
  "store_clue N input s rowNode =
     (case identifier' s rowNode of (candidate, row, column) \<Rightarrow>
        s\<lparr>SUDOKU_SOLUTION := (SUDOKU_SOLUTION s)[row * N + column := input row column]\<rparr>)"

text \<open>
  The inner loop, over the nodes below the column node \<open>col\<close>. After a match the loop goes
  on from \<open>rowNode->lowerNode\<close> in the structure as the covers have left it.
\<close>

partial_function (option) update_rows ::
  "nat \<Rightarrow> (nat \<Rightarrow> nat \<Rightarrow> int) \<Rightarrow> solver \<Rightarrow> nat \<Rightarrow> nat \<Rightarrow> solver option" where
  "update_rows N input s col rowNode =
     (if rowNode = col then Some s
      else if \<not> in_grid N s rowNode then None
      else if clue_matches input s rowNode then
        Option.bind (coverColumn (store_clue N input s rowNode) col) (\<lambda>s1.
        Option.bind (cover_row_columns s1 rowNode (rightNode s1 rowNode)) (\<lambda>s2.
          update_rows N input s2 col (lowerNode s2 rowNode)))
      else update_rows N input s col (lowerNode s rowNode))"

text \<open>
  The outer loop, over the column nodes; it goes on from \<open>columnNode->rightNode\<close>, also
  when the column has been covered by the body.
\<close>

partial_function (option) update_columns ::
  "nat \<Rightarrow> (nat \<Rightarrow> nat \<Rightarrow> int) \<Rightarrow> solver \<Rightarrow> nat \<Rightarrow> solver option" where
  "update_columns N input s col =
     (if col = headNode s then Some s
      else Option.bind (update_rows N input s col (lowerNode s col))
             (\<lambda>s1. update_columns N input s1 (rightNode s1 col)))"

definition updateDoublyLinkedList ::
  "nat \<Rightarrow> (nat \<Rightarrow> nat \<Rightarrow> int) \<Rightarrow> solver \<Rightarrow> solver option" where
  "updateDoublyLinkedList N input s = update_columns N input s (rightNode s (headNode s))"

subsection \<open>sudokuSolver\<close>

text \<open>
  \<open>sudokuSolver\<close> once the grid has been read: the calls that build and update the structure,
  then \<open>search\<close>. The globals have their initial values, \<open>CURRENT_SOLUTION\<close> the empty vector
  and \<open>SUDOKU_SOLUTION\<close> the array initialised with \<open>{ -1 }\<close> (first entry -1, the others 0);
  the rest of the memory is arbitrary. The result \<open>False\<close> of \<open>search\<close> is a solved grid,
  printed from \<open>SUDOKU_SOLUTION\<close>; on the result \<open>True\<close> \<open>sudokuSolver\<close> prints
  \<open>No Solution Found\<close>.
\<close>

definition initial_globals :: "nat \<Rightarrow> solver \<Rightarrow> solver" where
  "initial_globals N mem =
     mem\<lparr>CURRENT_SOLUTION := [], SUDOKU_SOLUTION := (replicate (N * N) 0)[0 := - 1]\<rparr>"

definition sudokuSolver ::
  "nat \<Rightarrow> nat \<Rightarrow> (nat \<Rightarrow> nat \<Rightarrow> int) \<Rightarrow> solver \<Rightarrow> (bool \<times> solver) option" where
  "sudokuSolver N d input mem =
     Option.bind
       (updateDoublyLinkedList N input
          (initializeDoublyLinkedList N (initializeExactCoverProblem N EXACT_COVER_PROBLEM)
             (initial_globals N mem)))
       (search N d)"

subsection \<open>Abstract view of the structure\<close>

text \<open>
  The links of the structure are described by lists: \<open>dpath nxt prv a xs b\<close> says that
  following \<open>nxt\<close> from \<open>a\<close> goes through \<open>xs\<close> to \<open>b\<close>, and \<open>prv\<close> goes back. A
  \<open>cover_abs\<close> holds the columns, the nodes with their rows, the columns now in the ring
  of the head node and the nodes now in the list of every column.
\<close>

fun dpath :: "(nat \<Rightarrow> nat) \<Rightarrow> (nat \<Rightarrow> nat) \<Rightarrow> nat \<Rightarrow> nat list \<Rightarrow> nat \<Rightarrow> bool" where
  "dpath nxt prv a [] b = (nxt a = b \<and> prv b = a)"
| "dpath nxt prv a (x # xs) b = (nxt a = x \<and> prv x = a \<and> dpath nxt prv x xs b)"

fun npath :: "(nat \<Rightarrow> nat) \<Rightarrow> nat \<Rightarrow> nat list \<Rightarrow> nat \<Rightarrow> bool" where
  "npath nxt a [] b = (a = b)"
| "npath nxt a (x # xs) b = (a = x \<and> a \<noteq> b \<and> npath nxt (nxt a) xs b)"

record cover_abs =
  acols :: "nat list"
  anodes :: "nat set"
  arow :: "nat \<Rightarrow> nat"
  aoth :: "nat \<Rightarrow> nat list"
  active :: "nat list"
  vl :: "nat \<Rightarrow> nat list"

definition static_ok :: "solver \<Rightarrow> cover_abs \<Rightarrow> bool" where
  "static_ok s A \<longleftrightarrow>
     distinct (acols A) \<and> headNode s \<notin> set (acols A) \<and> headNode s \<notin> anodes A
     \<and> set (acols A) \<inter> anodes A = {}
     \<and> (\<forall>y \<in> anodes A. columnNode s y \<in> set (acols A)
            \<and> dpath (rightNode s) (leftNode s) y (aoth A y) y
            \<and> distinct (aoth A y) \<and> y \<notin> set (aoth A y)
            \<and> set (aoth A y) = {x \<in> anodes A. arow A x = arow A y \<and> x \<noteq> y})
     \<and> (\<forall>x \<in> anodes A. \<forall>y \<in> anodes A.
            arow A x = arow A y \<longrightarrow> columnNode s x = columnNode s y \<longrightarrow> x = y)"

definition vert_ok :: "solver \<Rightarrow> cover_abs \<Rightarrow> bool" where
  "vert_ok s A \<longleftrightarrow>
     (\<forall>c \<in> set (acols A). dpath (lowerNode s) (upperNode s) c (vl A c) c
        \<and> distinct (vl A c) \<and> set (vl A c) \<subseteq> {y \<in> anodes A. columnNode s y = c}
        \<and> columnSize s c = int (length (vl A c)))"

definition ring_ok :: "solver \<Rightarrow> cover_abs \<Rightarrow> bool" where
  "ring_ok s A \<longleftrightarrow>
     dpath (rightNode s) (leftNode s) (headNode s) (active A) (headNode s)
     \<and> active A = filter (\<lambda>c. c \<in> set (active A)) (acols A)"

definition rows_ok :: "solver \<Rightarrow> cover_abs \<Rightarrow> bool" where
  "rows_ok s A \<longleftrightarrow>
     (\<forall>y \<in> anodes A. columnNode s y \<in> set (active A) \<longrightarrow> y \<in> set (vl A (columnNode s y))
        \<longrightarrow> (\<forall>x \<in> set (aoth A y). columnNode s x \<in> set (active A)
                \<and> x \<in> set (vl A (columnNode s x))))"

definition Inv :: "solver \<Rightarrow> cover_abs \<Rightarrow> bool" where
  "Inv s A \<longleftrightarrow> static_ok s A \<and> vert_ok s A \<and> ring_ok s A \<and> rows_ok s A"

definition unlink_column :: "solver \<Rightarrow> nat \<Rightarrow> solver" where
  "unlink_column s c =
     s\<lparr>leftNode := (leftNode s)(rightNode s c := leftNode s c),
       rightNode := (rightNode s)(leftNode s c := rightNode s c)\<rparr>"

definition vl_minus :: "cover_abs \<Rightarrow> nat set \<Rightarrow> cover_abs" where
  "vl_minus A X = A\<lparr>vl := (\<lambda>c. filter (\<lambda>z. z \<notin> X) (vl A c))\<rparr>"

definition cover_nodes :: "nat list \<Rightarrow> solver \<Rightarrow> solver" where
  "cover_nodes xs s = fold (\<lambda>x s. cover_node s x) xs s"

definition uncover_nodes :: "nat list \<Rightarrow> solver \<Rightarrow> solver" where
  "uncover_nodes xs s = fold (\<lambda>x s. uncover_node s x) xs s"

definition coverable :: "solver \<Rightarrow> cover_abs \<Rightarrow> nat list \<Rightarrow> bool" where
  "coverable s A xs \<longleftrightarrow>
     distinct xs \<and> (\<forall>x \<in> set xs. x \<in> anodes A \<and> x \<in> set (vl A (columnNode s x)))"

definition row_nodes :: "cover_abs \<Rightarrow> nat list \<Rightarrow> nat list" where
  "row_nodes A ys = concat (map (aoth A) ys)"

definition acover :: "cover_abs \<Rightarrow> nat \<Rightarrow> cover_abs" where
  "acover A c = (vl_minus A (set (row_nodes A (vl A c))))
     \<lparr>active := filter (\<lambda>z. z \<noteq> c) (active A)\<rparr>"

definition covered :: "solver \<Rightarrow> cover_abs \<Rightarrow> nat \<Rightarrow> solver" where
  "covered s A c = cover_nodes (row_nodes A (vl A c)) (unlink_column s c)"

definition relink_col :: "solver \<Rightarrow> nat \<Rightarrow> solver" where
  "relink_col s1 c =
     (let s2 = s1\<lparr>rightNode := (rightNode s1)(leftNode s1 c := c)\<rparr>
      in s2\<lparr>leftNode := (leftNode s2)(rightNode s2 c := c)\<rparr>)"

fun covered_seq :: "solver \<Rightarrow> cover_abs \<Rightarrow> nat list \<Rightarrow> solver" where
  "covered_seq s A [] = s"
| "covered_seq s A (c # cs) = covered_seq (covered s A c) (acover A c) cs"

fun acover_seq :: "cover_abs \<Rightarrow> nat list \<Rightarrow> cover_abs" where
  "acover_seq A [] = A"
| "acover_seq A (c # cs) = acover_seq (acover A c) cs"

definition smaller :: "solver \<Rightarrow> nat \<Rightarrow> nat \<Rightarrow> nat" where
  "smaller s currentColumn chosenColumn =
     (if columnSize s currentColumn < columnSize s chosenColumn
      then currentColumn else chosenColumn)"

definition row_cols :: "solver \<Rightarrow> cover_abs \<Rightarrow> nat \<Rightarrow> nat list" where
  "row_cols s A y = map (columnNode s) (aoth A y)"

definition row_state :: "solver \<Rightarrow> cover_abs \<Rightarrow> nat \<Rightarrow> nat \<Rightarrow> solver" where
  "row_state s A c y =
     covered_seq ((covered s A c)\<lparr>CURRENT_SOLUTION := CURRENT_SOLUTION s @ [y]\<rparr>)
       (acover A c) (row_cols s A y)"

definition row_abs :: "solver \<Rightarrow> cover_abs \<Rightarrow> nat \<Rightarrow> nat \<Rightarrow> cover_abs" where
  "row_abs s A c y = acover_seq (acover A c) (row_cols s A y)"

subsection \<open>Small structures used as examples\<close>

text \<open>
  The structure \<open>initializeDoublyLinkedList\<close> lays out for a matrix with two columns and
  the single row (1, 1): head 0, column nodes 1 and 2, row nodes 3 and 4.
\<close>

definition example_state :: solver where
  "example_state =
     \<lparr>leftNode = (\<lambda>p. 0)(0 := 2, 1 := 0, 2 := 1, 3 := 4, 4 := 3),
      rightNode = (\<lambda>p. 0)(0 := 1, 1 := 2, 2 := 0, 3 := 4, 4 := 3),
      upperNode = (\<lambda>p. 0)(1 := 3, 3 := 1, 2 := 4, 4 := 2),
      lowerNode = (\<lambda>p. 0)(1 := 3, 3 := 1, 2 := 4, 4 := 2),
      columnNode = (\<lambda>p. 0)(3 := 1, 4 := 2),
      columnSize = (\<lambda>p. 0)(1 := 1, 2 := 1),
      identifier' = (\<lambda>p. (0, 0, 0)),
      headNode = 0, CURRENT_SOLUTION = [], SUDOKU_SOLUTION = [0]\<rparr>"

definition example_abs :: cover_abs where
  "example_abs =
     \<lparr>acols = [1, 2], anodes = {3, 4}, arow = (\<lambda>p. 0),
      aoth = (\<lambda>p. [])(3 := [4], 4 := [3]),
      active = [1, 2], vl = (\<lambda>c. [])(1 := [3], 2 := [4])\<rparr>"

text \<open>The structure for a matrix with one column and no row: head 0, column node 1.\<close>

definition empty_column_state :: solver where
  "empty_column_state =
     \<lparr>leftNode = (\<lambda>p. 0)(0 := 1, 1 := 0),
      rightNode = (\<lambda>p. 0)(0 := 1, 1 := 0),
      upperNode = (\<lambda>p. 0)(1 := 1),
      lowerNode = (\<lambda>p. 0)(1 := 1),
      columnNode = (\<lambda>p. 0),
      columnSize = (\<lambda>p. 0),
      identifier' = (\<lambda>p. (0, 0, 0)),
      headNode = 0, CURRENT_SOLUTION = [], SUDOKU_SOLUTION = [0]\<rparr>"

definition empty_column_abs :: cover_abs where
  "empty_column_abs =
     \<lparr>acols = [1], anodes = {}, arow = (\<lambda>p. 0), aoth = (\<lambda>p. []),
      active = [1], vl = (\<lambda>c. [])\<rparr>"

definition oth :: "nat list \<Rightarrow> nat \<Rightarrow> nat list" where
  "oth \<rho> y = tl (dropWhile (\<lambda>z. z \<noteq> y) \<rho>) @ takeWhile (\<lambda>z. z \<noteq> y) \<rho>"

definition BInv :: "solver \<Rightarrow> cover_abs \<Rightarrow> (nat \<Rightarrow> nat list) \<Rightarrow> nat \<Rightarrow> nat \<Rightarrow> bool" where
  "BInv s A rows free K \<longleftrightarrow>
     headNode s = 0 \<and> acols A = [1..<Suc K] \<and> active A = [1..<Suc K]
     \<and> Suc K \<le> free \<and> anodes A = {Suc K..<free}
     \<and> dpath (rightNode s) (leftNode s) 0 [1..<Suc K] 0
     \<and> vert_ok s A
     \<and> (\<forall>z \<in> anodes A. z \<in> set (rows (arow A z)) \<and> columnNode s z \<in> {1..K}
            \<and> z \<in> set (vl A (columnNode s z)))
     \<and> (\<forall>z. aoth A z = oth (rows (arow A z)) z)
     \<and> (\<forall>r. set (rows r) \<subseteq> {z \<in> anodes A. arow A z = r}
            \<and> distinct (map (columnNode s) (rows r))
            \<and> (rows r \<noteq> [] \<longrightarrow>
                dpath (rightNode s) (leftNode s) (hd (rows r)) (tl (rows r)) (hd (rows r))))"

definition ainsert :: "cover_abs \<Rightarrow> (nat \<Rightarrow> nat list) \<Rightarrow> nat \<Rightarrow> nat \<Rightarrow> nat \<Rightarrow> cover_abs" where
  "ainsert A rows z c i =
     A\<lparr>anodes := insert z (anodes A), arow := (arow A)(z := i),
       vl := (vl A)(c := vl A c @ [z]),
       aoth := (\<lambda>w. oth ((rows(i := rows i @ [z])) (((arow A)(z := i)) w)) w)\<rparr>"

definition empty_abs :: "nat \<Rightarrow> cover_abs" where
  "empty_abs K =
     \<lparr>acols = [1..<Suc K], anodes = {}, arow = (\<lambda>z. 0), aoth = (\<lambda>z. []),
      active = [1..<Suc K], vl = (\<lambda>c. [])\<rparr>"

definition ident_of :: "nat \<Rightarrow> nat \<Rightarrow> nat \<times> nat \<times> nat" where
  "ident_of N i = (candidate_of N i, row_of N i, column_of N i)"

definition Built ::
  "nat \<Rightarrow> ecp \<Rightarrow> nat \<Rightarrow> nat \<Rightarrow> solver \<Rightarrow> cover_abs \<Rightarrow> (nat \<Rightarrow> nat list) \<Rightarrow> nat \<Rightarrow> bool" where
  "Built N E i j s A rows free \<longleftrightarrow>
     BInv s A rows free (COLUMNS N)
     \<and> (\<forall>r. map (columnNode s) (rows r)
            = map Suc (filter (E r) [0..<(if r < i then COLUMNS N else if r = i then j else 0)]))
     \<and> (\<forall>z \<in> anodes A. identifier' s z = ident_of N (arow A z))
     \<and> (\<forall>c < COLUMNS N. map (arow A) (vl A (Suc c))
            = filter (\<lambda>r. E r c) [0..<i] @ (if c < j \<and> E i c then [i] else []))"

definition sudoku_ecp :: "nat \<Rightarrow> ecp" where
  "sudoku_ecp N = initializeExactCoverProblem N EXACT_COVER_PROBLEM"

definition enc :: "nat \<Rightarrow> nat \<Rightarrow> nat \<Rightarrow> nat \<Rightarrow> nat" where
  "enc N v c r = v + N * c + N * N * r"

definition built_state :: "nat \<Rightarrow> solver \<Rightarrow> solver" where
  "built_state N mem = initializeDoublyLinkedList N (sudoku_ecp N) mem"

text \<open>What the build of the sudoku structure establishes.\<close>

definition Sudoku_built ::
  "nat \<Rightarrow> solver \<Rightarrow> cover_abs \<Rightarrow> (nat \<Rightarrow> nat list) \<Rightarrow> bool" where
  "Sudoku_built N st A rows \<longleftrightarrow>
     (\<exists>free. BInv st A rows free (COLUMNS N))
     \<and> (\<forall>r < ROWS N. map (columnNode st) (rows r)
           = [Suc (cell_constraint N r), Suc (row_constraint N r),
              Suc (column_constraint N r), Suc (box_constraint N r)])
     \<and> (\<forall>r. \<not> r < ROWS N \<longrightarrow> rows r = [])
     \<and> (\<forall>z \<in> anodes A. identifier' st z = ident_of N (arow A z))
     \<and> (\<forall>c < COLUMNS N. map (arow A) (vl A (Suc c))
           = filter (\<lambda>r. sudoku_ecp N r c) [0..<ROWS N])"

definition walk_ok :: "solver \<Rightarrow> nat set \<Rightarrow> bool" where
  "walk_ok s S \<longleftrightarrow>
     (\<forall>d \<in> S. rightNode s d = headNode s \<or> (rightNode s d \<in> S \<and> d < rightNode s d))"

text \<open>The four columns of a row of the matrix, as column nodes.\<close>

definition cols_of :: "nat \<Rightarrow> nat \<Rightarrow> nat list" where
  "cols_of N r = [Suc (cell_constraint N r), Suc (row_constraint N r),
                  Suc (column_constraint N r), Suc (box_constraint N r)]"

definition vis_ok :: "solver \<Rightarrow> cover_abs \<Rightarrow> bool" where
  "vis_ok s A \<longleftrightarrow>
     (\<forall>y \<in> anodes A. (\<forall>x \<in> set (y # aoth A y). columnNode s x \<in> set (active A))
        \<longrightarrow> y \<in> set (vl A (columnNode s y)))"

text \<open>
  The structure of the sudoku matrix in some state of covering: the invariant, the
  identifiers and columns of the nodes, and a node is in the list of its column as soon as
  the four columns of its row are in the ring.
\<close>

definition Sud :: "nat \<Rightarrow> solver \<Rightarrow> cover_abs \<Rightarrow> bool" where
  "Sud N s A \<longleftrightarrow>
     Inv s A \<and> headNode s = 0 \<and> acols A = [1..<Suc (COLUMNS N)]
     \<and> (\<forall>y \<in> anodes A. arow A y < ROWS N \<and> identifier' s y = ident_of N (arow A y)
           \<and> columnNode s y \<in> set (cols_of N (arow A y)) \<and> length (aoth A y) = 3)
     \<and> (\<forall>r < ROWS N. \<forall>c \<in> set (cols_of N r).
           \<exists>y \<in> anodes A. arow A y = r \<and> columnNode s y = c)
     \<and> vis_ok s A"

text \<open>
  The clue of cell \<open>k\<close> (row \<open>k div N\<close>, column \<open>k mod N\<close>) as a row of the matrix, when the
  value in the grid is a candidate at all.
\<close>

definition clue_row :: "nat \<Rightarrow> (nat \<Rightarrow> nat \<Rightarrow> int) \<Rightarrow> nat \<Rightarrow> nat option" where
  "clue_row N input k =
     (let v = input (k div N) (k mod N)
      in if 0 \<le> v \<and> v < int N then Some (enc N (nat v) (k mod N) (k div N)) else None)"

definition conflict :: "nat \<Rightarrow> nat \<Rightarrow> nat \<Rightarrow> bool" where
  "conflict N r r' \<longleftrightarrow> (\<exists>c \<in> set (cols_of N r). c \<in> set (cols_of N r'))"

text \<open>
  The clues that the loops of \<open>updateDoublyLinkedList\<close> take, cell after cell: a clue is
  taken when its row shares no column with a clue taken before.
\<close>

definition accept_clue :: "nat \<Rightarrow> (nat \<Rightarrow> nat \<Rightarrow> int) \<Rightarrow> nat \<Rightarrow> nat list \<Rightarrow> nat list" where
  "accept_clue N input k acc =
     (case clue_row N input k of
        None \<Rightarrow> acc
      | Some r \<Rightarrow> if (\<exists>r' \<in> set acc. conflict N r r') then acc else acc @ [r])"

definition accepted :: "nat \<Rightarrow> (nat \<Rightarrow> nat \<Rightarrow> int) \<Rightarrow> nat \<Rightarrow> nat list" where
  "accepted N input k = fold (accept_clue N input) [0..<k] []"

definition covered_cols :: "nat \<Rightarrow> nat list \<Rightarrow> nat list" where
  "covered_cols N rs = concat (map (cols_of N) rs)"

definition store_rows :: "nat \<Rightarrow> nat list \<Rightarrow> int list \<Rightarrow> int list" where
  "store_rows N rs sol =
     fold (\<lambda>r sol. sol[cell_constraint N r := int (candidate_of N r)]) rs sol"

definition PreInv ::
  "nat \<Rightarrow> (nat \<Rightarrow> nat \<Rightarrow> int) \<Rightarrow> nat \<Rightarrow> solver \<Rightarrow> solver \<Rightarrow> cover_abs \<Rightarrow> bool" where
  "PreInv N input k s0 s A \<longleftrightarrow>
     Sud N s A
     \<and> active A = filter (\<lambda>c. c \<notin> set (covered_cols N (accepted N input k)))
                    [1..<Suc (COLUMNS N)]
     \<and> SUDOKU_SOLUTION s = store_rows N (accepted N input k) (SUDOKU_SOLUTION s0)
     \<and> CURRENT_SOLUTION s = CURRENT_SOLUTION s0"

text \<open>The grids of the examples are lists of lines.\<close>

definition grid_of :: "int list list \<Rightarrow> nat \<Rightarrow> nat \<Rightarrow> int" where
  "grid_of g r c = g ! r ! c"

text \<open>The cells of the grid that hold a clue: a value other than -1.\<close>

definition clues :: "nat \<Rightarrow> (nat \<Rightarrow> nat \<Rightarrow> int) \<Rightarrow> nat list" where
  "clues N input = filter (\<lambda>k. input (k div N) (k mod N) \<noteq> - 1) [0..<N * N]"

definition well_formed :: "nat \<Rightarrow> (nat \<Rightarrow> nat \<Rightarrow> int) \<Rightarrow> bool" where
  "well_formed N input =
     list_all (\<lambda>k. - 1 \<le> input (k div N) (k mod N) \<and> input (k div N) (k mod N) < int N)
       [0..<N * N]"

definition cell_box :: "nat \<Rightarrow> nat \<Rightarrow> nat" where
  "cell_box N k =
     ((k div N) div SUDOKU_SIZE_SQUARE_ROOT N) * SUDOKU_SIZE_SQUARE_ROOT N
     + (k mod N) div SUDOKU_SIZE_SQUARE_ROOT N"

text \<open>No two clues give the same value to two cells of one row, one column or one box.\<close>

definition consistent :: "nat \<Rightarrow> (nat \<Rightarrow> nat \<Rightarrow> int) \<Rightarrow> bool" where
  "consistent N input =
     list_all (\<lambda>j. list_all (\<lambda>k.
        \<not> (j \<noteq> k \<and> input (j div N) (j mod N) = input (k div N) (k mod N)
             \<and> 0 \<le> input (k div N) (k mod N) \<and> input (k div N) (k mod N) < int N
             \<and> (j div N = k div N \<or> j mod N = k mod N \<or> cell_box N j = cell_box N k)))
        [0..<N * N]) [0..<N * N]"

text \<open>
  A grid with contradictory clues: a solved grid whose last cell has been changed from 0
  to 3, so that line 3, column 3 and the last box hold the value 3 twice.
\<close>

definition bad_grid :: "int list list" where
  "bad_grid = [[0, 1, 2, 3], [2, 3, 0, 1], [1, 0, 3, 2], [3, 2, 1, 3]]"

text \<open>A grid with twelve clues, no two of them in conflict.\<close>

definition sample_grid :: "int list list" where
  "sample_grid = [[0, 1, - 1, 3], [2, - 1, 0, 1], [- 1, 0, 3, 2], [3, 2, 1, - 1]]"

text \<open>
  The moves of \<open>search\<close> towards a solution, with nothing uncovered: in a state whose ring
  is not empty the chosen column is covered, a row of that column is pushed on
  \<open>CURRENT_SOLUTION\<close> and the columns of its other nodes are covered. \<open>descends s t\<close> says
  that \<open>t\<close> is reached from \<open>s\<close> by such moves only.
\<close>

inductive descends :: "solver \<Rightarrow> solver \<Rightarrow> bool" where
  here: "descends s s"
| down: "rightNode s (headNode s) \<noteq> headNode s
         \<Longrightarrow> choose_column s (rightNode s (headNode s))
               (rightNode s (rightNode s (headNode s))) = Some c
         \<Longrightarrow> coverColumn s c = Some s1
         \<Longrightarrow> npath (lowerNode s1) (lowerNode s1 c) ys c \<Longrightarrow> y \<in> set ys
         \<Longrightarrow> cover_row_columns (s1\<lparr>CURRENT_SOLUTION := CURRENT_SOLUTION s1 @ [y]\<rparr>) y
               (rightNode s1 y) = Some s2
         \<Longrightarrow> descends s2 t
         \<Longrightarrow> descends s t"

text \<open>A grid without conflict between clues that leaves no value for the last cell.\<close>

definition dead_end_grid :: "int list list" where
  "dead_end_grid = [[- 1, - 1, - 1, 0], [- 1, - 1, - 1, - 1], [- 1, - 1, - 1, - 1], [1, 2, 3, - 1]]"

section \<open>Proofs\<close>

subsection \<open>The constraint indexer\<close>

lemma sqrt_of_square: "SUDOKU_SIZE_SQUARE_ROOT (s * s) = s"
proof -
  have "{k. 1 \<le> k \<and> k < Suc (s * s) \<and> k * k \<le> s * s} = {1..s}"
  proof (intro set_eqI iffI)
    fix k assume "k \<in> {k. 1 \<le> k \<and> k < Suc (s * s) \<and> k * k \<le> s * s}"
    then have k: "1 \<le> k" "k * k \<le> s * s" by auto
    have "k \<le> s"
    proof (rule ccontr)
      assume "\<not> k \<le> s"
      then have "s < k" by simp
      then have "s * s < k * k" by (simp add: mult_strict_mono)
      with k show False by simp
    qed
    with k show "k \<in> {1..s}" by simp
  next
    fix k assume "k \<in> {1..s}"
    then have k: "1 \<le> k" "k \<le> s" by auto
    then have "k * k \<le> s * s" by (simp add: mult_le_mono)
    moreover have "k \<le> s * s" using k by (metis dual_order.trans le_square)
    ultimately show "k \<in> {k. 1 \<le> k \<and> k < Suc (s * s) \<and> k * k \<le> s * s}"
      using k by simp
  qed
  then have "card {k. 1 \<le> k \<and> k < Suc (s * s) \<and> k * k \<le> s * s} = s" by simp
  moreover have "length (filter (\<lambda>k. k * k \<le> s * s) [1..<Suc (s * s)])
      = card {k. 1 \<le> k \<and> k < Suc (s * s) \<and> k * k \<le> s * s}"
  proof -
    have "distinct (filter (\<lambda>k. k * k \<le> s * s) [1..<Suc (s * s)])" by simp
    then have "length (filter (\<lambda>k. k * k \<le> s * s) [1..<Suc (s * s)])
        = card (set (filter (\<lambda>k. k * k \<le> s * s) [1..<Suc (s * s)]))"
      by (simp only: distinct_card)
    also have "set (filter (\<lambda>k. k * k \<le> s * s) [1..<Suc (s * s)])
        = {k. 1 \<le> k \<and> k < Suc (s * s) \<and> k * k \<le> s * s}"
      by (rule set_eqI)
        (simp only: set_filter set_upt mem_Collect_eq atLeastLessThan_iff conj_ac)
    finally show ?thesis .
  qed
  ultimately show ?thesis by (simp add: SUDOKU_SIZE_SQUARE_ROOT_def)
qed

lemma ecp_set_apply: "ecp_set E i j i' j' = (E i' j' \<or> (i' = i \<and> j' = j))"
  by (auto simp: ecp_set_def)

lemma ecp_row_step_apply:
  "ecp_row_step N i E i' j' =
     (E i' j' \<or> (i' = i \<and> j' \<in> {cell_constraint N i, row_constraint N i,
                                  column_constraint N i, box_constraint N i}))"
  by (auto simp: ecp_row_step_def ecp_set_apply)

lemma fold_ecp_row_step:
  "fold (ecp_row_step N) is E i' j' =
     (E i' j' \<or> (i' \<in> set is \<and> j' \<in> {cell_constraint N i', row_constraint N i',
                                  column_constraint N i', box_constraint N i'}))"
  by (induction "is" arbitrary: E) (auto simp: ecp_row_step_apply)

lemma initializeExactCoverProblem_apply:
  "initializeExactCoverProblem N EXACT_COVER_PROBLEM i j =
     (i < ROWS N \<and> j \<in> {cell_constraint N i, row_constraint N i,
                        column_constraint N i, box_constraint N i})"
  by (simp add: initializeExactCoverProblem_def fold_ecp_row_step EXACT_COVER_PROBLEM_def)

lemma nth_update_True:
  "j < length xs \<Longrightarrow> (xs[a := True]) ! j = (xs ! j \<or> j = a)"
  by (cases "a < length xs") (auto simp: nth_list_update)

lemma nth_four_updates:
  "j < length xs \<Longrightarrow>
     (xs[a := True, b := True, c := True, d := True]) ! j = (xs ! j \<or> j \<in> {a, b, c, d})"
  by (simp add: nth_update_True)

lemma div_mult_self_less: "(x::nat) < M \<Longrightarrow> (x + M * r) div M = r"
  by simp

lemma decode_candidate: "v < N \<Longrightarrow> candidate_of N (v + N * c + N * N * r) = v"
proof -
  assume a: "v < N"
  have e: "v + N * c + N * N * r = v + N * (c + N * r)" by (simp add: algebra_simps)
  show ?thesis unfolding candidate_of_def e using a by simp
qed

lemma decode_column: "v < N \<Longrightarrow> c < N \<Longrightarrow> column_of N (v + N * c + N * N * r) = c"
proof -
  assume a: "v < N" "c < N"
  have e: "v + N * c + N * N * r = v + N * (c + N * r)" by (simp add: algebra_simps)
  have "(v + N * c + N * N * r) div N = c + N * r" unfolding e using a by simp
  then show ?thesis using a by (simp add: column_of_def)
qed

lemma decode_row: "v < N \<Longrightarrow> c < N \<Longrightarrow> row_of N (v + N * c + N * N * r) = r"
proof -
  assume a: "v < N" "c < N"
  have "v + N * c < N * N"
  proof -
    have "v + N * c < N + N * c" using a by simp
    also have "\<dots> = N * Suc c" by simp
    also have "\<dots> \<le> N * N" using a by (intro mult_le_mono2) simp
    finally show ?thesis .
  qed
  then have "(v + N * c + (N * N) * r) div (N * N) = r" by (rule div_mult_self_less)
  then show ?thesis by (simp add: row_of_def SUDOKU_SIZE_SQUARED_def)
qed

lemma encode_bound: "v < N \<Longrightarrow> c < N \<Longrightarrow> r < N \<Longrightarrow> v + N * c + N * N * r < ROWS N"
proof -
  assume a: "v < N" "c < N" "r < N"
  have "v + N * c < N * N"
  proof -
    have "v + N * c < N + N * c" using a by simp
    also have "\<dots> = N * Suc c" by simp
    also have "\<dots> \<le> N * N" using a by (intro mult_le_mono2) simp
    finally show ?thesis .
  qed
  then have "v + N * c + N * N * r < N * N + N * N * r" by simp
  also have "\<dots> = N * N * Suc r" by simp
  also have "\<dots> \<le> N * N * N" using a by (intro mult_le_mono2) simp
  finally show ?thesis by (simp add: ROWS_def)
qed

lemma constraint_indexer_facts:
  assumes "N = s * s" and "r < N" and "c < N" and "v < N"
  defines "i \<equiv> v + N * c + N * N * r"
  defines "b \<equiv> (r div s) * s + c div s"
  shows "i < ROWS N"
    and "candidate_of N i = v \<and> row_of N i = r \<and> column_of N i = c \<and> box_of N i = b"
    and "\<forall>j. initializeExactCoverProblem N EXACT_COVER_PROBLEM i j
           = (j \<in> {r * N + c, N * N + r * N + v, 2 * N * N + c * N + v, 3 * N * N + b * N + v})"
    and "distinct [r * N + c, N * N + r * N + v, 2 * N * N + c * N + v, 3 * N * N + b * N + v]"
    and "\<forall>j < COLUMNS N. sequence (initializeMatrix N ! i) ! j
           = (j \<in> {r * N + c, N * N + r * N + v, 2 * N * N + c * N + v, 3 * N * N + b * N + v})"
proof -
  show iR: "i < ROWS N" unfolding i_def using assms(4,3,2) by (rule encode_bound)
  have dec: "candidate_of N i = v" "row_of N i = r" "column_of N i = c"
    unfolding i_def using assms(2-4)
    by (simp_all add: decode_candidate decode_row decode_column)
  have sq: "SUDOKU_SIZE_SQUARE_ROOT N = s"
    unfolding assms(1) by (rule sqrt_of_square)
  have box: "box_of N i = b"
    by (simp add: box_of_def dec b_def sq)
  show "candidate_of N i = v \<and> row_of N i = r \<and> column_of N i = c \<and> box_of N i = b"
    using dec box by simp
  have cols: "cell_constraint N i = r * N + c" "row_constraint N i = N * N + r * N + v"
    "column_constraint N i = 2 * N * N + c * N + v" "box_constraint N i = 3 * N * N + b * N + v"
    by (simp_all add: cell_constraint_def row_constraint_def column_constraint_def
        box_constraint_def dec box SUDOKU_SIZE_SQUARED_def)
  show "\<forall>j. initializeExactCoverProblem N EXACT_COVER_PROBLEM i j
           = (j \<in> {r * N + c, N * N + r * N + v, 2 * N * N + c * N + v, 3 * N * N + b * N + v})"
    using iR by (simp add: initializeExactCoverProblem_apply cols)
  have rc: "r * N + c < N * N"
  proof -
    have "r * N + c < r * N + N" using assms(3) by simp
    also have "\<dots> = Suc r * N" by simp
    also have "\<dots> \<le> N * N" using assms(2) by (intro mult_le_mono1) simp
    finally show ?thesis .
  qed
  have rv: "r * N + v < N * N"
  proof -
    have "r * N + v < r * N + N" using assms(4) by simp
    also have "\<dots> = Suc r * N" by simp
    also have "\<dots> \<le> N * N" using assms(2) by (intro mult_le_mono1) simp
    finally show ?thesis .
  qed
  have cv: "c * N + v < N * N"
  proof -
    have "c * N + v < c * N + N" using assms(4) by simp
    also have "\<dots> = Suc c * N" by simp
    also have "\<dots> \<le> N * N" using assms(3) by (intro mult_le_mono1) simp
    finally show ?thesis .
  qed
  have bN: "b < N"
  proof -
    have s0: "0 < s" using assms(1,2) by (cases s) auto
    have "r div s < s" "c div s < s"
      using assms(1-3) s0 by (simp_all add: less_mult_imp_div_less)
    then have "(r div s) * s + c div s < (r div s) * s + s" by simp
    also have "\<dots> = Suc (r div s) * s" by simp
    also have "\<dots> \<le> s * s" using \<open>r div s < s\<close> by (intro mult_le_mono1) simp
    finally show ?thesis by (simp add: b_def assms(1))
  qed
  have bv: "b * N + v < N * N"
  proof -
    have "b * N + v < b * N + N" using assms(4) by simp
    also have "\<dots> = Suc b * N" by simp
    also have "\<dots> \<le> N * N" using bN by (intro mult_le_mono1) simp
    finally show ?thesis .
  qed
  show "distinct [r * N + c, N * N + r * N + v, 2 * N * N + c * N + v, 3 * N * N + b * N + v]"
    using rc rv cv bv by simp
  have len: "length (initializeMatrix N) = ROWS N" by (simp add: initializeMatrix_def)
  have row: "initializeMatrix N ! i = matrix_row N i"
    using iR by (simp add: initializeMatrix_def)
  show "\<forall>j < COLUMNS N. sequence (initializeMatrix N ! i) ! j
           = (j \<in> {r * N + c, N * N + r * N + v, 2 * N * N + c * N + v, 3 * N * N + b * N + v})"
  proof (intro allI impI)
    fix j assume j: "j < COLUMNS N"
    have "sequence (initializeMatrix N ! i) ! j
           = (j \<in> {r * N + c, N * N + r * N + v, 2 * (N * N) + c * N + v,
                   3 * (N * N) + b * N + v})"
      unfolding row matrix_row_def dec box SUDOKU_SIZE_SQUARED_def sequenceAlgorithmX.simps
      using j by (subst nth_four_updates) simp_all
    then show "sequence (initializeMatrix N ! i) ! j
           = (j \<in> {r * N + c, N * N + r * N + v, 2 * N * N + c * N + v, 3 * N * N + b * N + v})"
      by (simp add: mult.assoc)
  qed
qed

lemma dpath_append:
  "dpath nxt prv a (xs @ y # ys) b = (dpath nxt prv a xs y \<and> dpath nxt prv y ys b)"
  by (induction xs arbitrary: a) auto

lemma dpath_snoc:
  "dpath nxt prv a (xs @ [y]) b = (dpath nxt prv a xs y \<and> nxt y = b \<and> prv b = y)"
  by (simp add: dpath_append)

lemma dpath_npath:
  "dpath nxt prv a xs b \<Longrightarrow> b \<notin> set xs \<Longrightarrow> npath nxt (nxt a) xs b"
  by (induction xs arbitrary: a) auto

lemma npath_snoc:
  "npath nxt a xs b \<Longrightarrow> b \<noteq> c \<Longrightarrow> c \<notin> set xs \<Longrightarrow> nxt b = c \<Longrightarrow> npath nxt a (xs @ [b]) c"
  by (induction xs arbitrary: a) auto

lemma dpath_npath_rev:
  "dpath nxt prv a xs b \<Longrightarrow> a \<notin> set xs \<Longrightarrow> npath prv (prv b) (rev xs) a"
proof (induction xs arbitrary: b rule: rev_induct)
  case Nil
  then show ?case by simp
next
  case (snoc x xs)
  then have d: "dpath nxt prv a xs x" and b: "prv b = x" and ax: "a \<noteq> x" "a \<notin> set xs"
    by (auto simp: dpath_snoc)
  from snoc.IH[OF d ax(2)] have "npath prv (prv x) (rev xs) a" .
  with b ax show ?case by simp
qed

lemma dpath_cong:
  "(\<And>z. z \<in> set (a # xs) \<Longrightarrow> nxt' z = nxt z) \<Longrightarrow> (\<And>z. z \<in> set (xs @ [b]) \<Longrightarrow> prv' z = prv z)
   \<Longrightarrow> dpath nxt' prv' a xs b = dpath nxt prv a xs b"
  by (induction xs arbitrary: a) auto

lemma dpath_hd: "dpath nxt prv a xs b \<Longrightarrow> nxt a = hd (xs @ [b])"
  by (cases xs) auto

lemma dpath_last: "dpath nxt prv a xs b \<Longrightarrow> prv b = last (a # xs)"
  by (induction xs arbitrary: a) auto

lemma dpath_mid:
  "dpath nxt prv a (as @ x # bs) b \<Longrightarrow> prv x = last (a # as) \<and> nxt x = hd (bs @ [b])"
  using dpath_hd[of nxt prv x bs b] dpath_last[of nxt prv a as x]
  by (simp add: dpath_append)

lemma dpath_linked:
  assumes "dpath nxt prv a (as @ x # bs) b"
  shows "nxt (prv x) = x \<and> prv (nxt x) = x"
proof -
  from assms have 1: "dpath nxt prv a as x" and 2: "dpath nxt prv x bs b"
    by (simp_all add: dpath_append)
  have "nxt (prv x) = x" using 1 by (induction as arbitrary: a) auto
  moreover have "prv (nxt x) = x" using 2 by (cases bs) auto
  ultimately show ?thesis by simp
qed

lemma dpath_remove_aux:
  assumes "dpath nxt prv a (as @ x # bs) b"
    and "distinct (as @ x # bs)" and "a \<notin> set (as @ x # bs)" and "b \<notin> set (as @ x # bs)"
    and "nxt' = nxt(prv x := nxt x)" and "prv' = prv(nxt x := prv x)"
  shows "dpath nxt' prv' a (as @ bs) b"
  using assms(1-4)
proof (induction as arbitrary: a)
  case Nil
  show ?case
  proof (cases bs)
    case Nil
    with Nil.prems show ?thesis by (simp add: assms(5,6))
  next
    case (Cons y bs')
    with Nil.prems have d: "dpath nxt prv y bs' b"
      and l: "prv x = a" "nxt x = y" by auto
    have "dpath nxt' prv' y bs' b = dpath nxt prv y bs' b"
      using Nil.prems Cons l by (intro dpath_cong) (auto simp: assms(5,6))
    with d have "dpath nxt' prv' y bs' b" by simp
    moreover have "nxt' a = y" "prv' y = a" using l by (simp_all add: assms(5,6))
    ultimately show ?thesis by (simp add: Cons)
  qed
next
  case (Cons a1 as)
  then have d: "dpath nxt prv a1 (as @ x # bs) b" and l: "nxt a = a1" "prv a1 = a" by auto
  have ih: "dpath nxt' prv' a1 (as @ bs) b"
    using Cons.IH[OF d] Cons.prems by auto
  from dpath_mid[OF d] have m: "prv x = last (a1 # as)" "nxt x = hd (bs @ [b])" by auto
  have "prv x \<in> set (a1 # as)" unfolding m by (rule last_in_set) simp
  then have 1: "prv x \<noteq> a" using Cons.prems by auto
  have "nxt x \<in> set (bs @ [b])" unfolding m by (rule hd_in_set) simp
  then have 2: "nxt x \<noteq> a1" using Cons.prems by auto
  have "nxt' a = a1" "prv' a1 = a" using l 1 2 by (simp_all add: assms(5,6))
  then show ?case using ih by simp
qed

lemma dpath_remove:
  assumes "dpath nxt prv a (as @ x # bs) b"
    and "distinct (as @ x # bs)" and "a \<notin> set (as @ x # bs)" and "b \<notin> set (as @ x # bs)"
  shows "dpath (nxt(prv x := nxt x)) (prv(nxt x := prv x)) a (as @ bs) b"
  using dpath_remove_aux[OF assms refl refl] .

lemma cover_node_fields [simp]:
  "leftNode (cover_node s x) = leftNode s"
  "rightNode (cover_node s x) = rightNode s"
  "columnNode (cover_node s x) = columnNode s"
  "identifier' (cover_node s x) = identifier' s"
  "headNode (cover_node s x) = headNode s"
  "CURRENT_SOLUTION (cover_node s x) = CURRENT_SOLUTION s"
  "SUDOKU_SOLUTION (cover_node s x) = SUDOKU_SOLUTION s"
  by (simp_all add: cover_node_def Let_def)

lemma cover_node_upper:
  "upperNode (cover_node s x) = (upperNode s)(lowerNode s x := upperNode s x)"
  by (simp add: cover_node_def Let_def)

lemma cover_node_lower:
  "lowerNode (cover_node s x) = (lowerNode s)(upperNode s x := lowerNode s x)"
  by (simp add: cover_node_def Let_def)

lemma cover_node_size:
  "columnSize (cover_node s x) = (columnSize s)(columnNode s x := columnSize s (columnNode s x) - 1)"
  by (simp add: cover_node_def Let_def)

lemma uncover_node_fields [simp]:
  "leftNode (uncover_node s x) = leftNode s"
  "rightNode (uncover_node s x) = rightNode s"
  "columnNode (uncover_node s x) = columnNode s"
  "identifier' (uncover_node s x) = identifier' s"
  "headNode (uncover_node s x) = headNode s"
  "CURRENT_SOLUTION (uncover_node s x) = CURRENT_SOLUTION s"
  "SUDOKU_SOLUTION (uncover_node s x) = SUDOKU_SOLUTION s"
  by (simp_all add: uncover_node_def Let_def)

lemma uncover_cover_node:
  assumes "lowerNode s (upperNode s x) = x" and "upperNode s (lowerNode s x) = x"
  shows "uncover_node (cover_node s x) x = s"
proof -
  have u: "upperNode (uncover_node (cover_node s x) x) = upperNode s"
    using assms by (auto simp: uncover_node_def cover_node_def Let_def fun_eq_iff)
  have l: "lowerNode (uncover_node (cover_node s x) x) = lowerNode s"
    using assms by (auto simp: uncover_node_def cover_node_def Let_def fun_eq_iff)
  have c: "columnSize (uncover_node (cover_node s x) x) = columnSize s"
    by (auto simp: uncover_node_def cover_node_def Let_def fun_eq_iff)
  show ?thesis
    by (rule solver.equality) (simp_all add: u l c)
qed

lemma filter_not_in_single:
  "distinct (as @ x # bs) \<Longrightarrow> filter (\<lambda>z. z \<notin> {x}) (as @ x # bs) = as @ bs"
proof -
  assume d: "distinct (as @ x # bs)"
  then have "filter (\<lambda>z. z \<notin> {x}) as = as" "filter (\<lambda>z. z \<notin> {x}) bs = bs"
    by (auto simp: filter_id_conv)
  then show ?thesis by simp
qed

lemma filter_not_in_id: "set xs \<inter> X = {} \<Longrightarrow> filter (\<lambda>z. z \<notin> X) xs = xs"
  by (auto simp: filter_id_conv)

lemma vl_minus_simps [simp]:
  "acols (vl_minus A X) = acols A" "anodes (vl_minus A X) = anodes A"
  "arow (vl_minus A X) = arow A" "aoth (vl_minus A X) = aoth A"
  "active (vl_minus A X) = active A"
  "vl (vl_minus A X) c = filter (\<lambda>z. z \<notin> X) (vl A c)"
  by (simp_all add: vl_minus_def)

lemma vl_minus_vl_minus: "vl_minus (vl_minus A X) Y = vl_minus A (X \<union> Y)"
  by (simp add: vl_minus_def fun_eq_iff conj_commute)

lemma vl_minus_empty: "vl_minus A {} = A"
  by (simp add: vl_minus_def)

lemma static_ok_cover_node [simp]: "static_ok (cover_node s x) A = static_ok s A"
  by (simp add: static_ok_def)

lemma static_ok_vl_minus [simp]: "static_ok s (vl_minus A X) = static_ok s A"
  by (simp add: static_ok_def)

lemma vert_okD:
  assumes "vert_ok s A" and "c \<in> set (acols A)"
  shows "dpath (lowerNode s) (upperNode s) c (vl A c) c" and "distinct (vl A c)"
    and "\<And>y. y \<in> set (vl A c) \<Longrightarrow> y \<in> anodes A \<and> columnNode s y = c"
    and "columnSize s c = int (length (vl A c))"
  using assms by (auto simp: vert_ok_def)

lemma static_okD:
  assumes "static_ok s A"
  shows "distinct (acols A)" and "headNode s \<notin> set (acols A)" and "headNode s \<notin> anodes A"
    and "\<And>z. z \<in> set (acols A) \<Longrightarrow> z \<notin> anodes A"
    and "\<And>y. y \<in> anodes A \<Longrightarrow> columnNode s y \<in> set (acols A)"
    and "\<And>y. y \<in> anodes A \<Longrightarrow> dpath (rightNode s) (leftNode s) y (aoth A y) y"
    and "\<And>y. y \<in> anodes A \<Longrightarrow> distinct (aoth A y)"
    and "\<And>y. y \<in> anodes A \<Longrightarrow> y \<notin> set (aoth A y)"
    and "\<And>y. y \<in> anodes A \<Longrightarrow> set (aoth A y) = {x \<in> anodes A. arow A x = arow A y \<and> x \<noteq> y}"
    and "\<And>x y. x \<in> anodes A \<Longrightarrow> y \<in> anodes A \<Longrightarrow> arow A x = arow A y
           \<Longrightarrow> columnNode s x = columnNode s y \<Longrightarrow> x = y"
  using assms unfolding static_ok_def by blast+

lemma cover_node_vert:
  assumes st: "static_ok s A" and v: "vert_ok s A" and xa: "x \<in> anodes A"
    and xv: "x \<in> set (vl A (columnNode s x))"
  shows "vert_ok (cover_node s x) (vl_minus A {x})"
  unfolding vert_ok_def
proof (intro ballI)
  fix c assume c: "c \<in> set (acols (vl_minus A {x}))"
  then have cA: "c \<in> set (acols A)" by simp
  let ?c0 = "columnNode s x"
  have c0: "?c0 \<in> set (acols A)" using static_okD(5)[OF st xa] .
  obtain as bs where split: "vl A ?c0 = as @ x # bs" using xv by (meson split_list)
  note V0 = vert_okD[OF v c0]
  note V = vert_okD[OF v cA]
  have c0n: "?c0 \<notin> set (vl A ?c0)" using V0(3) static_okD(4)[OF st c0] by blast
  have mid: "upperNode s x = last (?c0 # as)" "lowerNode s x = hd (bs @ [?c0])"
    using dpath_mid[of "lowerNode s" "upperNode s" ?c0 as x bs ?c0] V0(1) split by simp_all
  have ux: "upperNode s x \<in> set (?c0 # vl A ?c0)"
  proof -
    have "last (?c0 # as) \<in> set (?c0 # as)" by (rule last_in_set) simp
    then show ?thesis unfolding mid split by auto
  qed
  have lx: "lowerNode s x \<in> set (?c0 # vl A ?c0)"
  proof -
    have "hd (bs @ [?c0]) \<in> set (bs @ [?c0])" by (rule hd_in_set) simp
    then show ?thesis unfolding mid split by auto
  qed
  show "dpath (lowerNode (cover_node s x)) (upperNode (cover_node s x)) c (vl (vl_minus A {x}) c) c
        \<and> distinct (vl (vl_minus A {x}) c)
        \<and> set (vl (vl_minus A {x}) c) \<subseteq> {y \<in> anodes (vl_minus A {x}). columnNode (cover_node s x) y = c}
        \<and> columnSize (cover_node s x) c = int (length (vl (vl_minus A {x}) c))"
  proof (cases "c = ?c0")
    case True
    have f: "filter (\<lambda>z. z \<notin> {x}) (vl A ?c0) = as @ bs"
      unfolding split using V0(2) split by (intro filter_not_in_single) simp
    have "dpath ((lowerNode s)(upperNode s x := lowerNode s x))
            ((upperNode s)(lowerNode s x := upperNode s x)) ?c0 (as @ bs) ?c0"
      using V0(1) V0(2) c0n unfolding split by (intro dpath_remove) simp_all
    moreover have "set (as @ bs) \<subseteq> {y \<in> anodes A. columnNode s y = ?c0}"
    proof -
      have "set (as @ bs) \<subseteq> set (vl A ?c0)" unfolding split by auto
      then show ?thesis using V0(3) by blast
    qed
    moreover have "distinct (as @ bs)" using V0(2) unfolding split by simp
    moreover have "columnSize s ?c0 - 1 = int (length (as @ bs))"
      using V0(4) unfolding split by simp
    ultimately show ?thesis
      unfolding True vl_minus_simps f cover_node_lower cover_node_upper cover_node_size
        cover_node_fields by simp

  next
    case False
    have xn: "x \<notin> set (vl A c)" using V(3) False by blast
    have f: "filter (\<lambda>z. z \<notin> {x}) (vl A c) = vl A c"
      using xn by (intro filter_not_in_id) simp
    have disj: "\<And>z. z \<in> set (?c0 # vl A ?c0) \<Longrightarrow> z \<notin> set (c # vl A c)"
      using V(3) V0(3) False static_okD(4)[OF st c0] static_okD(4)[OF st cA] by auto
    have "dpath ((lowerNode s)(upperNode s x := lowerNode s x))
            ((upperNode s)(lowerNode s x := upperNode s x)) c (vl A c) c
          = dpath (lowerNode s) (upperNode s) c (vl A c) c"
      using disj[OF ux] disj[OF lx] by (intro dpath_cong) auto
    then show ?thesis using V False
      unfolding vl_minus_simps f cover_node_lower cover_node_upper cover_node_size
        cover_node_fields by auto
  qed
qed

lemma cover_node_linked:
  assumes st: "static_ok s A" and v: "vert_ok s A" and xa: "x \<in> anodes A"
    and xv: "x \<in> set (vl A (columnNode s x))"
  shows "lowerNode s (upperNode s x) = x \<and> upperNode s (lowerNode s x) = x"
proof -
  let ?c0 = "columnNode s x"
  have c0: "?c0 \<in> set (acols A)" using static_okD(5)[OF st xa] .
  obtain as bs where split: "vl A ?c0 = as @ x # bs" using xv by (meson split_list)
  show ?thesis
    using dpath_linked[of "lowerNode s" "upperNode s" ?c0 as x bs ?c0] vert_okD(1)[OF v c0] split
    by simp
qed

text \<open>Where cover_node writes: only at the vertical neighbours of x and at its column.\<close>

lemma cover_node_frame:
  assumes st: "static_ok s A" and v: "vert_ok s A" and xa: "x \<in> anodes A"
    and xv: "x \<in> set (vl A (columnNode s x))"
    and c: "c \<in> set (acols A)" and ne: "c \<noteq> columnNode s x" and z: "z \<in> set (c # vl A c)"
  shows "lowerNode (cover_node s x) z = lowerNode s z"
    and "upperNode (cover_node s x) z = upperNode s z"
proof -
  let ?c0 = "columnNode s x"
  have c0: "?c0 \<in> set (acols A)" using static_okD(5)[OF st xa] .
  obtain as bs where split: "vl A ?c0 = as @ x # bs" using xv by (meson split_list)
  note V0 = vert_okD[OF v c0]
  note V = vert_okD[OF v c]
  have mid: "upperNode s x = last (?c0 # as)" "lowerNode s x = hd (bs @ [?c0])"
    using dpath_mid[of "lowerNode s" "upperNode s" ?c0 as x bs ?c0] V0(1) split by simp_all
  have ux: "upperNode s x \<in> set (?c0 # vl A ?c0)"
  proof -
    have "last (?c0 # as) \<in> set (?c0 # as)" by (rule last_in_set) simp
    then show ?thesis unfolding mid split by auto
  qed
  have lx: "lowerNode s x \<in> set (?c0 # vl A ?c0)"
  proof -
    have "hd (bs @ [?c0]) \<in> set (bs @ [?c0])" by (rule hd_in_set) simp
    then show ?thesis unfolding mid split by auto
  qed
  have disj: "\<And>w. w \<in> set (?c0 # vl A ?c0) \<Longrightarrow> w \<noteq> z"
    using V(3) V0(3) ne z static_okD(4)[OF st c0] static_okD(4)[OF st c] by auto
  show "lowerNode (cover_node s x) z = lowerNode s z"
    using disj[OF ux] by (simp add: cover_node_lower)
  show "upperNode (cover_node s x) z = upperNode s z"
    using disj[OF lx] by (simp add: cover_node_upper)
qed

lemma cover_nodes_simps [simp]:
  "cover_nodes [] s = s" "cover_nodes (x # xs) s = cover_nodes xs (cover_node s x)"
  "cover_nodes (xs @ ys) s = cover_nodes ys (cover_nodes xs s)"
  by (simp_all add: cover_nodes_def)

lemma uncover_nodes_simps [simp]:
  "uncover_nodes [] s = s" "uncover_nodes (x # xs) s = uncover_nodes xs (uncover_node s x)"
  "uncover_nodes (xs @ ys) s = uncover_nodes ys (uncover_nodes xs s)"
  by (simp_all add: uncover_nodes_def)

lemma cover_nodes_fields [simp]:
  "leftNode (cover_nodes xs s) = leftNode s"
  "rightNode (cover_nodes xs s) = rightNode s"
  "columnNode (cover_nodes xs s) = columnNode s"
  "identifier' (cover_nodes xs s) = identifier' s"
  "headNode (cover_nodes xs s) = headNode s"
  "CURRENT_SOLUTION (cover_nodes xs s) = CURRENT_SOLUTION s"
  "SUDOKU_SOLUTION (cover_nodes xs s) = SUDOKU_SOLUTION s"
  by (induction xs arbitrary: s; simp)+

lemma uncover_nodes_fields [simp]:
  "leftNode (uncover_nodes xs s) = leftNode s"
  "rightNode (uncover_nodes xs s) = rightNode s"
  "columnNode (uncover_nodes xs s) = columnNode s"
  "identifier' (uncover_nodes xs s) = identifier' s"
  "headNode (uncover_nodes xs s) = headNode s"
  "CURRENT_SOLUTION (uncover_nodes xs s) = CURRENT_SOLUTION s"
  "SUDOKU_SOLUTION (uncover_nodes xs s) = SUDOKU_SOLUTION s"
  by (induction xs arbitrary: s; simp)+

lemma static_ok_cover_nodes [simp]: "static_ok (cover_nodes xs s) A = static_ok s A"
  by (simp add: static_ok_def)

lemma coverable_Cons:
  "coverable s A (x # xs) \<Longrightarrow>
     x \<in> anodes A \<and> x \<in> set (vl A (columnNode s x))
     \<and> coverable (cover_node s x) (vl_minus A {x}) xs"
  by (auto simp: coverable_def)

lemma cover_nodes_vert:
  "static_ok s A \<Longrightarrow> vert_ok s A \<Longrightarrow> coverable s A xs
   \<Longrightarrow> vert_ok (cover_nodes xs s) (vl_minus A (set xs))"
proof (induction xs arbitrary: s A)
  case Nil
  then show ?case by (simp add: vl_minus_empty)
next
  case (Cons x xs)
  from coverable_Cons[OF Cons.prems(3)]
  have x: "x \<in> anodes A" "x \<in> set (vl A (columnNode s x))"
    and c: "coverable (cover_node s x) (vl_minus A {x}) xs" by auto
  have v: "vert_ok (cover_node s x) (vl_minus A {x})"
    using cover_node_vert[OF Cons.prems(1,2) x] .
  have "vert_ok (cover_nodes xs (cover_node s x)) (vl_minus (vl_minus A {x}) (set xs))"
    using Cons.prems(1) v c by (intro Cons.IH) simp_all
  then show ?case by (simp add: vl_minus_vl_minus)
qed

lemma uncover_cover_nodes:
  "static_ok s A \<Longrightarrow> vert_ok s A \<Longrightarrow> coverable s A xs
   \<Longrightarrow> uncover_nodes (rev xs) (cover_nodes xs s) = s"
proof (induction xs arbitrary: s A)
  case Nil
  then show ?case by simp
next
  case (Cons x xs)
  from coverable_Cons[OF Cons.prems(3)]
  have x: "x \<in> anodes A" "x \<in> set (vl A (columnNode s x))"
    and c: "coverable (cover_node s x) (vl_minus A {x}) xs" by auto
  have v: "vert_ok (cover_node s x) (vl_minus A {x})"
    using cover_node_vert[OF Cons.prems(1,2) x] .
  have "uncover_nodes (rev xs) (cover_nodes xs (cover_node s x)) = cover_node s x"
    using Cons.prems(1) v c by (intro Cons.IH[of _ "vl_minus A {x}"]) simp_all
  moreover have "uncover_node (cover_node s x) x = s"
    using cover_node_linked[OF Cons.prems(1,2) x] by (intro uncover_cover_node) simp_all
  ultimately show ?case by simp
qed

lemma cover_nodes_frame:
  "static_ok s A \<Longrightarrow> vert_ok s A \<Longrightarrow> coverable s A xs \<Longrightarrow> c \<in> set (acols A)
   \<Longrightarrow> c \<notin> columnNode s ` set xs \<Longrightarrow> z \<in> set (c # vl A c)
   \<Longrightarrow> lowerNode (cover_nodes xs s) z = lowerNode s z
     \<and> upperNode (cover_nodes xs s) z = upperNode s z"
proof (induction xs arbitrary: s A)
  case Nil
  then show ?case by simp
next
  case (Cons x xs)
  from coverable_Cons[OF Cons.prems(3)]
  have x: "x \<in> anodes A" "x \<in> set (vl A (columnNode s x))"
    and c: "coverable (cover_node s x) (vl_minus A {x}) xs" by auto
  have v: "vert_ok (cover_node s x) (vl_minus A {x})"
    using cover_node_vert[OF Cons.prems(1,2) x] .
  have ne: "c \<noteq> columnNode s x" using Cons.prems(5) by auto
  have xz: "x \<notin> set (vl A c)" using vert_okD(3)[OF Cons.prems(2,4)] ne by blast
  have z': "z \<in> set (c # vl (vl_minus A {x}) c)" using Cons.prems(6) xz by auto
  have "lowerNode (cover_nodes xs (cover_node s x)) z = lowerNode (cover_node s x) z
     \<and> upperNode (cover_nodes xs (cover_node s x)) z = upperNode (cover_node s x) z"
    using Cons.prems(1,4,5) v c z' by (intro Cons.IH[of _ "vl_minus A {x}"]) simp_all
  then show ?case
    using cover_node_frame[OF Cons.prems(1,2) x Cons.prems(4) ne Cons.prems(6)] by simp
qed

lemma cover_nodes_size_frame:
  "c \<notin> columnNode s ` set xs \<Longrightarrow> columnSize (cover_nodes xs s) c = columnSize s c"
  by (induction xs arbitrary: s) (auto simp: cover_node_size)

lemma cover_row_fold:
  "npath (rightNode s) x xs y \<Longrightarrow> cover_row s y x = Some (cover_nodes xs s)"
proof (induction xs arbitrary: s x)
  case Nil
  then show ?case by (subst cover_row.simps) simp
next
  case (Cons a xs)
  then have 1: "x = a" "x \<noteq> y" and 2: "npath (rightNode (cover_node s x)) (rightNode s x) xs y"
    by auto
  show ?case
    using 1 Cons.IH[OF 2] by (subst cover_row.simps) simp
qed

lemma uncover_row_fold:
  "npath (leftNode s) x xs y \<Longrightarrow> uncover_row s y x = Some (uncover_nodes xs s)"
proof (induction xs arbitrary: s x)
  case Nil
  then show ?case by (subst uncover_row.simps) simp
next
  case (Cons a xs)
  then have 1: "x = a" "x \<noteq> y" and 2: "npath (leftNode (uncover_node s x)) (leftNode s x) xs y"
    by auto
  show ?case
    using 1 Cons.IH[OF 2] by (subst uncover_row.simps) simp
qed

lemma coverable_append:
  assumes "static_ok s A" and "vert_ok s A" and "coverable s A (xs @ ys)"
  shows "coverable s A xs" and "coverable (cover_nodes xs s) (vl_minus A (set xs)) ys"
  using assms(3) by (auto simp: coverable_def)

lemma static_row_npath:
  assumes "static_ok s A" and "y \<in> anodes A"
  shows "npath (rightNode s) (rightNode s y) (aoth A y) y"
    and "npath (leftNode s) (leftNode s y) (rev (aoth A y)) y"
  using static_okD(6,8)[OF assms] by (auto intro: dpath_npath dpath_npath_rev)

lemma row_nodes_simps [simp]:
  "row_nodes A [] = []" "row_nodes A (y # ys) = aoth A y @ row_nodes A ys"
  "row_nodes A (ys @ zs) = row_nodes A ys @ row_nodes A zs"
  "row_nodes (vl_minus A X) ys = row_nodes A ys"
  by (simp_all add: row_nodes_def)

lemma cover_rows_ok:
  assumes "static_ok s A" and "vert_ok s A" and "c \<in> set (acols A)"
    and "vl A c = pre @ ys" and "coverable s A (row_nodes A ys)"
    and "c \<notin> columnNode s ` set (row_nodes A ys)"
  shows "cover_rows s c (hd (ys @ [c])) = Some (cover_nodes (row_nodes A ys) s)"
  using assms
proof (induction ys arbitrary: s A pre)
  case Nil
  then show ?case by (subst cover_rows.simps) simp
next
  case (Cons y ys)
  note st = Cons.prems(1) and v = Cons.prems(2) and c = Cons.prems(3)
  note V = vert_okD[OF v c]
  have yv: "y \<in> set (vl A c)" using Cons.prems(4) by simp
  then have ya: "y \<in> anodes A" using V(3) by blast
  have yc: "y \<noteq> c" using ya static_okD(4)[OF st c] by blast
  let ?s1 = "cover_nodes (aoth A y) s"
  let ?A1 = "vl_minus A (set (aoth A y))"
  have cov: "coverable s A (aoth A y @ row_nodes A ys)" using Cons.prems(5) by simp
  note cv = coverable_append[OF st v cov]
  have inner: "cover_row s y (rightNode s y) = Some ?s1"
    using static_row_npath(1)[OF st ya] by (rule cover_row_fold)
  have cn: "c \<notin> columnNode s ` set (aoth A y)" using Cons.prems(6) by auto
  have low: "lowerNode ?s1 y = lowerNode s y"
    using cover_nodes_frame[OF st v cv(1) c cn, of y] yv by simp
  have "lowerNode s y = hd (ys @ [c])"
    using dpath_mid[of "lowerNode s" "upperNode s" c pre y ys c] V(1) Cons.prems(4) by simp
  with low have next_row: "lowerNode ?s1 y = hd (ys @ [c])" by simp
  have disj: "set (vl A c) \<inter> set (aoth A y) = {}"
    using cn V(3) by auto
  have vl1: "vl ?A1 c = (pre @ [y]) @ ys"
    using Cons.prems(4) filter_not_in_id[OF disj] by simp
  have v1: "vert_ok ?s1 ?A1" using cover_nodes_vert[OF st v cv(1)] .
  have "cover_rows ?s1 c (hd (ys @ [c])) = Some (cover_nodes (row_nodes ?A1 ys) ?s1)"
    using st v1 c vl1 cv(2) Cons.prems(6) by (intro Cons.IH[of _ ?A1 "pre @ [y]"]) auto
  then show ?case
    using yc inner next_row by (subst cover_rows.simps) simp
qed

lemma uncover_rows_ok:
  assumes "static_ok s A" and "vert_ok s A" and "c \<in> set (acols A)"
    and "vl A c = ys @ post" and "coverable s A (row_nodes A ys)"
    and "c \<notin> columnNode s ` set (row_nodes A ys)"
  shows "uncover_rows (cover_nodes (row_nodes A ys) s) c (last (c # ys)) = Some s"
  using assms(4-6)
proof (induction ys arbitrary: post rule: rev_induct)
  case Nil
  then show ?case by (subst uncover_rows.simps) simp
next
  case (snoc y ys)
  note st = assms(1) and v = assms(2) and c = assms(3)
  note V = vert_okD[OF v c]
  have yv: "y \<in> set (vl A c)" using snoc.prems(1) by simp
  then have ya: "y \<in> anodes A" using V(3) by blast
  have yc: "y \<noteq> c" using ya static_okD(4)[OF st c] by blast
  let ?s1 = "cover_nodes (row_nodes A ys) s"
  let ?A1 = "vl_minus A (set (row_nodes A ys))"
  let ?s2 = "cover_nodes (aoth A y) ?s1"
  have cov: "coverable s A (row_nodes A ys @ aoth A y)" using snoc.prems(2) by simp
  note cv = coverable_append[OF st v cov]
  have v1: "vert_ok ?s1 ?A1" using cover_nodes_vert[OF st v cv(1)] .
  have st1: "static_ok ?s1 ?A1" using st by simp
  have undo: "uncover_nodes (rev (aoth A y)) ?s2 = ?s1"
    using uncover_cover_nodes[OF st1 v1 cv(2)] .
  have "npath (leftNode ?s2) (leftNode ?s2 y) (rev (aoth A y)) y"
    using static_row_npath(2)[OF st ya] by simp
  then have inner: "uncover_row ?s2 y (leftNode ?s2 y) = Some ?s1"
    using undo uncover_row_fold by fastforce
  have cn: "c \<notin> columnNode s ` set (row_nodes A ys)" using snoc.prems(3) by auto
  have up: "upperNode ?s1 y = upperNode s y"
    using cover_nodes_frame[OF st v cv(1) c cn, of y] yv by simp
  have "upperNode s y = last (c # ys)"
    using dpath_mid[of "lowerNode s" "upperNode s" c ys y post c] V(1) snoc.prems(1) by simp
  with up have next_row: "upperNode ?s1 y = last (c # ys)" by simp
  have ih: "uncover_rows ?s1 c (last (c # ys)) = Some s"
    using snoc.prems cv(1) cn by (intro snoc.IH[of "y # post"]) simp_all
  show ?case
    using yc inner next_row ih by (subst uncover_rows.simps) simp
qed

lemma acover_simps [simp]:
  "acols (acover A c) = acols A" "anodes (acover A c) = anodes A"
  "arow (acover A c) = arow A" "aoth (acover A c) = aoth A"
  "active (acover A c) = filter (\<lambda>z. z \<noteq> c) (active A)"
  "vl (acover A c) c' = filter (\<lambda>z. z \<notin> set (row_nodes A (vl A c))) (vl A c')"
  by (simp_all add: acover_def)

lemma coverColumn_unfold:
  "coverColumn s c = cover_rows (unlink_column s c) c (lowerNode s c)"
  by (simp add: coverColumn_def unlink_column_def Let_def)

lemma unlink_column_fields [simp]:
  "upperNode (unlink_column s c) = upperNode s"
  "lowerNode (unlink_column s c) = lowerNode s"
  "columnNode (unlink_column s c) = columnNode s"
  "columnSize (unlink_column s c) = columnSize s"
  "identifier' (unlink_column s c) = identifier' s"
  "headNode (unlink_column s c) = headNode s"
  "CURRENT_SOLUTION (unlink_column s c) = CURRENT_SOLUTION s"
  "SUDOKU_SOLUTION (unlink_column s c) = SUDOKU_SOLUTION s"
  "leftNode (unlink_column s c) = (leftNode s)(rightNode s c := leftNode s c)"
  "rightNode (unlink_column s c) = (rightNode s)(leftNode s c := rightNode s c)"
  by (simp_all add: unlink_column_def)

lemma ring_okD:
  assumes "ring_ok s A"
  shows "dpath (rightNode s) (leftNode s) (headNode s) (active A) (headNode s)"
    and "active A = filter (\<lambda>c. c \<in> set (active A)) (acols A)"
    and "set (active A) \<subseteq> set (acols A)"
proof -
  show 1: "dpath (rightNode s) (leftNode s) (headNode s) (active A) (headNode s)"
    and 2: "active A = filter (\<lambda>c. c \<in> set (active A)) (acols A)"
    using assms by (simp_all add: ring_ok_def)
  show "set (active A) \<subseteq> set (acols A)" by (subst 2) auto
qed

lemma ring_ok_distinct:
  assumes "static_ok s A" and "ring_ok s A"
  shows "distinct (active A)"
  by (subst ring_okD(2)[OF assms(2)]) (simp add: static_okD(1)[OF assms(1)])

lemma InvD:
  assumes "Inv s A"
  shows "static_ok s A" and "vert_ok s A" and "ring_ok s A" and "rows_ok s A"
  using assms by (simp_all add: Inv_def)

lemma in_row_nodes: "x \<in> set (row_nodes A ys) \<longleftrightarrow> (\<exists>y \<in> set ys. x \<in> set (aoth A y))"
  by (auto simp: row_nodes_def)

lemma aoth_sym:
  assumes "static_ok s A" and "y \<in> anodes A" and "x \<in> set (aoth A y)"
  shows "x \<in> anodes A" and "y \<in> set (aoth A x)" and "arow A x = arow A y" and "x \<noteq> y"
    and "columnNode s x \<noteq> columnNode s y"
proof -
  from static_okD(9)[OF assms(1,2)] assms(3)
  show x: "x \<in> anodes A" and r: "arow A x = arow A y" and n: "x \<noteq> y" by auto
  show "y \<in> set (aoth A x)"
    using static_okD(9)[OF assms(1) x] assms(2) r n by auto
  show "columnNode s x \<noteq> columnNode s y"
    using static_okD(10)[OF assms(1) x assms(2) r] n by blast
qed

lemma distinct_row_nodes:
  assumes st: "static_ok s A" and ys: "distinct ys"
    and col: "\<And>y. y \<in> set ys \<Longrightarrow> y \<in> anodes A \<and> columnNode s y = c"
  shows "distinct (row_nodes A ys)"
  using ys col
proof (induction ys)
  case Nil
  then show ?case by simp
next
  case (Cons y ys)
  have ya: "y \<in> anodes A" "columnNode s y = c" using Cons.prems(2)[of y] by auto
  have "set (aoth A y) \<inter> set (row_nodes A ys) = {}"
  proof (rule ccontr)
    assume "set (aoth A y) \<inter> set (row_nodes A ys) \<noteq> {}"
    then obtain x y' where x: "x \<in> set (aoth A y)" "y' \<in> set ys" "x \<in> set (aoth A y')"
      by (auto simp: in_row_nodes)
    have y'a: "y' \<in> anodes A" "columnNode s y' = c" using Cons.prems(2)[of y'] x(2) by auto
    have "arow A y = arow A y'"
      using aoth_sym(3)[OF st ya(1) x(1)] aoth_sym(3)[OF st y'a(1) x(3)] by simp
    then have "y = y'" using static_okD(10)[OF st ya(1) y'a(1)] ya(2) y'a(2) by simp
    then show False using Cons.prems(1) x(2) by simp
  qed
  moreover have "distinct (aoth A y)" using static_okD(7)[OF st ya(1)] .
  moreover have "distinct (row_nodes A ys)" using Cons by auto
  ultimately show ?case by simp
qed

lemma Inv_coverable:
  assumes inv: "Inv s A" and c: "c \<in> set (active A)"
  shows "coverable s A (row_nodes A (vl A c))"
    and "c \<notin> columnNode s ` set (row_nodes A (vl A c))"
    and "c \<in> set (acols A)"
proof -
  note st = InvD(1)[OF inv] and v = InvD(2)[OF inv] and rg = InvD(3)[OF inv]
    and rw = InvD(4)[OF inv]
  show cA: "c \<in> set (acols A)" using ring_okD(3)[OF rg] c by blast
  note V = vert_okD[OF v cA]
  have d: "distinct (row_nodes A (vl A c))"
    using V(2) V(3) by (intro distinct_row_nodes[OF st]) auto
  have live: "x \<in> anodes A \<and> x \<in> set (vl A (columnNode s x)) \<and> columnNode s x \<noteq> c"
    if "x \<in> set (row_nodes A (vl A c))" for x
  proof -
    from that obtain y where y: "y \<in> set (vl A c)" "x \<in> set (aoth A y)"
      by (auto simp: in_row_nodes)
    have ya: "y \<in> anodes A" "columnNode s y = c" using V(3)[OF y(1)] by auto
    have "x \<in> set (vl A (columnNode s x))"
      using rw ya y c unfolding rows_ok_def by blast
    then show ?thesis using aoth_sym(1,5)[OF st ya(1) y(2)] ya(2) by simp
  qed
  show "coverable s A (row_nodes A (vl A c))"
    unfolding coverable_def using d live by blast
  show "c \<notin> columnNode s ` set (row_nodes A (vl A c))" using live by blast
qed

lemma filter_neq_split:
  "distinct (as @ x # bs) \<Longrightarrow> filter (\<lambda>z. z \<noteq> x) (as @ x # bs) = as @ bs"
proof -
  assume d: "distinct (as @ x # bs)"
  then have "filter (\<lambda>z. z \<noteq> x) as = as" "filter (\<lambda>z. z \<noteq> x) bs = bs"
    by (auto simp: filter_id_conv)
  then show ?thesis by simp
qed

lemma ring_ok_cover_nodes: "ring_ok (cover_nodes xs s) A = ring_ok s A"
  unfolding ring_ok_def cover_nodes_fields ..

lemma vert_ok_unlink_column [simp]: "vert_ok (unlink_column s c) A = vert_ok s A"
  by (simp add: vert_ok_def)

lemma ring_neighbours:
  assumes inv: "Inv s A" and c: "c \<in> set (active A)"
  shows "leftNode s c \<notin> anodes A" and "rightNode s c \<notin> anodes A"
    and "rightNode s (leftNode s c) = c" and "leftNode s (rightNode s c) = c"
    and "\<exists>as bs. active A = as @ c # bs"
proof -
  note st = InvD(1)[OF inv] and rg = InvD(3)[OF inv]
  obtain as bs where split: "active A = as @ c # bs" using c by (meson split_list)
  then show "\<exists>as bs. active A = as @ c # bs" by blast
  have d: "dpath (rightNode s) (leftNode s) (headNode s) (as @ c # bs) (headNode s)"
    using ring_okD(1)[OF rg] split by simp
  from dpath_mid[OF d] have m: "leftNode s c = last (headNode s # as)"
    "rightNode s c = hd (bs @ [headNode s])" by auto
  have "last (headNode s # as) \<in> set (headNode s # as)" by (rule last_in_set) simp
  then have l: "leftNode s c \<in> insert (headNode s) (set (active A))"
    unfolding m split by auto
  have "hd (bs @ [headNode s]) \<in> set (bs @ [headNode s])" by (rule hd_in_set) simp
  then have r: "rightNode s c \<in> insert (headNode s) (set (active A))"
    unfolding m split by auto
  have "\<And>z. z \<in> insert (headNode s) (set (active A)) \<Longrightarrow> z \<notin> anodes A"
    using static_okD(3,4)[OF st] ring_okD(3)[OF rg] by blast
  then show "leftNode s c \<notin> anodes A" "rightNode s c \<notin> anodes A" using l r by blast+
  show "rightNode s (leftNode s c) = c" "leftNode s (rightNode s c) = c"
    using dpath_linked[OF d] by simp_all
qed

lemma unlink_column_static:
  assumes inv: "Inv s A" and c: "c \<in> set (active A)"
  shows "static_ok (unlink_column s c) A"
proof -
  note st = InvD(1)[OF inv]
  note nb = ring_neighbours[OF inv c]
  have rows: "dpath (rightNode (unlink_column s c)) (leftNode (unlink_column s c)) y (aoth A y) y
      = dpath (rightNode s) (leftNode s) y (aoth A y) y" if y: "y \<in> anodes A" for y
  proof -
    have "\<And>z. z \<in> set (y # aoth A y) \<Longrightarrow> z \<in> anodes A"
      using y static_okD(9)[OF st y] by auto
    then have 1: "\<And>z. z \<in> set (y # aoth A y) \<Longrightarrow> z \<noteq> leftNode s c \<and> z \<noteq> rightNode s c"
      using nb(1,2) by blast
    show ?thesis by (rule dpath_cong) (use 1 in auto)
  qed
  show ?thesis
    using st unfolding static_ok_def by (simp add: rows del: unlink_column_fields(9,10))
qed

lemma unlink_column_ring:
  assumes inv: "Inv s A" and c: "c \<in> set (active A)"
  shows "ring_ok (unlink_column s c) (acover A c)"
proof -
  note st = InvD(1)[OF inv] and rg = InvD(3)[OF inv]
  note dist = ring_ok_distinct[OF st rg]
  obtain as bs where split: "active A = as @ c # bs" using c by (meson split_list)
  have d: "dpath (rightNode s) (leftNode s) (headNode s) (as @ c # bs) (headNode s)"
    using ring_okD(1)[OF rg] split by simp
  have hn: "headNode s \<notin> set (as @ c # bs)"
    using static_okD(2)[OF st] ring_okD(3)[OF rg] split by auto
  have f: "filter (\<lambda>z. z \<noteq> c) (active A) = as @ bs"
    using dist unfolding split by (rule filter_neq_split)
  have dp: "dpath ((rightNode s)(leftNode s c := rightNode s c))
          ((leftNode s)(rightNode s c := leftNode s c)) (headNode s) (as @ bs) (headNode s)"
    using d dist hn unfolding split by (intro dpath_remove) simp_all
  have fl: "filter (\<lambda>z. z \<noteq> c) (active A)
      = filter (\<lambda>z. z \<in> set (filter (\<lambda>z. z \<noteq> c) (active A))) (acols A)"
  proof -
    have "filter (\<lambda>z. z \<noteq> c) (active A)
        = filter (\<lambda>z. z \<noteq> c) (filter (\<lambda>c. c \<in> set (active A)) (acols A))"
      using ring_okD(2)[OF rg] by simp
    also have "\<dots> = filter (\<lambda>z. z \<in> set (filter (\<lambda>z. z \<noteq> c) (active A))) (acols A)"
      by (simp add: conj_commute)
    finally show ?thesis .
  qed
  have 1: "dpath (rightNode (unlink_column s c)) (leftNode (unlink_column s c))
      (headNode (unlink_column s c)) (active (acover A c)) (headNode (unlink_column s c))"
    unfolding acover_simps unlink_column_fields f by (rule dp)
  have 2: "active (acover A c)
      = filter (\<lambda>z. z \<in> set (active (acover A c))) (acols (acover A c))"
    unfolding acover_simps by (rule fl)
  show ?thesis unfolding ring_ok_def using 1 2 by (rule conjI)
qed

lemma coverColumn_Some:
  assumes inv: "Inv s A" and c: "c \<in> set (active A)"
  shows "coverColumn s c = Some (covered s A c)"
proof -
  note st = InvD(1)[OF inv] and v = InvD(2)[OF inv]
  note cv = Inv_coverable[OF inv c]
  let ?s0 = "unlink_column s c"
  have st0: "static_ok ?s0 A" using unlink_column_static[OF inv c] .
  have v0: "vert_ok ?s0 A" using v by simp
  have cv0: "coverable ?s0 A (row_nodes A (vl A c))" using cv(1) by (simp add: coverable_def)
  have cn0: "c \<notin> columnNode ?s0 ` set (row_nodes A (vl A c))" using cv(2) by simp
  have "lowerNode s c = hd (vl A c @ [c])"
    using dpath_hd[OF vert_okD(1)[OF v cv(3)]] .
  then show ?thesis
    using cover_rows_ok[OF st0 v0 cv(3) _ cv0 cn0, of "[]"]
    by (simp add: coverColumn_unfold covered_def)
qed

lemma covered_Inv:
  assumes inv: "Inv s A" and c: "c \<in> set (active A)"
  shows "Inv (covered s A c) (acover A c)"
proof -
  note st = InvD(1)[OF inv] and v = InvD(2)[OF inv] and rg = InvD(3)[OF inv]
    and rw = InvD(4)[OF inv]
  note cv = Inv_coverable[OF inv c]
  let ?s0 = "unlink_column s c"
  let ?X = "set (row_nodes A (vl A c))"
  have st0: "static_ok ?s0 A" using unlink_column_static[OF inv c] .
  have v0: "vert_ok ?s0 A" using v by simp
  have cv0: "coverable ?s0 A (row_nodes A (vl A c))" using cv(1) by (simp add: coverable_def)
  have 1: "static_ok (covered s A c) (acover A c)"
    using st0 by (simp add: covered_def static_ok_def)
  have "vert_ok (covered s A c) (vl_minus A ?X)"
    unfolding covered_def using cover_nodes_vert[OF st0 v0 cv0] .
  then have 2: "vert_ok (covered s A c) (acover A c)"
    by (simp add: vert_ok_def)
  have 3: "ring_ok (covered s A c) (acover A c)"
    unfolding covered_def ring_ok_cover_nodes by (rule unlink_column_ring[OF inv c])
  have 4: "rows_ok (covered s A c) (acover A c)"
    unfolding rows_ok_def
  proof (intro ballI impI)
    fix y x
    assume y: "y \<in> anodes (acover A c)"
      and ya: "columnNode (covered s A c) y \<in> set (active (acover A c))"
      and yv: "y \<in> set (vl (acover A c) (columnNode (covered s A c) y))"
      and x: "x \<in> set (aoth (acover A c) y)"
    have y': "y \<in> anodes A" "columnNode s y \<in> set (active A)" "columnNode s y \<noteq> c"
      "y \<in> set (vl A (columnNode s y))" "y \<notin> ?X"
      using y ya yv by (simp_all add: covered_def)
    have x': "x \<in> set (aoth A y)" using x by simp
    note sym = aoth_sym[OF st y'(1) x']
    have live: "columnNode s x \<in> set (active A)" "x \<in> set (vl A (columnNode s x))"
      using rw y' x' unfolding rows_ok_def by blast+
    have notc: "z \<notin> set (vl A c)" if "z \<in> anodes A" "arow A z = arow A y" for z
    proof
      assume zc: "z \<in> set (vl A c)"
      have "z \<noteq> y" using vert_okD(3)[OF v cv(3) zc] y'(3) by auto
      then have "y \<in> set (aoth A z)" using static_okD(9)[OF st that(1)] y'(1) that(2) by auto
      then have "y \<in> ?X" using zc by (auto simp: in_row_nodes)
      then show False using y'(5) by simp
    qed
    have xc: "columnNode s x \<noteq> c"
    proof
      assume "columnNode s x = c"
      then have "x \<in> set (vl A c)" using live(2) by simp
      then show False using notc[OF sym(1) sym(3)] by simp
    qed
    have xX: "x \<notin> ?X"
    proof
      assume "x \<in> ?X"
      then obtain y' where y2: "y' \<in> set (vl A c)" "x \<in> set (aoth A y')"
        by (auto simp: in_row_nodes)
      have y2a: "y' \<in> anodes A" using vert_okD(3)[OF v cv(3) y2(1)] by simp
      have "arow A y' = arow A y"
        using aoth_sym(3)[OF st y2a y2(2)] sym(3) by simp
      then show False using notc[OF y2a] y2(1) by simp
    qed
    show "columnNode (covered s A c) x \<in> set (active (acover A c))
        \<and> x \<in> set (vl (acover A c) (columnNode (covered s A c) x))"
      using live xc xX by (simp add: covered_def)
  qed
  show ?thesis using 1 2 3 4 by (simp add: Inv_def)
qed

lemma uncoverColumn_unfold:
  "uncoverColumn s c =
     Option.bind (uncover_rows s c (upperNode s c)) (\<lambda>s1. Some (relink_col s1 c))"
  by (simp add: uncoverColumn_def relink_col_def Let_def)

lemma relink_column:
  assumes "rightNode s (leftNode s c) = c" and "leftNode s (rightNode s c) = c"
  shows "relink_col (unlink_column s c) c = s"
proof -
  have r: "rightNode (relink_col (unlink_column s c) c) = rightNode s"
    using assms by (auto simp: relink_col_def Let_def fun_eq_iff)
  have l: "leftNode (relink_col (unlink_column s c) c) = leftNode s"
    using assms by (auto simp: relink_col_def Let_def fun_eq_iff)
  show ?thesis
    by (rule solver.equality) (simp_all only: r l, simp_all add: relink_col_def Let_def)
qed

lemma uncoverColumn_covered:
  assumes inv: "Inv s A" and c: "c \<in> set (active A)"
  shows "uncoverColumn (covered s A c) c = Some s"
proof -
  note st = InvD(1)[OF inv] and v = InvD(2)[OF inv]
  note cv = Inv_coverable[OF inv c]
  note nb = ring_neighbours[OF inv c]
  let ?s0 = "unlink_column s c"
  have st0: "static_ok ?s0 A" using unlink_column_static[OF inv c] .
  have v0: "vert_ok ?s0 A" using v by simp
  have cv0: "coverable ?s0 A (row_nodes A (vl A c))" using cv(1) by (simp add: coverable_def)
  have cn0: "c \<notin> columnNode ?s0 ` set (row_nodes A (vl A c))" using cv(2) by simp
  have "upperNode (covered s A c) c = upperNode ?s0 c"
    unfolding covered_def using cover_nodes_frame[OF st0 v0 cv0 cv(3) cn0, of c] by simp
  also have "\<dots> = last (c # vl A c)"
    using dpath_last[OF vert_okD(1)[OF v cv(3)]] by simp
  finally have up: "upperNode (covered s A c) c = last (c # vl A c)" .
  have rows: "uncover_rows (covered s A c) c (last (c # vl A c)) = Some ?s0"
    unfolding covered_def using uncover_rows_ok[OF st0 v0 cv(3) _ cv0 cn0, of "[]"] by simp
  show ?thesis
    unfolding uncoverColumn_unfold up rows bind.bind_lunit relink_column[OF nb(3,4)] ..
qed

lemma covered_fields [simp]:
  "columnNode (covered s A c) = columnNode s"
  "identifier' (covered s A c) = identifier' s"
  "headNode (covered s A c) = headNode s"
  "CURRENT_SOLUTION (covered s A c) = CURRENT_SOLUTION s"
  "SUDOKU_SOLUTION (covered s A c) = SUDOKU_SOLUTION s"
  by (simp_all add: covered_def)

lemma covered_row_links:
  assumes inv: "Inv s A" and c: "c \<in> set (active A)" and z: "z \<in> anodes A"
  shows "rightNode (covered s A c) z = rightNode s z"
    and "leftNode (covered s A c) z = leftNode s z"
  using ring_neighbours(1,2)[OF inv c] z by (auto simp: covered_def)

lemma covered_column_links:
  assumes inv: "Inv s A" and c: "c \<in> set (active A)" and z: "z \<in> set (c # vl A c)"
  shows "lowerNode (covered s A c) z = lowerNode s z"
    and "upperNode (covered s A c) z = upperNode s z"
proof -
  note st = InvD(1)[OF inv] and v = InvD(2)[OF inv]
  note cv = Inv_coverable[OF inv c]
  let ?s0 = "unlink_column s c"
  have st0: "static_ok ?s0 A" using unlink_column_static[OF inv c] .
  have v0: "vert_ok ?s0 A" using v by simp
  have cv0: "coverable ?s0 A (row_nodes A (vl A c))" using cv(1) by (simp add: coverable_def)
  have cn0: "c \<notin> columnNode ?s0 ` set (row_nodes A (vl A c))" using cv(2) by simp
  show "lowerNode (covered s A c) z = lowerNode s z"
    and "upperNode (covered s A c) z = upperNode s z"
    unfolding covered_def using cover_nodes_frame[OF st0 v0 cv0 cv(3) cn0 z] by simp_all
qed

lemma acover_vl_self:
  assumes inv: "Inv s A" and c: "c \<in> set (active A)"
  shows "vl (acover A c) c = vl A c"
proof -
  note cv = Inv_coverable[OF inv c]
  have "set (vl A c) \<inter> set (row_nodes A (vl A c)) = {}"
    using cv(2) vert_okD(3)[OF InvD(2)[OF inv] cv(3)] by auto
  then show ?thesis by (simp add: filter_not_in_id)
qed

lemma covered_seq_snoc:
  "covered_seq s A (cs @ [c]) = covered (covered_seq s A cs) (acover_seq A cs) c"
  by (induction cs arbitrary: s A) simp_all

lemma acover_seq_snoc: "acover_seq A (cs @ [c]) = acover (acover_seq A cs) c"
  by (induction cs arbitrary: A) simp_all

lemma acover_seq_static [simp]:
  "acols (acover_seq A cs) = acols A" "anodes (acover_seq A cs) = anodes A"
  "arow (acover_seq A cs) = arow A" "aoth (acover_seq A cs) = aoth A"
  by (induction cs arbitrary: A; simp)+

lemma acover_seq_active: "active (acover_seq A cs) = filter (\<lambda>z. z \<notin> set cs) (active A)"
  by (induction cs arbitrary: A) (simp_all add: conj_commute)

lemma covered_seq_fields [simp]:
  "columnNode (covered_seq s A cs) = columnNode s"
  "identifier' (covered_seq s A cs) = identifier' s"
  "headNode (covered_seq s A cs) = headNode s"
  "CURRENT_SOLUTION (covered_seq s A cs) = CURRENT_SOLUTION s"
  "SUDOKU_SOLUTION (covered_seq s A cs) = SUDOKU_SOLUTION s"
  by (induction cs arbitrary: s A; simp)+

lemma covered_seq_Inv:
  "Inv s A \<Longrightarrow> distinct cs \<Longrightarrow> set cs \<subseteq> set (active A)
   \<Longrightarrow> Inv (covered_seq s A cs) (acover_seq A cs)"
proof (induction cs arbitrary: s A)
  case Nil
  then show ?case by simp
next
  case (Cons c cs)
  have "Inv (covered s A c) (acover A c)" using Cons.prems by (intro covered_Inv) simp_all
  then show ?case using Cons.prems by (auto intro!: Cons.IH)
qed

lemma covered_seq_row_links:
  "Inv s A \<Longrightarrow> distinct cs \<Longrightarrow> set cs \<subseteq> set (active A) \<Longrightarrow> z \<in> anodes A
   \<Longrightarrow> rightNode (covered_seq s A cs) z = rightNode s z
     \<and> leftNode (covered_seq s A cs) z = leftNode s z"
proof (induction cs arbitrary: s A)
  case Nil
  then show ?case by simp
next
  case (Cons c cs)
  have c: "c \<in> set (active A)" using Cons.prems by simp
  have "Inv (covered s A c) (acover A c)" using Cons.prems by (intro covered_Inv) simp_all
  then have "rightNode (covered_seq (covered s A c) (acover A c) cs) z = rightNode (covered s A c) z
     \<and> leftNode (covered_seq (covered s A c) (acover A c) cs) z = leftNode (covered s A c) z"
    using Cons.prems by (intro Cons.IH) auto
  then show ?case using covered_row_links[OF Cons.prems(1) c Cons.prems(4)] by simp
qed

lemma cover_row_columns_ok:
  assumes "Inv s A" and "y \<in> anodes A" and "aoth A y = pre @ xs"
    and "distinct (map (columnNode s) xs)" and "columnNode s ` set xs \<subseteq> set (active A)"
  shows "cover_row_columns s y (hd (xs @ [y])) = Some (covered_seq s A (map (columnNode s) xs))"
  using assms
proof (induction xs arbitrary: s A pre)
  case Nil
  then show ?case by (subst cover_row_columns.simps) simp
next
  case (Cons x xs)
  note inv = Cons.prems(1) and ya = Cons.prems(2)
  note st = InvD(1)[OF inv]
  let ?c = "columnNode s x"
  have c: "?c \<in> set (active A)" using Cons.prems(5) by simp
  have xo: "x \<in> set (aoth A y)" using Cons.prems(3) by simp
  have xa: "x \<in> anodes A" and xy: "x \<noteq> y" using aoth_sym(1,4)[OF st ya xo] by auto
  let ?s1 = "covered s A ?c"
  have inv1: "Inv ?s1 (acover A ?c)" using covered_Inv[OF inv c] .
  have "rightNode s x = hd (xs @ [y])"
    using dpath_mid[of "rightNode s" "leftNode s" y pre x xs y] static_okD(6)[OF st ya]
      Cons.prems(3) by simp
  then have nxt: "rightNode ?s1 x = hd (xs @ [y])"
    using covered_row_links(1)[OF inv c xa] by simp
  have act: "columnNode ?s1 ` set xs \<subseteq> set (active (acover A ?c))"
  proof
    fix z assume "z \<in> columnNode ?s1 ` set xs"
    then obtain x' where x': "x' \<in> set xs" "z = columnNode s x'" by auto
    have "?c \<notin> columnNode s ` set xs" using Cons.prems(4) by simp
    then have "z \<noteq> ?c" using x' by (metis imageI)
    then show "z \<in> set (active (acover A ?c))" using x' Cons.prems(5) by auto
  qed
  have "cover_row_columns ?s1 y (hd (xs @ [y]))
      = Some (covered_seq ?s1 (acover A ?c) (map (columnNode ?s1) xs))"
    using inv1 ya Cons.prems(3,4) act
    by (intro Cons.IH[of _ _ "pre @ [x]"]) simp_all
  then show ?case
    using xy nxt coverColumn_Some[OF inv c] by (subst cover_row_columns.simps) simp
qed

lemma uncover_row_columns_ok:
  assumes "Inv s A" and "y \<in> anodes A" and "aoth A y = xs @ post"
    and "distinct (map (columnNode s) xs)" and "columnNode s ` set xs \<subseteq> set (active A)"
    and "CURRENT_SOLUTION s \<noteq> []" and "last (CURRENT_SOLUTION s) = y"
  shows "uncover_row_columns (covered_seq s A (map (columnNode s) xs)) (last (y # xs)) = Some s"
  using assms(3-5)
proof (induction xs arbitrary: post rule: rev_induct)
  case Nil
  then show ?case using assms(6,7) by (subst uncover_row_columns.simps) simp
next
  case (snoc x xs)
  note inv = assms(1) and ya = assms(2)
  note st = InvD(1)[OF inv]
  let ?cs = "map (columnNode s) xs"
  let ?c = "columnNode s x"
  let ?s1 = "covered_seq s A ?cs"
  let ?A1 = "acover_seq A ?cs"
  have d: "distinct ?cs" "set ?cs \<subseteq> set (active A)" using snoc.prems(2,3) by auto
  have inv1: "Inv ?s1 ?A1" using covered_seq_Inv[OF inv d] .
  have c: "?c \<in> set (active ?A1)"
    using snoc.prems(2,3) by (auto simp: acover_seq_active)
  have xo: "x \<in> set (aoth A y)" using snoc.prems(1) by simp
  have xa: "x \<in> anodes A" and xy: "x \<noteq> y" using aoth_sym(1,4)[OF st ya xo] by auto
  have un: "uncoverColumn (covered ?s1 ?A1 ?c) ?c = Some ?s1"
    using uncoverColumn_covered[OF inv1 c] .
  have "leftNode s x = last (y # xs)"
    using dpath_mid[of "rightNode s" "leftNode s" y xs x post y] static_okD(6)[OF st ya]
      snoc.prems(1) by simp
  then have prv: "leftNode ?s1 x = last (y # xs)"
    using covered_seq_row_links[OF inv d xa] by simp
  have ih: "uncover_row_columns ?s1 (last (y # xs)) = Some s"
    using snoc.prems by (intro snoc.IH[of "x # post"]) auto
  show ?case
    using xy assms(6,7) un prv ih
    by (subst uncover_row_columns.simps) (simp add: covered_seq_snoc)
qed

lemma choose_column_fold:
  "npath (rightNode s) x xs (headNode s)
   \<Longrightarrow> choose_column s ch x = Some (fold (smaller s) xs ch)"
proof (induction xs arbitrary: ch x)
  case Nil
  then show ?case by (subst choose_column.simps) simp
next
  case (Cons a xs)
  then have 1: "x = a" "x \<noteq> headNode s" and 2: "npath (rightNode s) (rightNode s x) xs (headNode s)"
    by auto
  have "choose_column s ch x = choose_column s (smaller s x ch) (rightNode s x)"
    using 1 by (subst choose_column.simps) (simp add: smaller_def)
  also have "\<dots> = Some (fold (smaller s) xs (smaller s x ch))"
    using Cons.IH[OF 2] .
  finally show ?case using 1 by simp
qed

lemma fold_smaller_first_min:
  "\<exists>pre post. ch # xs = pre @ fold (smaller s) xs ch # post
     \<and> (\<forall>z \<in> set pre. columnSize s (fold (smaller s) xs ch) < columnSize s z)
     \<and> (\<forall>z \<in> set post. columnSize s (fold (smaller s) xs ch) \<le> columnSize s z)"
proof (induction xs rule: rev_induct)
  case Nil
  have "[ch] = [] @ ch # []" by simp
  then show ?case by (metis empty_iff empty_set fold_simps(1))
next
  case (snoc x xs)
  let ?r = "fold (smaller s) xs ch"
  from snoc obtain pre post where sp: "ch # xs = pre @ ?r # post"
    and lt: "\<forall>z \<in> set pre. columnSize s ?r < columnSize s z"
    and le: "\<forall>z \<in> set post. columnSize s ?r \<le> columnSize s z" by blast
  show ?case
  proof (cases "columnSize s x < columnSize s ?r")
    case True
    have r: "fold (smaller s) (xs @ [x]) ch = x" using True by (simp add: smaller_def)
    have "\<forall>z \<in> set (ch # xs). columnSize s x < columnSize s z"
      unfolding sp using lt le True by auto
    moreover have "ch # xs @ [x] = (ch # xs) @ x # []" by simp
    ultimately show ?thesis unfolding r by (metis empty_iff empty_set)
  next
    case False
    have r: "fold (smaller s) (xs @ [x]) ch = ?r" using False by (simp add: smaller_def)
    have "ch # xs @ [x] = pre @ ?r # (post @ [x])" using sp by simp
    moreover have "\<forall>z \<in> set (post @ [x]). columnSize s ?r \<le> columnSize s z"
      using le False by auto
    ultimately show ?thesis unfolding r using lt by blast
  qed
qed

lemma choose_column_ok:
  assumes inv: "Inv s A" and ne: "active A \<noteq> []"
  shows "\<exists>c pre post.
      choose_column s (rightNode s (headNode s)) (rightNode s (rightNode s (headNode s))) = Some c
      \<and> active A = pre @ c # post
      \<and> (\<forall>z \<in> set pre. columnSize s c < columnSize s z)
      \<and> (\<forall>z \<in> set post. columnSize s c \<le> columnSize s z)"
proof -
  note st = InvD(1)[OF inv] and rg = InvD(3)[OF inv]
  obtain c0 cs where ac: "active A = c0 # cs" using ne by (cases "active A") auto
  have d: "dpath (rightNode s) (leftNode s) (headNode s) (c0 # cs) (headNode s)"
    using ring_okD(1)[OF rg] ac by simp
  then have h: "rightNode s (headNode s) = c0"
    and d': "dpath (rightNode s) (leftNode s) c0 cs (headNode s)" by auto
  have "headNode s \<notin> set (active A)" using static_okD(2)[OF st] ring_okD(3)[OF rg] by blast
  then have "headNode s \<notin> set cs" using ac by simp
  then have "npath (rightNode s) (rightNode s c0) cs (headNode s)"
    using d' by (intro dpath_npath)
  then have "choose_column s c0 (rightNode s c0) = Some (fold (smaller s) cs c0)"
    by (rule choose_column_fold)
  then show ?thesis
    using fold_smaller_first_min[of c0 cs s] unfolding h ac by blast
qed

lemma ring_empty_iff:
  assumes inv: "Inv s A"
  shows "rightNode s (headNode s) = headNode s \<longleftrightarrow> active A = []"
proof -
  note st = InvD(1)[OF inv] and rg = InvD(3)[OF inv]
  have hn: "headNode s \<notin> set (active A)"
    using static_okD(2)[OF st] ring_okD(3)[OF rg] by blast
  have "rightNode s (headNode s) = hd (active A @ [headNode s])"
    using dpath_hd[OF ring_okD(1)[OF rg]] .
  then show ?thesis using hn by (cases "active A") auto
qed

lemma Inv_globals [simp]:
  "Inv (s\<lparr>CURRENT_SOLUTION := v\<rparr>) A = Inv s A"
  "Inv (s\<lparr>SUDOKU_SOLUTION := w\<rparr>) A = Inv s A"
  by (simp_all add: Inv_def static_ok_def vert_ok_def ring_ok_def rows_ok_def)

lemma row_cols_facts:
  assumes inv: "Inv s A" and c: "c \<in> set (active A)" and y: "y \<in> set (vl A c)"
  shows "y \<in> anodes A" and "columnNode s y = c" and "y \<noteq> c"
    and "distinct (c # row_cols s A y)" and "set (c # row_cols s A y) \<subseteq> set (active A)"
    and "set (row_cols s A y) \<subseteq> set (active (acover A c))"
proof -
  note st = InvD(1)[OF inv] and v = InvD(2)[OF inv] and rw = InvD(4)[OF inv]
  note cv = Inv_coverable[OF inv c]
  show ya: "y \<in> anodes A" and yc: "columnNode s y = c"
    using vert_okD(3)[OF v cv(3) y] by auto
  show "y \<noteq> c" using ya static_okD(4)[OF st cv(3)] by blast
  have inj: "inj_on (columnNode s) (set (aoth A y))"
  proof (rule inj_onI)
    fix x x' assume x: "x \<in> set (aoth A y)" "x' \<in> set (aoth A y)"
      and e: "columnNode s x = columnNode s x'"
    have "arow A x = arow A x'" using aoth_sym(3)[OF st ya] x by simp
    then show "x = x'"
      using static_okD(10)[OF st aoth_sym(1)[OF st ya x(1)] aoth_sym(1)[OF st ya x(2)]] e
      by simp
  qed
  have d: "distinct (row_cols s A y)"
    unfolding row_cols_def using inj static_okD(7)[OF st ya] by (simp add: distinct_map)
  have nc: "c \<notin> set (row_cols s A y)"
  proof
    assume "c \<in> set (row_cols s A y)"
    then obtain x where x: "x \<in> set (aoth A y)" "columnNode s x = c"
      unfolding row_cols_def by auto
    show False using aoth_sym(5)[OF st ya x(1)] x(2) yc by simp
  qed
  show "distinct (c # row_cols s A y)" using d nc by simp
  have act: "set (row_cols s A y) \<subseteq> set (active A)"
    unfolding row_cols_def using rw ya yc c y unfolding rows_ok_def by auto
  then show "set (c # row_cols s A y) \<subseteq> set (active A)" using c by simp
  show "set (row_cols s A y) \<subseteq> set (active (acover A c))" using act nc by auto
qed

lemma row_state_facts:
  assumes inv: "Inv s A" and c: "c \<in> set (active A)" and y: "y \<in> set (vl A c)"
  defines "s1 \<equiv> (covered s A c)\<lparr>CURRENT_SOLUTION := CURRENT_SOLUTION s @ [y]\<rparr>"
  shows "cover_row_columns s1 y (rightNode s1 y) = Some (row_state s A c y)"
    and "Inv (row_state s A c y) (row_abs s A c y)"
    and "uncover_row_columns (row_state s A c y) (leftNode (row_state s A c y) y) = Some s1"
    and "CURRENT_SOLUTION (row_state s A c y) = CURRENT_SOLUTION s @ [y]"
    and "columnNode (row_state s A c y) = columnNode s"
proof -
  note st = InvD(1)[OF inv]
  note rc = row_cols_facts[OF inv c y]
  let ?A1 = "acover A c"
  have inv1: "Inv s1 ?A1" using covered_Inv[OF inv c] by (simp add: s1_def)
  note st1 = InvD(1)[OF inv1]
  have ya1: "y \<in> anodes ?A1" using rc(1) by simp
  have cols: "map (columnNode s1) (aoth ?A1 y) = row_cols s A y"
    by (simp add: s1_def row_cols_def)
  have d: "distinct (map (columnNode s1) (aoth ?A1 y))" using rc(4) unfolding cols by simp
  have a: "columnNode s1 ` set (aoth ?A1 y) \<subseteq> set (active ?A1)"
    using rc(6) unfolding cols[symmetric] by simp
  have r: "rightNode s1 y = hd (aoth ?A1 y @ [y])"
    using dpath_hd[OF static_okD(6)[OF st1 ya1]] .
  have rs_eq: "row_state s A c y = covered_seq s1 ?A1 (row_cols s A y)"
    by (simp add: row_state_def s1_def)
  have step: "cover_row_columns s1 y (hd (aoth ?A1 y @ [y]))
      = Some (covered_seq s1 ?A1 (map (columnNode s1) (aoth ?A1 y)))"
    using cover_row_columns_ok[OF inv1 ya1 _ d a, of "[]"] by simp
  show "cover_row_columns s1 y (rightNode s1 y) = Some (row_state s A c y)"
    unfolding rs_eq r using step unfolding cols .
  show "Inv (row_state s A c y) (row_abs s A c y)"
    unfolding rs_eq row_abs_def
    using covered_seq_Inv[OF inv1 _ rc(6)] rc(4) by simp
  have l: "leftNode (row_state s A c y) y = last (y # aoth ?A1 y)"
  proof -
    have "leftNode (row_state s A c y) y = leftNode s1 y"
      unfolding rs_eq
      using covered_seq_row_links[OF inv1 _ rc(6) ya1] rc(4) by simp
    then show ?thesis using dpath_last[OF static_okD(6)[OF st1 ya1]] by simp
  qed
  have cs: "CURRENT_SOLUTION s1 \<noteq> []" "last (CURRENT_SOLUTION s1) = y" by (simp_all add: s1_def)
  have ustep: "uncover_row_columns (covered_seq s1 ?A1 (map (columnNode s1) (aoth ?A1 y)))
      (last (y # aoth ?A1 y)) = Some s1"
    using uncover_row_columns_ok[OF inv1 ya1 _ d a cs, of "[]"] by simp
  show "uncover_row_columns (row_state s A c y) (leftNode (row_state s A c y) y) = Some s1"
    unfolding l unfolding rs_eq using ustep unfolding cols .
  show "CURRENT_SOLUTION (row_state s A c y) = CURRENT_SOLUTION s @ [y]"
    "columnNode (row_state s A c y) = columnNode s"
    by (simp_all add: row_state_def)
qed

lemma search_rows_iter:
  assumes inv: "Inv s A" and c: "c \<in> set (active A)" and split: "vl A c = pre @ y # ys"
  shows "rec (row_state s A c y) = None \<Longrightarrow> search_rows rec (covered s A c) c y = None"
    and "rec (row_state s A c y) = Some (False, s3)
         \<Longrightarrow> search_rows rec (covered s A c) c y = Some (False, s3)"
    and "rec (row_state s A c y) = Some (True, row_state s A c y)
         \<Longrightarrow> search_rows rec (covered s A c) c y
             = search_rows rec (covered s A c) c (hd (ys @ [c]))"
proof -
  have y: "y \<in> set (vl A c)" using split by simp
  note rc = row_cols_facts[OF inv c y]
  note rs = row_state_facts[OF inv c y]
  note cv = Inv_coverable[OF inv c]
  let ?s1 = "covered s A c"
  have "lowerNode ?s1 y = lowerNode s y"
    using covered_column_links(1)[OF inv c, of y] y by simp
  also have "\<dots> = hd (ys @ [c])"
    using dpath_mid[of "lowerNode s" "upperNode s" c pre y ys c]
      vert_okD(1)[OF InvD(2)[OF inv] cv(3)] split by simp
  finally have nxt: "lowerNode ?s1 y = hd (ys @ [c])" .
  have pop: "?s1\<lparr>CURRENT_SOLUTION := CURRENT_SOLUTION s\<rparr> = ?s1"
    by (rule solver.equality) simp_all
  show "rec (row_state s A c y) = None \<Longrightarrow> search_rows rec ?s1 c y = None"
    using rc(3) rs(1) by (subst search_rows.simps) (simp add: Let_def)
  show "rec (row_state s A c y) = Some (False, s3)
         \<Longrightarrow> search_rows rec ?s1 c y = Some (False, s3)"
    using rc(3) rs(1) by (subst search_rows.simps) (simp add: Let_def)
  show "rec (row_state s A c y) = Some (True, row_state s A c y)
         \<Longrightarrow> search_rows rec ?s1 c y = search_rows rec ?s1 c (hd (ys @ [c]))"
    using rc(2,3) rs nxt by (subst search_rows.simps) (simp add: Let_def pop)
qed

lemma search_rows_done:
  assumes inv: "Inv s A" and c: "c \<in> set (active A)"
  shows "search_rows rec (covered s A c) c c = Some (True, s)"
  using uncoverColumn_covered[OF inv c] by (subst search_rows.simps) simp

lemma search_rows_restore:
  assumes inv: "Inv s A" and c: "c \<in> set (active A)" and split: "vl A c = pre @ ys"
    and rec_ok: "\<And>t B t'. Inv t B \<Longrightarrow> rec t = Some (True, t') \<Longrightarrow> t' = t"
    and res: "search_rows rec (covered s A c) c (hd (ys @ [c])) = Some (True, s')"
  shows "s' = s"
  using split res
proof (induction ys arbitrary: pre)
  case Nil
  then show ?case using search_rows_done[OF inv c, of rec] by simp
next
  case (Cons y ys)
  have y: "y \<in> set (vl A c)" using Cons.prems(1) by simp
  note it = search_rows_iter[OF inv c Cons.prems(1), of rec]
  note rs = row_state_facts[OF inv c y]
  have r: "search_rows rec (covered s A c) c y = Some (True, s')" using Cons.prems(2) by simp
  show ?case
  proof (cases "rec (row_state s A c y)")
    case None
    then show ?thesis using it(1) r by simp
  next
    case (Some p)
    obtain b s3 where p: "p = (b, s3)" by (cases p)
    show ?thesis
    proof (cases b)
      case False
      then show ?thesis using it(2)[of s3] Some p r by simp
    next
      case True
      then have "s3 = row_state s A c y" using rec_ok[OF rs(2)] Some p by simp
      then have "search_rows rec (covered s A c) c (hd (ys @ [c])) = Some (True, s')"
        using it(3) Some p True r by simp
      then show ?thesis using Cons.IH[of "pre @ [y]"] Cons.prems(1) by simp
    qed
  qed
qed

lemma search_rows_total:
  assumes inv: "Inv s A" and c: "c \<in> set (active A)" and split: "vl A c = pre @ ys"
    and rec_tot: "\<And>y. y \<in> set ys \<Longrightarrow>
        rec (row_state s A c y) = Some (True, row_state s A c y)
        \<or> (\<exists>t. rec (row_state s A c y) = Some (False, t))"
  shows "search_rows rec (covered s A c) c (hd (ys @ [c])) = Some (True, s)
     \<or> (\<exists>t. search_rows rec (covered s A c) c (hd (ys @ [c])) = Some (False, t))"
  using split rec_tot
proof (induction ys arbitrary: pre)
  case Nil
  then show ?case using search_rows_done[OF inv c, of rec] by simp
next
  case (Cons y ys)
  note it = search_rows_iter[OF inv c Cons.prems(1), of rec]
  from Cons.prems(2)[of y] consider
    (fail) "rec (row_state s A c y) = Some (True, row_state s A c y)"
    | (solved) t where "rec (row_state s A c y) = Some (False, t)" by auto
  then show ?case
  proof cases
    case fail
    have "search_rows rec (covered s A c) c (hd (ys @ [c])) = Some (True, s)
     \<or> (\<exists>t. search_rows rec (covered s A c) c (hd (ys @ [c])) = Some (False, t))"
      using Cons.prems by (intro Cons.IH[of "pre @ [y]"]) simp_all
    then show ?thesis using it(3)[OF fail] by simp
  next
    case solved
    then show ?thesis using it(2) by simp
  qed
qed

lemma search_first_column:
  assumes inv: "Inv s A" and ne: "active A \<noteq> []"
  shows "\<exists>c. c \<in> set (active A)
     \<and> search N (Suc d) s = search_rows (search N d) (covered s A c) c (hd (vl A c @ [c]))"
proof -
  from choose_column_ok[OF inv ne] obtain c pre post where
    ch: "choose_column s (rightNode s (headNode s))
           (rightNode s (rightNode s (headNode s))) = Some c"
    and ac: "active A = pre @ c # post" by blast
  have c: "c \<in> set (active A)" using ac by simp
  note cv = Inv_coverable[OF inv c]
  have "lowerNode (covered s A c) c = lowerNode s c"
    using covered_column_links(1)[OF inv c, of c] by simp
  also have "\<dots> = hd (vl A c @ [c])"
    using dpath_hd[OF vert_okD(1)[OF InvD(2)[OF inv] cv(3)]] .
  finally have low: "lowerNode (covered s A c) c = hd (vl A c @ [c])" .
  have "rightNode s (headNode s) \<noteq> headNode s" using ring_empty_iff[OF inv] ne by simp
  then have "search N (Suc d) s
      = search_rows (search N d) (covered s A c) c (hd (vl A c @ [c]))"
    using ch coverColumn_Some[OF inv c] low by simp
  then show ?thesis using c by blast
qed

lemma search_restore:
  "Inv s A \<Longrightarrow> search N d s = Some (True, s') \<Longrightarrow> s' = s"
proof (induction d arbitrary: s A s')
  case 0
  then show ?case by simp
next
  case (Suc d)
  show ?case
  proof (cases "active A = []")
    case True
    then have "rightNode s (headNode s) = headNode s" using ring_empty_iff[OF Suc.prems(1)] by simp
    then show ?thesis using Suc.prems(2) by simp
  next
    case False
    from search_first_column[OF Suc.prems(1) False, of N d] obtain c where
      c: "c \<in> set (active A)"
      and e: "search N (Suc d) s
        = search_rows (search N d) (covered s A c) c (hd (vl A c @ [c]))" by blast
    show ?thesis
      using Suc.prems(2) unfolding e
      by (intro search_rows_restore[OF Suc.prems(1) c, of "[]" "vl A c" "search N d"])
        (auto dest: Suc.IH)
  qed
qed

lemma length_filter_notin:
  assumes "distinct xs" and "distinct ys" and "set ys \<subseteq> set xs"
  shows "length (filter (\<lambda>z. z \<notin> set ys) xs) = length xs - length ys"
proof -
  have "distinct (filter (\<lambda>z. z \<notin> set ys) xs)" using assms(1) by simp
  then have "length (filter (\<lambda>z. z \<notin> set ys) xs) = card (set xs - set ys)"
    by (metis distinct_card set_diff_eq set_filter)
  also have "\<dots> = card (set xs) - card (set ys)"
    using assms(3) by (simp add: card_Diff_subset)
  finally show ?thesis using assms(1,2) by (simp add: distinct_card)
qed

lemma row_abs_static [simp]:
  "acols (row_abs s A c y) = acols A" "anodes (row_abs s A c y) = anodes A"
  "arow (row_abs s A c y) = arow A" "aoth (row_abs s A c y) = aoth A"
  by (simp_all add: row_abs_def)

lemma row_abs_active:
  "active (row_abs s A c y) = filter (\<lambda>z. z \<notin> set (c # row_cols s A y)) (active A)"
  by (simp add: row_abs_def acover_seq_active conj_commute)

lemma row_abs_length:
  assumes inv: "Inv s A" and c: "c \<in> set (active A)" and y: "y \<in> set (vl A c)"
  shows "length (active (row_abs s A c y)) = length (active A) - Suc (length (aoth A y))"
proof -
  note rc = row_cols_facts[OF inv c y]
  have "length (c # row_cols s A y) = Suc (length (aoth A y))" by (simp add: row_cols_def)
  then show ?thesis
    unfolding row_abs_active
    using length_filter_notin[OF ring_ok_distinct[OF InvD(1,3)[OF inv]] rc(4,5)] by simp
qed

lemma row_abs_length_ge:
  assumes inv: "Inv s A" and c: "c \<in> set (active A)" and y: "y \<in> set (vl A c)"
  shows "Suc (length (aoth A y)) \<le> length (active A)"
proof -
  note rc = row_cols_facts[OF inv c y]
  have "length (c # row_cols s A y) \<le> length (active A)"
    using rc(4,5) ring_ok_distinct[OF InvD(1,3)[OF inv]]
    by (metis card_mono distinct_card List.finite_set)
  then show ?thesis by (simp add: row_cols_def)
qed

lemma search_total:
  "Inv s A \<Longrightarrow> (\<forall>y \<in> anodes A. length (aoth A y) = k)
   \<Longrightarrow> length (active A) div Suc k < d
   \<Longrightarrow> search N d s = Some (True, s) \<or> (\<exists>t. search N d s = Some (False, t))"
proof (induction d arbitrary: s A)
  case 0
  then show ?case by simp
next
  case (Suc d)
  note inv = Suc.prems(1)
  show ?case
  proof (cases "active A = []")
    case True
    then have "rightNode s (headNode s) = headNode s" using ring_empty_iff[OF inv] by simp
    then show ?thesis by simp
  next
    case False
    from search_first_column[OF inv False, of N d] obtain c where
      c: "c \<in> set (active A)"
      and e: "search N (Suc d) s
        = search_rows (search N d) (covered s A c) c (hd (vl A c @ [c]))" by blast
    have rec: "search N d (row_state s A c y) = Some (True, row_state s A c y)
        \<or> (\<exists>t. search N d (row_state s A c y) = Some (False, t))"
      if y: "y \<in> set (vl A c)" for y
    proof -
      note rs = row_state_facts[OF inv c y]
      have ya: "y \<in> anodes A" using row_cols_facts(1)[OF inv c y] .
      have len: "length (aoth A y) = k" using Suc.prems(2) ya by simp
      have ge: "Suc k \<le> length (active A)" using row_abs_length_ge[OF inv c y] len by simp
      have "length (active (row_abs s A c y)) = length (active A) - Suc k"
        using row_abs_length[OF inv c y] len by simp
      moreover have "length (active A) div Suc k
          = Suc ((length (active A) - Suc k) div Suc k)"
        using ge by (intro le_div_geq) simp_all
      ultimately have "length (active (row_abs s A c y)) div Suc k < d"
        using Suc.prems(3) by simp
      then show ?thesis
        using Suc.prems(2) by (intro Suc.IH[OF rs(2)]) simp_all
    qed
    show ?thesis
      unfolding e
      by (rule search_rows_total[OF inv c, of "[]" "vl A c" "search N d"]) (simp_all add: rec)
  qed
qed

lemma search_rows_solved_aux:
  "search_rows rec s c y = Some r \<Longrightarrow> (\<forall>s'. r = (False, s') \<longrightarrow> (\<exists>t. rec t = Some (False, s')))"
proof (induction rule: search_rows.raw_induct[rotated 1, consumes 1])
  case (1 search_rows' rec s c y r)
  note IH = 1(1) and body = 1(2)
  show ?case
  proof (intro allI impI)
    fix s' assume r: "r = (False, s')"
    show "\<exists>t. rec t = Some (False, s')"
    proof (cases "y = c")
      case True
      then show ?thesis using body r by (auto simp: bind_eq_Some_conv)
    next
      case False
      let ?s1 = "s\<lparr>CURRENT_SOLUTION := CURRENT_SOLUTION s @ [y]\<rparr>"
      from body False obtain s2 b s3 where
        s2: "cover_row_columns ?s1 y (rightNode ?s1 y) = Some s2"
        and rc: "rec s2 = Some (b, s3)"
        and rest: "(if \<not> b then Some (False, s3)
          else if CURRENT_SOLUTION s3 = [] then None
          else let chosenColumn' = columnNode s3 (last (CURRENT_SOLUTION s3)) in
            Option.bind (uncover_row_columns s3 (leftNode s3 (last (CURRENT_SOLUTION s3))))
              (\<lambda>s4. if CURRENT_SOLUTION s4 = [] then None
                 else let s5 = s4\<lparr>CURRENT_SOLUTION := butlast (CURRENT_SOLUTION s4)\<rparr> in
                   search_rows' rec s5 chosenColumn' (lowerNode s5 y))) = Some r"
        by (auto simp: bind_eq_Some_conv Let_def split: prod.splits)
      show ?thesis
      proof (cases b)
        case False
        then have "rec s2 = Some (False, s')" using rest rc r by simp
        then show ?thesis by blast
      next
        case True
        then obtain s5 c' y' where "search_rows' rec s5 c' y' = Some r"
          using rest by (auto simp: bind_eq_Some_conv Let_def split: if_splits)
        then show ?thesis using IH r by blast
      qed
    qed
  qed
qed

lemma search_rows_solved:
  "search_rows rec s c y = Some (False, s') \<Longrightarrow> \<exists>t. rec t = Some (False, s')"
  using search_rows_solved_aux by blast

lemma store_solution_fields [simp]:
  "leftNode (store_solution N s) = leftNode s"
  "rightNode (store_solution N s) = rightNode s"
  "upperNode (store_solution N s) = upperNode s"
  "lowerNode (store_solution N s) = lowerNode s"
  "columnNode (store_solution N s) = columnNode s"
  "columnSize (store_solution N s) = columnSize s"
  "identifier' (store_solution N s) = identifier' s"
  "headNode (store_solution N s) = headNode s"
  "CURRENT_SOLUTION (store_solution N s) = CURRENT_SOLUTION s"
proof -
  have "\<And>xs. leftNode (fold (store_row N) xs s) = leftNode s
      \<and> rightNode (fold (store_row N) xs s) = rightNode s
      \<and> upperNode (fold (store_row N) xs s) = upperNode s
      \<and> lowerNode (fold (store_row N) xs s) = lowerNode s
      \<and> columnNode (fold (store_row N) xs s) = columnNode s
      \<and> columnSize (fold (store_row N) xs s) = columnSize s
      \<and> identifier' (fold (store_row N) xs s) = identifier' s
      \<and> headNode (fold (store_row N) xs s) = headNode s
      \<and> CURRENT_SOLUTION (fold (store_row N) xs s) = CURRENT_SOLUTION s"
  proof -
    fix xs show "?thesis xs"
      by (induction xs arbitrary: s) (auto simp: store_row_def split: prod.splits)
  qed
  then show "leftNode (store_solution N s) = leftNode s"
  "rightNode (store_solution N s) = rightNode s"
  "upperNode (store_solution N s) = upperNode s"
  "lowerNode (store_solution N s) = lowerNode s"
  "columnNode (store_solution N s) = columnNode s"
  "columnSize (store_solution N s) = columnSize s"
  "identifier' (store_solution N s) = identifier' s"
  "headNode (store_solution N s) = headNode s"
  "CURRENT_SOLUTION (store_solution N s) = CURRENT_SOLUTION s"
    by (simp_all add: store_solution_def)
qed

lemma search_solved:
  "search N d s = Some (False, s')
   \<Longrightarrow> \<exists>t. rightNode t (headNode t) = headNode t \<and> s' = store_solution N t"
proof (induction d arbitrary: s)
  case 0
  then show ?case by simp
next
  case (Suc d)
  show ?case
  proof (cases "rightNode s (headNode s) = headNode s")
    case True
    then show ?thesis using Suc.prems by auto
  next
    case False
    then obtain c s1 where "search_rows (search N d) s1 c (lowerNode s1 c) = Some (False, s')"
      using Suc.prems by (auto simp: bind_eq_Some_conv)
    then obtain t where "search N d t = Some (False, s')"
      using search_rows_solved by fastforce
    then show ?thesis using Suc.IH by blast
  qed
qed

subsection \<open>The example structures satisfy the invariant\<close>

lemma example_Inv: "Inv example_state example_abs"
proof -
  have "{x. (x = 3 \<or> x = 4) \<and> x \<noteq> (3::nat)} = {4}"
    "{x. (x = 3 \<or> x = 4) \<and> x \<noteq> (4::nat)} = {3}" by auto
  then show ?thesis
    by (simp add: Inv_def static_ok_def vert_ok_def ring_ok_def rows_ok_def
        example_state_def example_abs_def)
qed

lemma empty_column_Inv: "Inv empty_column_state empty_column_abs"
  by (simp add: Inv_def static_ok_def vert_ok_def ring_ok_def rows_ok_def
      empty_column_state_def empty_column_abs_def)

lemma search_no_rows:
  assumes inv: "Inv s A" and ne: "active A \<noteq> []" and em: "\<forall>c \<in> set (active A). vl A c = []"
  shows "search N (Suc d) s = Some (True, s)"
proof -
  from search_first_column[OF inv ne, of N d] obtain c where
    c: "c \<in> set (active A)"
    and e: "search N (Suc d) s
      = search_rows (search N d) (covered s A c) c (hd (vl A c @ [c]))" by blast
  have "vl A c = []" using em c by simp
  then show ?thesis unfolding e using search_rows_done[OF inv c] by simp
qed

lemma dpath_redirect_aux:
  assumes "dpath nxt prv a xs b" and "z \<notin> set (a # xs)" and "distinct (a # xs)"
    and "nxt' = nxt(last (a # xs) := z)" and "prv' = prv(z := last (a # xs))"
  shows "dpath nxt' prv' a xs z"
  using assms(1-3) assms(4,5)
proof (induction xs arbitrary: a)
  case Nil
  then show ?case by simp
next
  case (Cons x xs)
  have 1: "dpath nxt prv x xs b" and l: "nxt a = x" "prv x = a" using Cons.prems(1) by auto
  have p: "last (a # x # xs) = last (x # xs)" by simp
  have "last (x # xs) \<in> set (x # xs)" by (rule last_in_set) simp
  then have pa: "last (x # xs) \<noteq> a" using Cons.prems(3) by auto
  have ih: "dpath nxt' prv' x xs z"
    using Cons.prems by (intro Cons.IH[OF 1]) (auto simp: p)
  have "nxt' a = x" using l pa Cons.prems(4) by (simp add: p del: last.simps)
  moreover have "prv' x = a" using l Cons.prems(2,5) by (auto simp: p simp del: last.simps)
  ultimately show ?case using ih by simp
qed

lemma dpath_snoc_insert:
  assumes d: "dpath nxt prv a xs a" and z: "z \<notin> set (a # xs)" and dist: "distinct (a # xs)"
    and n: "nxt' = nxt(z := a, last (a # xs) := z)"
    and p: "prv' = prv(z := last (a # xs), a := z)"
  shows "dpath nxt' prv' a (xs @ [z]) a"
proof -
  have l: "last (a # xs) \<in> set (a # xs)" by (rule last_in_set) simp
  then have lz: "last (a # xs) \<noteq> z" using z by auto
  have 1: "dpath (nxt(last (a # xs) := z)) (prv(z := last (a # xs))) a xs z"
    using dpath_redirect_aux[OF d z dist refl refl] .
  have "dpath nxt' prv' a xs z = dpath (nxt(last (a # xs) := z)) (prv(z := last (a # xs))) a xs z"
  proof (rule dpath_cong)
    fix w assume "w \<in> set (a # xs)"
    then have "w \<noteq> z" using z by auto
    then show "nxt' w = (nxt(last (a # xs) := z)) w" unfolding n by (simp del: last.simps)
  next
    fix w assume "w \<in> set (xs @ [z])"
    then have "w \<noteq> a" using z dist by auto
    then show "prv' w = (prv(z := last (a # xs))) w" unfolding p by (simp del: last.simps)
  qed
  with 1 have 2: "dpath nxt' prv' a xs z" by simp
  have "nxt' z = a" unfolding n using lz by (simp del: last.simps)
  moreover have "prv' a = z" unfolding p by (simp del: last.simps)
  ultimately show ?thesis using 2 by (simp add: dpath_snoc)
qed

lemma dpath_rotate:
  assumes "dpath nxt prv (hd (as @ y # bs)) (tl (as @ y # bs)) (hd (as @ y # bs))"
  shows "dpath nxt prv y (bs @ as) y"
proof (cases as)
  case Nil
  then show ?thesis using assms by simp
next
  case (Cons a as')
  then have "dpath nxt prv a (as' @ y # bs) a" using assms by simp
  then have "dpath nxt prv a as' y" "dpath nxt prv y bs a" by (simp_all add: dpath_append)
  then show ?thesis unfolding Cons by (simp add: dpath_append)
qed

lemma new_column_fields:
  "new_column (s, free, c) = (s', free', c') \<Longrightarrow>
     free' = Suc free \<and> c' = free
     \<and> leftNode s' = (leftNode s)(free := c, headNode s := free)
     \<and> rightNode s' = (rightNode s)(free := headNode s, c := free)
     \<and> upperNode s' = (upperNode s)(free := free)
     \<and> lowerNode s' = (lowerNode s)(free := free)
     \<and> columnSize s' = (columnSize s)(free := 0)
     \<and> columnNode s' = columnNode s \<and> identifier' s' = identifier' s
     \<and> headNode s' = headNode s \<and> CURRENT_SOLUTION s' = CURRENT_SOLUTION s
     \<and> SUDOKU_SOLUTION s' = SUDOKU_SOLUTION s"
  by (auto simp: new_column_def Let_def)

lemma new_node_fields:
  "new_node ident (s, free, c, prev) = (s', free', prev') \<Longrightarrow>
     free' = Suc free \<and> prev' = Some free
     \<and> leftNode s' = (case prev of None \<Rightarrow> (leftNode s)(free := free)
                       | Some p \<Rightarrow> (leftNode s)(free := p, rightNode s p := free))
     \<and> rightNode s' = (case prev of None \<Rightarrow> (rightNode s)(free := free)
                       | Some p \<Rightarrow> (rightNode s)(free := rightNode s p, p := free))
     \<and> upperNode s' = (upperNode s)(free := upperNode s c, c := free)
     \<and> lowerNode s' = (lowerNode s)(free := c, upperNode s c := free)
     \<and> columnSize s' = (columnSize s)(c := columnSize s c + 1)
     \<and> columnNode s' = (columnNode s)(free := c)
     \<and> identifier' s' = (identifier' s)(free := ident)
     \<and> headNode s' = headNode s \<and> CURRENT_SOLUTION s' = CURRENT_SOLUTION s
     \<and> SUDOKU_SOLUTION s' = SUDOKU_SOLUTION s"
  by (cases prev) (auto simp: new_node_def Let_def)

lemma ainsert_simps [simp]:
  "acols (ainsert A rows z c i) = acols A" "active (ainsert A rows z c i) = active A"
  "anodes (ainsert A rows z c i) = insert z (anodes A)"
  "arow (ainsert A rows z c i) = (arow A)(z := i)"
  "vl (ainsert A rows z c i) = (vl A)(c := vl A c @ [z])"
  "aoth (ainsert A rows z c i) w = oth ((rows(i := rows i @ [z])) (((arow A)(z := i)) w)) w"
  by (simp_all add: ainsert_def)

lemma BInvD:
  assumes "BInv s A rows free K"
  shows "headNode s = 0" and "acols A = [1..<Suc K]" and "active A = [1..<Suc K]"
    and "Suc K \<le> free" and "anodes A = {Suc K..<free}"
    and "dpath (rightNode s) (leftNode s) 0 [1..<Suc K] 0"
    and "vert_ok s A"
    and "\<And>z. z \<in> anodes A \<Longrightarrow> z \<in> set (rows (arow A z)) \<and> columnNode s z \<in> {1..K}
            \<and> z \<in> set (vl A (columnNode s z))"
    and "\<And>z. aoth A z = oth (rows (arow A z)) z"
    and "\<And>r z. z \<in> set (rows r) \<Longrightarrow> z \<in> anodes A \<and> arow A z = r"
    and "\<And>r. distinct (map (columnNode s) (rows r))"
    and "\<And>r. rows r \<noteq> [] \<Longrightarrow>
           dpath (rightNode s) (leftNode s) (hd (rows r)) (tl (rows r)) (hd (rows r))"
  using assms unfolding BInv_def by blast+

lemma dpath_nxt_last: "dpath nxt prv a xs b \<Longrightarrow> nxt (last (a # xs)) = b"
  by (induction xs arbitrary: a) auto

lemma ring_last_hd:
  assumes "\<rho> \<noteq> []" and "dpath nxt prv (hd \<rho>) (tl \<rho>) (hd \<rho>)"
  shows "nxt (last \<rho>) = hd \<rho>" and "prv (hd \<rho>) = last \<rho>"
proof -
  obtain a xs where r: "\<rho> = a # xs" using assms(1) by (cases \<rho>) auto
  show "nxt (last \<rho>) = hd \<rho>" using dpath_nxt_last[of nxt prv a xs a] assms(2) unfolding r by simp
  show "prv (hd \<rho>) = last \<rho>" using dpath_last[of nxt prv a xs a] assms(2) unfolding r by simp
qed

lemma new_node_BInv:
  assumes B: "BInv s A rows free K" and c: "c \<in> {1..K}"
    and prev: "prev = (if rows i = [] then None else Some (last (rows i)))"
    and fresh: "c \<notin> columnNode s ` set (rows i)"
    and res: "new_node ident (s, free, c, prev) = (s', free', prev')"
  shows "BInv s' (ainsert A rows free c i) (rows(i := rows i @ [free])) (Suc free) K"
proof -
  note b = BInvD[OF B]
  note f = new_node_fields[OF res]
  let ?A' = "ainsert A rows free c i"
  let ?rows' = "rows(i := rows i @ [free])"
  have cA: "c \<in> set (acols A)" using c b(2) by auto
  have fn: "free \<notin> anodes A" "free \<notin> set (acols A)" "free \<noteq> 0" "free \<noteq> c"
    using b(2,4,5) c by auto
  have col_low: "\<And>w. w \<in> set (acols A) \<Longrightarrow> w \<le> K \<and> w \<notin> anodes A" using b(2,5) by auto
  have node_hi: "\<And>w. w \<in> anodes A \<Longrightarrow> Suc K \<le> w \<and> w \<noteq> free" using b(5) by auto
  note Vc = vert_okD[OF b(7) cA]
  have rows_nodes: "\<And>r w. w \<in> set (rows r) \<Longrightarrow> Suc K \<le> w \<and> w \<noteq> free \<and> arow A w = r"
    using b(10) node_hi by blast
  \<comment> \<open>the fields written in row i\<close>
  have hfields: "\<And>w. w \<le> K \<Longrightarrow> rightNode s' w = rightNode s w \<and> leftNode s' w = leftNode s w"
    and rfields: "\<And>w. Suc K \<le> w \<Longrightarrow> w \<noteq> free \<Longrightarrow> arow A w \<noteq> i
          \<Longrightarrow> w \<in> anodes A \<Longrightarrow> rightNode s' w = rightNode s w \<and> leftNode s' w = leftNode s w"
    and ring_i: "dpath (rightNode s') (leftNode s') (hd (rows i @ [free])) (tl (rows i @ [free]))
          (hd (rows i @ [free]))"
  proof -
    show "\<And>w. w \<le> K \<Longrightarrow> rightNode s' w = rightNode s w \<and> leftNode s' w = leftNode s w"
      and "\<And>w. Suc K \<le> w \<Longrightarrow> w \<noteq> free \<Longrightarrow> arow A w \<noteq> i
          \<Longrightarrow> w \<in> anodes A \<Longrightarrow> rightNode s' w = rightNode s w \<and> leftNode s' w = leftNode s w"
      and "dpath (rightNode s') (leftNode s') (hd (rows i @ [free])) (tl (rows i @ [free]))
          (hd (rows i @ [free]))"
    proof (atomize (full), cases "rows i = []")
      case True
      then have p: "prev = None" using prev by simp
      have R: "rightNode s' = (rightNode s)(free := free)"
        and L: "leftNode s' = (leftNode s)(free := free)" using f p by simp_all
      show "(\<forall>w. w \<le> K \<longrightarrow> rightNode s' w = rightNode s w \<and> leftNode s' w = leftNode s w) \<and>
        (\<forall>w. Suc K \<le> w \<longrightarrow> w \<noteq> free \<longrightarrow> arow A w \<noteq> i \<longrightarrow> w \<in> anodes A
           \<longrightarrow> rightNode s' w = rightNode s w \<and> leftNode s' w = leftNode s w) \<and>
        dpath (rightNode s') (leftNode s') (hd (rows i @ [free])) (tl (rows i @ [free]))
          (hd (rows i @ [free]))"
        using b(4) by (auto simp: R L True)
    next
      case False
      then obtain a xs where ax: "rows i = a # xs" by (cases "rows i") auto
      let ?p = "last (rows i)"
      have p: "prev = Some ?p" using prev False by simp
      have ring: "dpath (rightNode s) (leftNode s) a xs a" using b(12)[OF False] ax by simp
      have Rp: "rightNode s ?p = a" using ring_last_hd(1)[OF False b(12)[OF False]] ax by simp
      have R: "rightNode s' = (rightNode s)(free := a, last (a # xs) := free)"
        and L: "leftNode s' = (leftNode s)(free := last (a # xs), a := free)"
        using f p Rp ax by simp_all
      have pin: "?p \<in> set (rows i)" using False by simp
      have ain: "a \<in> set (rows i)" using ax by simp
      have "distinct (rows i)" using b(11)[of i] unfolding distinct_map by simp
      then have d: "distinct (a # xs)" unfolding ax .
      have z: "free \<notin> set (a # xs)" using rows_nodes[of _ i] ax by auto
      have 1: "dpath (rightNode s') (leftNode s') a (xs @ [free]) a"
        using dpath_snoc_insert[OF ring z d R L] .
      have 2: "\<And>w. w \<le> K \<Longrightarrow> rightNode s' w = rightNode s w \<and> leftNode s' w = leftNode s w"
        using rows_nodes[OF pin] rows_nodes[OF ain] b(4) ax unfolding R L
        by (auto simp del: last.simps)
      have 3: "\<And>w. Suc K \<le> w \<Longrightarrow> w \<noteq> free \<Longrightarrow> arow A w \<noteq> i
          \<Longrightarrow> w \<in> anodes A \<Longrightarrow> rightNode s' w = rightNode s w \<and> leftNode s' w = leftNode s w"
        using rows_nodes[OF pin] rows_nodes[OF ain] ax unfolding R L
        by (auto simp del: last.simps)
      show "(\<forall>w. w \<le> K \<longrightarrow> rightNode s' w = rightNode s w \<and> leftNode s' w = leftNode s w) \<and>
        (\<forall>w. Suc K \<le> w \<longrightarrow> w \<noteq> free \<longrightarrow> arow A w \<noteq> i \<longrightarrow> w \<in> anodes A
           \<longrightarrow> rightNode s' w = rightNode s w \<and> leftNode s' w = leftNode s w) \<and>
        dpath (rightNode s') (leftNode s') (hd (rows i @ [free])) (tl (rows i @ [free]))
          (hd (rows i @ [free]))"
        using 1 2 3 unfolding ax by simp
    qed
  qed
  \<comment> \<open>the column ring\<close>
  have ring: "dpath (rightNode s') (leftNode s') 0 [1..<Suc K] 0"
  proof -
    have "dpath (rightNode s') (leftNode s') 0 [1..<Suc K] 0
        = dpath (rightNode s) (leftNode s) 0 [1..<Suc K] 0"
      by (rule dpath_cong) (use hfields in auto)
    then show ?thesis using b(6) by simp
  qed
  \<comment> \<open>the vertical lists\<close>
  have U': "upperNode s' = (upperNode s)(free := last (c # vl A c), c := free)"
    and D': "lowerNode s' = (lowerNode s)(free := c, last (c # vl A c) := free)"
    using f dpath_last[OF Vc(1)] by simp_all
  have zc: "free \<notin> set (c # vl A c)" using fn Vc(3) by auto
  have dc: "distinct (c # vl A c)" using Vc(2,3) col_low[OF cA] by auto
  have lastc: "last (c # vl A c) \<in> set (c # vl A c)" by (rule last_in_set) simp
  have vert: "vert_ok s' ?A'"
    unfolding vert_ok_def
  proof (intro ballI)
    fix c' assume "c' \<in> set (acols ?A')"
    then have c'A: "c' \<in> set (acols A)" by simp
    note V = vert_okD[OF b(7) c'A]
    show "dpath (lowerNode s') (upperNode s') c' (vl ?A' c') c' \<and> distinct (vl ?A' c')
        \<and> set (vl ?A' c') \<subseteq> {y \<in> anodes ?A'. columnNode s' y = c'}
        \<and> columnSize s' c' = int (length (vl ?A' c'))"
    proof (cases "c' = c")
      case True
      have "dpath (lowerNode s') (upperNode s') c (vl A c @ [free]) c"
        using dpath_snoc_insert[OF Vc(1) zc dc D' U'] .
      moreover have "distinct (vl A c @ [free])" using dc zc by auto
      moreover have "set (vl A c @ [free]) \<subseteq> {y \<in> insert free (anodes A). columnNode s' y = c}"
        using Vc(3) node_hi f by auto
      moreover have "columnSize s' c = int (length (vl A c @ [free]))"
        using f Vc(4) by simp
      ultimately show ?thesis unfolding True by simp
    next
      case False
      have disj: "\<And>w. w \<in> set (c' # vl A c') \<Longrightarrow> w \<noteq> free \<and> w \<notin> set (c # vl A c)"
        using V(3) Vc(3) False fn col_low[OF cA] col_low[OF c'A] c'A by auto
      have "dpath (lowerNode s') (upperNode s') c' (vl A c') c'
          = dpath (lowerNode s) (upperNode s) c' (vl A c') c'"
      proof (rule dpath_cong)
        fix w assume "w \<in> set (c' # vl A c')"
        then show "lowerNode s' w = lowerNode s w"
          using disj[of w] lastc unfolding D' by (auto simp del: last.simps)
      next
        fix w assume "w \<in> set (vl A c' @ [c'])"
        then show "upperNode s' w = upperNode s w"
          using disj[of w] unfolding U' by (auto simp del: last.simps)
      qed
      moreover have "set (vl A c') \<subseteq> {y \<in> insert free (anodes A). columnNode s' y = c'}"
        using V(3) node_hi f by auto
      moreover have "columnSize s' c' = int (length (vl A c'))"
        using f V(4) False by simp
      ultimately show ?thesis using V(1,2) False by simp
    qed
  qed
  \<comment> \<open>membership\<close>
  have mem: "z \<in> set (?rows' (arow ?A' z)) \<and> columnNode s' z \<in> {1..K}
      \<and> z \<in> set (vl ?A' (columnNode s' z))" if "z \<in> anodes ?A'" for z
  proof (cases "z = free")
    case True
    then show ?thesis using f c by simp
  next
    case False
    then have za: "z \<in> anodes A" using that by simp
    show ?thesis using b(8)[OF za] False f by auto
  qed
  have rows': "set (?rows' r) \<subseteq> {z \<in> anodes ?A'. arow ?A' z = r}
      \<and> distinct (map (columnNode s') (?rows' r))
      \<and> (?rows' r \<noteq> [] \<longrightarrow>
          dpath (rightNode s') (leftNode s') (hd (?rows' r)) (tl (?rows' r)) (hd (?rows' r)))"
    for r
  proof (cases "r = i")
    case True
    have m: "map (columnNode s') (rows i) = map (columnNode s) (rows i)"
      using rows_nodes[of _ i] f by auto
    have cf: "columnNode s' free = c" using f by simp
    have "distinct (map (columnNode s') (rows i @ [free]))"
      unfolding map_append m using b(11)[of i] fresh cf by simp
    moreover have "set (rows i @ [free]) \<subseteq> {z \<in> insert free (anodes A). ((arow A)(free := i)) z = i}"
      using b(10)[of _ i] by auto
    ultimately show ?thesis using ring_i unfolding True by simp
  next
    case False
    have m: "map (columnNode s') (rows r) = map (columnNode s) (rows r)"
      using rows_nodes[of _ r] f by auto
    have sub: "set (rows r) \<subseteq> {z \<in> insert free (anodes A). ((arow A)(free := i)) z = r}"
      using b(10)[of _ r] rows_nodes[of _ r] by auto
    have "dpath (rightNode s') (leftNode s') (hd (rows r)) (tl (rows r)) (hd (rows r))"
      if ne: "rows r \<noteq> []"
    proof -
      have "dpath (rightNode s') (leftNode s') (hd (rows r)) (tl (rows r)) (hd (rows r))
          = dpath (rightNode s) (leftNode s) (hd (rows r)) (tl (rows r)) (hd (rows r))"
      proof (rule dpath_cong)
        fix w assume "w \<in> set (hd (rows r) # tl (rows r))"
        then have "w \<in> set (rows r)" using ne by (cases "rows r") auto
        then show "rightNode s' w = rightNode s w"
          using rfields[of w] rows_nodes[of w r] b(10)[of w r] False by simp
      next
        fix w assume "w \<in> set (tl (rows r) @ [hd (rows r)])"
        then have "w \<in> set (rows r)" using ne by (cases "rows r") auto
        then show "leftNode s' w = leftNode s w"
          using rfields[of w] rows_nodes[of w r] b(10)[of w r] False by simp
      qed
      then show ?thesis using b(12)[OF ne] by simp
    qed
    moreover have "distinct (map (columnNode s') (rows r))"
      unfolding m using b(11)[of r] .
    ultimately show ?thesis using sub False by simp
  qed
  have an: "anodes ?A' = {Suc K..<Suc free}" using b(4,5) by auto
  show ?thesis
    unfolding BInv_def
    using f b(1,2,3,4) an ring vert mem rows' by (simp del: upt_Suc)
qed

lemma last_upt_from_one: "last (0 # [1..<Suc k]) = k"
  by (induction k) simp_all

lemma columns_loop:
  "fold (\<lambda>i. new_column) [0..<Suc k] (s\<lparr>headNode := 0\<rparr>, Suc 0, 0) = (s1, free1, c1)
   \<Longrightarrow> free1 = Suc (Suc k) \<and> c1 = Suc k \<and> headNode s1 = 0
     \<and> dpath (rightNode s1) (leftNode s1) 0 [1..<Suc (Suc k)] 0
     \<and> (\<forall>c \<in> {1..Suc k}. upperNode s1 c = c \<and> lowerNode s1 c = c \<and> columnSize s1 c = 0)
     \<and> CURRENT_SOLUTION s1 = CURRENT_SOLUTION s \<and> SUDOKU_SOLUTION s1 = SUDOKU_SOLUTION s"
proof (induction k arbitrary: s1 free1 c1)
  case 0
  then have step: "new_column (s\<lparr>headNode := 0\<rparr>, Suc 0, 0) = (s1, free1, c1)" by simp
  note f = new_column_fields[OF step]
  have "rightNode s1 0 = Suc 0" "rightNode s1 (Suc 0) = 0" "leftNode s1 0 = Suc 0"
    "leftNode s1 (Suc 0) = 0" using f by simp_all
  then have d: "dpath (rightNode s1) (leftNode s1) 0 [1..<Suc (Suc 0)] 0" by simp
  have g: "free1 = Suc (Suc 0)" "c1 = Suc 0" "headNode s1 = 0"
    "CURRENT_SOLUTION s1 = CURRENT_SOLUTION s" "SUDOKU_SOLUTION s1 = SUDOKU_SOLUTION s"
    using f by simp_all
  have "\<forall>c \<in> {1..Suc 0}. upperNode s1 c = c \<and> lowerNode s1 c = c \<and> columnSize s1 c = 0"
    using f by auto
  then show ?case using d g by blast
next
  case (Suc k)
  obtain s0 f0 c0 where
    st: "fold (\<lambda>i. new_column) [0..<Suc k] (s\<lparr>headNode := 0\<rparr>, Suc 0, 0) = (s0, f0, c0)"
    by (metis prod_cases3)
  note ih = Suc.IH[OF st]
  have step: "new_column (s0, Suc (Suc k), Suc k) = (s1, free1, c1)"
    using Suc.prems st ih by simp
  note f = new_column_fields[OF step]
  have d0: "dpath (rightNode s0) (leftNode s0) 0 [1..<Suc (Suc k)] 0" using ih by simp
  have R: "rightNode s1
      = (rightNode s0)(Suc (Suc k) := 0, last (0 # [1..<Suc (Suc k)]) := Suc (Suc k))"
    and L: "leftNode s1
      = (leftNode s0)(Suc (Suc k) := last (0 # [1..<Suc (Suc k)]), 0 := Suc (Suc k))"
    unfolding last_upt_from_one using f ih by simp_all
  have e: "[1..<Suc (Suc (Suc k))] = [1..<Suc (Suc k)] @ [Suc (Suc k)]" by simp
  have d1: "dpath (rightNode s1) (leftNode s1) 0 [1..<Suc (Suc (Suc k))] 0"
    unfolding e by (rule dpath_snoc_insert[OF d0 _ _ R L]) auto
  have g: "free1 = Suc (Suc (Suc k))" "c1 = Suc (Suc k)" "headNode s1 = 0"
    "CURRENT_SOLUTION s1 = CURRENT_SOLUTION s" "SUDOKU_SOLUTION s1 = SUDOKU_SOLUTION s"
    using f ih by simp_all
  have "\<forall>c \<in> {1..Suc (Suc k)}. upperNode s1 c = c \<and> lowerNode s1 c = c \<and> columnSize s1 c = 0"
    using f ih by auto
  then show ?case using d1 g by blast
qed

lemma oth_Nil [simp]: "oth [] z = []"
  by (simp add: oth_def)

lemma columns_BInv:
  assumes "fold (\<lambda>i. new_column) [0..<K] (s\<lparr>headNode := 0\<rparr>, Suc 0, 0) = (s1, free1, c1)"
    and "0 < K"
  shows "BInv s1 (empty_abs K) (\<lambda>r. []) (Suc K) K" and "free1 = Suc K"
    and "CURRENT_SOLUTION s1 = CURRENT_SOLUTION s \<and> SUDOKU_SOLUTION s1 = SUDOKU_SOLUTION s"
proof -
  obtain k where K: "K = Suc k" using assms(2) by (cases K) auto
  note c = columns_loop[OF assms(1)[unfolded K], folded K]
  have v: "vert_ok s1 (empty_abs K)"
    using c by (auto simp: vert_ok_def empty_abs_def)
  show "BInv s1 (empty_abs K) (\<lambda>r. []) (Suc K) K"
    unfolding BInv_def using c v by (simp add: empty_abs_def del: upt_Suc)
  show "free1 = Suc K" using c by simp
  show "CURRENT_SOLUTION s1 = CURRENT_SOLUTION s \<and> SUDOKU_SOLUTION s1 = SUDOKU_SOLUTION s"
    using c by simp
qed

lemma upt_split_at:
  assumes "i \<le> c" and "c < j"
  shows "[i..<j] = [i..<c] @ c # [Suc c..<j]"
proof -
  have "[i..<c + (j - c)] = [i..<c] @ [c..<c + (j - c)]"
    using assms(1) by (rule upt_add_eq_append)
  then have "[i..<j] = [i..<c] @ [c..<j]" using assms by simp
  also have "[c..<j] = c # [Suc c..<j]" using assms(2) by (rule upt_conv_Cons)
  finally show ?thesis .
qed

lemma ring_next:
  assumes d: "dpath nxt prv 0 [1..<Suc K] 0" and c: "1 \<le> c" "c \<le> K"
  shows "nxt c = hd ([Suc c..<Suc K] @ [0])"
proof -
  have "[1..<Suc K] = [1..<c] @ c # [Suc c..<Suc K]"
    using c by (intro upt_split_at) simp_all
  then show ?thesis using dpath_mid[of nxt prv 0 "[1..<c]" c "[Suc c..<Suc K]" 0] d by simp
qed

lemma BuiltD:
  assumes "Built N E i j s A rows free"
  shows "BInv s A rows free (COLUMNS N)"
    and "\<And>r. map (columnNode s) (rows r)
            = map Suc (filter (E r) [0..<(if r < i then COLUMNS N else if r = i then j else 0)])"
    and "\<And>z. z \<in> anodes A \<Longrightarrow> identifier' s z = ident_of N (arow A z)"
    and "\<And>c. c < COLUMNS N \<Longrightarrow> map (arow A) (vl A (Suc c))
            = filter (\<lambda>r. E r c) [0..<i] @ (if c < j \<and> E i c then [i] else [])"
  using assms unfolding Built_def by blast+

lemma Built_next_row:
  assumes "Built N E i (COLUMNS N) s A rows free"
  shows "Built N E (Suc i) 0 s A rows free"
proof -
  note b = BuiltD[OF assms]
  have 1: "map (columnNode s) (rows r)
      = map Suc (filter (E r) [0..<(if r < Suc i then COLUMNS N else if r = Suc i then 0 else 0)])"
    for r using b(2)[of r] by (auto simp: less_Suc_eq)
  have 2: "map (arow A) (vl A (Suc c))
      = filter (\<lambda>r. E r c) [0..<Suc i] @ (if c < 0 \<and> E (Suc i) c then [Suc i] else [])"
    if "c < COLUMNS N" for c using b(4)[OF that] that by simp
  show ?thesis unfolding Built_def using b(1,3) 1 2 by simp
qed

lemma column_iter_Built:
  assumes B: "Built N E i j s A rows free" and j: "j < COLUMNS N"
    and prev: "prev = (if rows i = [] then None else Some (last (rows i)))"
    and res: "column_iter E (ident_of N i) i j (s, free, Suc j, prev) = (s', free', cn', prev')"
  shows "\<exists>A' rows'. Built N E i (Suc j) s' A' rows' free'
      \<and> prev' = (if rows' i = [] then None else Some (last (rows' i)))"
    and "cn' = hd ([Suc (Suc j)..<Suc (COLUMNS N)] @ [0])"
    and "CURRENT_SOLUTION s' = CURRENT_SOLUTION s \<and> SUDOKU_SOLUTION s' = SUDOKU_SOLUTION s"
proof -
  note b = BuiltD[OF B]
  note bi = BInvD[OF b(1)]
  let ?K = "COLUMNS N"
  have "(\<exists>A' rows'. Built N E i (Suc j) s' A' rows' free'
      \<and> prev' = (if rows' i = [] then None else Some (last (rows' i))))
    \<and> cn' = hd ([Suc (Suc j)..<Suc ?K] @ [0])
    \<and> CURRENT_SOLUTION s' = CURRENT_SOLUTION s \<and> SUDOKU_SOLUTION s' = SUDOKU_SOLUTION s"
  proof (cases "E i j")
    case False
    then have e: "s' = s" "free' = free" "prev' = prev" "cn' = rightNode s (Suc j)"
      using res by (auto simp: column_iter_def)
    have 1: "map (columnNode s) (rows r)
        = map Suc (filter (E r) [0..<(if r < i then ?K else if r = i then Suc j else 0)])"
      for r using b(2)[of r] False by auto
    have 2: "map (arow A) (vl A (Suc c))
        = filter (\<lambda>r. E r c) [0..<i] @ (if c < Suc j \<and> E i c then [i] else [])"
      if "c < ?K" for c using b(4)[OF that] False by (auto simp: less_Suc_eq)
    have "Built N E i (Suc j) s A rows free"
      unfolding Built_def using b(1,3) 1 2 by simp
    moreover have "rightNode s (Suc j) = hd ([Suc (Suc j)..<Suc ?K] @ [0])"
      using ring_next[OF bi(6), of "Suc j"] j by simp
    ultimately show ?thesis unfolding e using prev by blast
  next
    case True
    obtain s1 f1 p1 where nn: "new_node (ident_of N i) (s, free, Suc j, prev) = (s1, f1, p1)"
      by (metis prod_cases3)
    then have e: "s' = s1" "free' = f1" "prev' = p1" "cn' = rightNode s1 (Suc j)"
      using res True by (auto simp: column_iter_def)
    note f = new_node_fields[OF nn]
    have cin: "Suc j \<in> {1..?K}" using j by simp
    have fresh: "Suc j \<notin> columnNode s ` set (rows i)"
    proof -
      have "map (columnNode s) (rows i) = map Suc (filter (E i) [0..<j])"
        using b(2)[of i] by simp
      then have "set (map (columnNode s) (rows i)) = set (map Suc (filter (E i) [0..<j]))"
        by simp
      then have "columnNode s ` set (rows i) = Suc ` set (filter (E i) [0..<j])"
        by (simp only: set_map)
      then show ?thesis by auto
    qed
    let ?A' = "ainsert A rows free (Suc j) i"
    let ?rows' = "rows(i := rows i @ [free])"
    have B': "BInv s1 ?A' ?rows' (Suc free) ?K"
      using new_node_BInv[OF b(1) cin prev fresh nn] .
    note bi' = BInvD[OF B']
    have fn: "\<And>r w. w \<in> set (rows r) \<Longrightarrow> w \<noteq> free" using bi(10) bi(5) by fastforce
    have fv: "\<And>c w. c < ?K \<Longrightarrow> w \<in> set (vl A (Suc c)) \<Longrightarrow> w \<noteq> free"
    proof -
      fix c w assume cw: "c < ?K" "w \<in> set (vl A (Suc c))"
      have "Suc c \<in> set (acols A)" unfolding bi(2) using cw(1) by (simp del: upt_Suc)
      then have "w \<in> anodes A" using vert_okD(3)[OF bi(7) _ cw(2)] by simp
      then show "w \<noteq> free" using bi(5) by auto
    qed
    have C1: "columnNode s1 = (columnNode s)(free := Suc j)" using f by simp
    have 1: "map (columnNode s1) (?rows' r)
        = map Suc (filter (E r) [0..<(if r < i then ?K else if r = i then Suc j else 0)])"
      for r
    proof (cases "r = i")
      case True
      have "map (columnNode s1) (rows i) = map (columnNode s) (rows i)"
        unfolding C1 using fn[of _ i] by auto
      then show ?thesis using b(2)[of i] \<open>E i j\<close> unfolding True by (simp add: C1)
    next
      case False
      have "map (columnNode s1) (rows r) = map (columnNode s) (rows r)"
        unfolding C1 using fn[of _ r] by auto
      then show ?thesis using b(2)[of r] False by simp
    qed
    have 2: "identifier' s1 z = ident_of N (arow ?A' z)" if "z \<in> anodes ?A'" for z
      using that b(3)[of z] f by auto
    have 3: "map (arow ?A') (vl ?A' (Suc c))
        = filter (\<lambda>r. E r c) [0..<i] @ (if c < Suc j \<and> E i c then [i] else [])"
      if c: "c < ?K" for c
    proof -
      have m: "map (arow ?A') (vl A (Suc c)) = map (arow A) (vl A (Suc c))"
        using fv[OF c] by auto
      show ?thesis
      proof (cases "c = j")
        case True
        then show ?thesis using b(4)[OF c] m \<open>E i j\<close> by simp
      next
        case False
        then show ?thesis using b(4)[OF c] m by (auto simp: less_Suc_eq)
      qed
    qed
    have "Built N E i (Suc j) s1 ?A' ?rows' (Suc free)"
      unfolding Built_def using B' 1 2 3 by blast
    moreover have "p1 = (if ?rows' i = [] then None else Some (last (?rows' i)))"
      using f by simp
    moreover have "rightNode s1 (Suc j) = hd ([Suc (Suc j)..<Suc ?K] @ [0])"
      using ring_next[OF bi'(6), of "Suc j"] j by simp
    moreover have "f1 = Suc free" using f by simp
    ultimately show ?thesis unfolding e using f by blast
  qed
  then show "\<exists>A' rows'. Built N E i (Suc j) s' A' rows' free'
      \<and> prev' = (if rows' i = [] then None else Some (last (rows' i)))"
    and "cn' = hd ([Suc (Suc j)..<Suc (COLUMNS N)] @ [0])"
    and "CURRENT_SOLUTION s' = CURRENT_SOLUTION s \<and> SUDOKU_SOLUTION s' = SUDOKU_SOLUTION s"
    by blast+
qed

lemma Built_row_empty:
  assumes "Built N E i 0 s A rows free"
  shows "rows i = []"
  using BuiltD(2)[OF assms, of i] by simp

lemma columns_fold_Built:
  assumes B: "Built N E i 0 s A rows free" and j: "j \<le> COLUMNS N"
    and res: "fold (column_iter E (ident_of N i) i) [0..<j]
                (s, free, hd ([1..<Suc (COLUMNS N)] @ [0]), None) = (s', free', cn', prev')"
  shows "(\<exists>A' rows'. Built N E i j s' A' rows' free'
            \<and> prev' = (if rows' i = [] then None else Some (last (rows' i))))
      \<and> cn' = hd ([Suc j..<Suc (COLUMNS N)] @ [0])
      \<and> CURRENT_SOLUTION s' = CURRENT_SOLUTION s \<and> SUDOKU_SOLUTION s' = SUDOKU_SOLUTION s"
  using j res
proof (induction j arbitrary: s' free' cn' prev')
  case 0
  then show ?case using B Built_row_empty[OF B] by auto
next
  case (Suc j)
  obtain s0 f0 c0 p0 where
    st: "fold (column_iter E (ident_of N i) i) [0..<j]
           (s, free, hd ([1..<Suc (COLUMNS N)] @ [0]), None) = (s0, f0, c0, p0)"
    by (metis prod_cases4)
  have jl: "j \<le> COLUMNS N" "j < COLUMNS N" using Suc.prems(1) by simp_all
  from Suc.IH[OF jl(1) st] obtain A0 rows0 where
    B0: "Built N E i j s0 A0 rows0 f0"
    and p0: "p0 = (if rows0 i = [] then None else Some (last (rows0 i)))"
    and c0: "c0 = hd ([Suc j..<Suc (COLUMNS N)] @ [0])"
    and g0: "CURRENT_SOLUTION s0 = CURRENT_SOLUTION s \<and> SUDOKU_SOLUTION s0 = SUDOKU_SOLUTION s"
    by blast
  have c0': "c0 = Suc j" unfolding c0 using jl(2) by (simp add: upt_conv_Cons del: upt_Suc)
  have step: "column_iter E (ident_of N i) i j (s0, f0, Suc j, p0) = (s', free', cn', prev')"
    using Suc.prems(2) st c0' by simp
  show ?case
    using column_iter_Built[OF B0 jl(2) p0 step] g0 by simp
qed

lemma row_iter_Built:
  assumes B: "Built N E i 0 s A rows free" and K: "0 < COLUMNS N"
    and res: "row_iter N E i (s, free) = (s', free')"
  shows "(\<exists>A' rows'. Built N E (Suc i) 0 s' A' rows' free')
      \<and> CURRENT_SOLUTION s' = CURRENT_SOLUTION s \<and> SUDOKU_SOLUTION s' = SUDOKU_SOLUTION s"
proof -
  note bi = BInvD[OF BuiltD(1)[OF B]]
  obtain s1 f1 c1 p1 where
    st: "fold (column_iter E (ident_of N i) i) [0..<COLUMNS N]
           (s, free, rightNode s (headNode s), None) = (s1, f1, c1, p1)"
    by (metis prod_cases4)
  have e: "s' = s1" "free' = f1" using res st by (simp_all add: row_iter_def ident_of_def)
  have h: "rightNode s (headNode s) = hd ([1..<Suc (COLUMNS N)] @ [0])"
    using dpath_hd[OF bi(6)] bi(1) by simp
  from columns_fold_Built[OF B le_refl st[unfolded h]] obtain A' rows' where
    "Built N E i (COLUMNS N) s1 A' rows' f1"
    and g: "CURRENT_SOLUTION s1 = CURRENT_SOLUTION s \<and> SUDOKU_SOLUTION s1 = SUDOKU_SOLUTION s"
    by blast
  then show ?thesis unfolding e using Built_next_row by blast
qed

lemma rows_fold_Built:
  assumes B: "Built N E 0 0 s A rows free" and K: "0 < COLUMNS N"
    and res: "fold (row_iter N E) [0..<i] (s, free) = (s', free')"
  shows "(\<exists>A' rows'. Built N E i 0 s' A' rows' free')
      \<and> CURRENT_SOLUTION s' = CURRENT_SOLUTION s \<and> SUDOKU_SOLUTION s' = SUDOKU_SOLUTION s"
  using res
proof (induction i arbitrary: s' free')
  case 0
  then show ?case using B by auto
next
  case (Suc i)
  obtain s0 f0 where st: "fold (row_iter N E) [0..<i] (s, free) = (s0, f0)" by (metis prod.exhaust)
  from Suc.IH[OF st] obtain A0 rows0 where
    B0: "Built N E i 0 s0 A0 rows0 f0"
    and g0: "CURRENT_SOLUTION s0 = CURRENT_SOLUTION s \<and> SUDOKU_SOLUTION s0 = SUDOKU_SOLUTION s"
    by blast
  have step: "row_iter N E i (s0, f0) = (s', free')" using Suc.prems st by simp
  show ?case using row_iter_Built[OF B0 K step] g0 by simp
qed

lemma Built_initial:
  assumes "BInv s (empty_abs K) (\<lambda>r. []) (Suc K) K" and "K = COLUMNS N"
  shows "Built N E 0 0 s (empty_abs K) (\<lambda>r. []) (Suc K)"
  unfolding Built_def using assms by (simp add: empty_abs_def)

theorem initializeDoublyLinkedList_Built:
  assumes K: "0 < COLUMNS N"
  shows "\<exists>A rows free. Built N E (ROWS N) 0 (initializeDoublyLinkedList N E s) A rows free"
    and "CURRENT_SOLUTION (initializeDoublyLinkedList N E s) = CURRENT_SOLUTION s"
    and "SUDOKU_SOLUTION (initializeDoublyLinkedList N E s) = SUDOKU_SOLUTION s"
proof -
  obtain s1 f1 c1 where
    cols: "fold (\<lambda>i. new_column) [0..<COLUMNS N] (s\<lparr>headNode := 0\<rparr>, Suc 0, 0) = (s1, f1, c1)"
    by (metis prod_cases3)
  note cb = columns_BInv[OF cols K]
  have B0: "Built N E 0 0 s1 (empty_abs (COLUMNS N)) (\<lambda>r. []) f1"
    using Built_initial[OF cb(1) refl] cb(2) by simp
  obtain s2 f2 where rows: "fold (row_iter N E) [0..<ROWS N] (s1, f1) = (s2, f2)"
    by (metis prod.exhaust)
  have e: "initializeDoublyLinkedList N E s = s2"
    using cols rows by (simp add: initializeDoublyLinkedList_def Let_def)
  note r = rows_fold_Built[OF B0 K rows]
  show "\<exists>A rows free. Built N E (ROWS N) 0 (initializeDoublyLinkedList N E s) A rows free"
    unfolding e using r by blast
  show "CURRENT_SOLUTION (initializeDoublyLinkedList N E s) = CURRENT_SOLUTION s"
    "SUDOKU_SOLUTION (initializeDoublyLinkedList N E s) = SUDOKU_SOLUTION s"
    unfolding e using r cb(3) by simp_all
qed

lemma oth_split: "y \<notin> set as \<Longrightarrow> oth (as @ y # bs) y = bs @ as"
proof -
  assume y: "y \<notin> set as"
  have "dropWhile (\<lambda>z. z \<noteq> y) (as @ y # bs) = y # bs"
    using y by (induction as) auto
  moreover have "takeWhile (\<lambda>z. z \<noteq> y) (as @ y # bs) = as"
    using y by (induction as) auto
  ultimately show ?thesis by (simp add: oth_def)
qed

lemma BInv_rows_set:
  assumes B: "BInv s A rows free K"
  shows "set (rows r) = {z \<in> anodes A. arow A z = r}"
  using BInvD(8,10)[OF B] by blast

lemma BInv_oth:
  assumes B: "BInv s A rows free K" and y: "y \<in> anodes A"
  shows "\<exists>as bs. rows (arow A y) = as @ y # bs \<and> y \<notin> set as \<and> aoth A y = bs @ as"
proof -
  note b = BInvD[OF B]
  have "y \<in> set (rows (arow A y))" using b(8)[OF y] by simp
  then obtain as bs where sp: "rows (arow A y) = as @ y # bs" "y \<notin> set as"
    by (meson split_list_first)
  then show ?thesis using b(9)[of y] oth_split[OF sp(2), of bs] by auto
qed

lemma BInv_Inv:
  assumes B: "BInv s A rows free K"
  shows "Inv s A"
proof -
  note b = BInvD[OF B]
  have cols: "set (acols A) = {1..K}" unfolding b(2) by auto
  have st_row: "columnNode s y \<in> set (acols A)
      \<and> dpath (rightNode s) (leftNode s) y (aoth A y) y
      \<and> distinct (aoth A y) \<and> y \<notin> set (aoth A y)
      \<and> set (aoth A y) = {x \<in> anodes A. arow A x = arow A y \<and> x \<noteq> y}"
    if y: "y \<in> anodes A" for y
  proof -
    from BInv_oth[OF B y] obtain as bs where
      sp: "rows (arow A y) = as @ y # bs" "y \<notin> set as" "aoth A y = bs @ as" by blast
    have ne: "rows (arow A y) \<noteq> []" using sp by simp
    have d: "distinct (as @ y # bs)"
      using b(11)[of "arow A y"] unfolding distinct_map sp by simp
    have "dpath (rightNode s) (leftNode s) y (bs @ as) y"
      using dpath_rotate[of "rightNode s" "leftNode s" as y bs] b(12)[OF ne] unfolding sp
      by simp
    moreover have "set (bs @ as) = {x \<in> anodes A. arow A x = arow A y \<and> x \<noteq> y}"
      using BInv_rows_set[OF B, of "arow A y"] d unfolding sp by auto
    ultimately show ?thesis using d b(8)[OF y] cols unfolding sp(3) by auto
  qed
  have inj: "x = y" if "x \<in> anodes A" "y \<in> anodes A" "arow A x = arow A y"
    "columnNode s x = columnNode s y" for x y
  proof -
    have "x \<in> set (rows (arow A y))" "y \<in> set (rows (arow A y))"
      using b(8)[OF that(1)] b(8)[OF that(2)] that(3) by simp_all
    moreover have "inj_on (columnNode s) (set (rows (arow A y)))"
      using b(11)[of "arow A y"] unfolding distinct_map by simp
    ultimately show ?thesis using that(4) by (meson inj_onD)
  qed
  have 1: "static_ok s A"
    unfolding static_ok_def using b(1,4,5) cols st_row inj
    by (auto simp: b(2) simp del: upt_Suc)
  have 3: "ring_ok s A"
    unfolding ring_ok_def using b(1,6) by (simp add: b(2,3) del: upt_Suc)
  have 4: "rows_ok s A"
    unfolding rows_ok_def
  proof (intro ballI impI)
    fix y x assume y: "y \<in> anodes A" and x: "x \<in> set (aoth A y)"
    have xa: "x \<in> anodes A" using st_row[OF y] x by auto
    show "columnNode s x \<in> set (active A) \<and> x \<in> set (vl A (columnNode s x))"
      using b(8)[OF xa] unfolding b(3) by auto
  qed
  show ?thesis unfolding Inv_def using 1 b(7) 3 4 by simp
qed

lemma sorted_four_filter:
  assumes "a < b" "b < c" "c < d" "d < (K::nat)"
  shows "filter (\<lambda>j. j \<in> {a, b, c, d}) [0..<K] = [a, b, c, d]"
proof (rule sorted_distinct_set_unique)
  show "sorted (filter (\<lambda>j. j \<in> {a, b, c, d}) [0..<K])" by (simp add: sorted_wrt_filter)
  show "distinct (filter (\<lambda>j. j \<in> {a, b, c, d}) [0..<K])" by simp
  show "sorted [a, b, c, d]" using assms by simp
  show "distinct [a, b, c, d]" using assms by simp
  show "set (filter (\<lambda>j. j \<in> {a, b, c, d}) [0..<K]) = set [a, b, c, d]" using assms by auto
qed

lemma mult_add_less:
  fixes a b N M :: nat
  assumes "a < M" and "b < N"
  shows "a * N + b < M * N"
proof -
  have "a * N + b < a * N + N" using assms(2) by simp
  also have "\<dots> = Suc a * N" by simp
  also have "\<dots> \<le> M * N" using assms(1) by (intro mult_le_mono1) simp
  finally show ?thesis .
qed

lemma decode_bounds:
  assumes N: "N = s * s" and s: "0 < s" and r: "r < ROWS N"
  shows "candidate_of N r < N" and "row_of N r < N" and "column_of N r < N"
    and "box_of N r < N"
proof -
  have N0: "0 < N" using N s by simp
  show "candidate_of N r < N" using N0 by (simp add: candidate_of_def)
  show c: "column_of N r < N" using N0 by (simp add: column_of_def)
  have "r < N * (N * N)" using r by (simp add: ROWS_def mult.assoc)
  then have "r div (N * N) < N" using N0 by (simp add: less_mult_imp_div_less mult.commute)
  then show rw: "row_of N r < N" by (simp add: row_of_def SUDOKU_SIZE_SQUARED_def)
  have sq: "SUDOKU_SIZE_SQUARE_ROOT N = s" unfolding N by (rule sqrt_of_square)
  have "row_of N r div s < s" "column_of N r div s < s"
    using rw c N s by (simp_all add: less_mult_imp_div_less)
  then have "(row_of N r div s) * s + column_of N r div s < s * s" by (rule mult_add_less)
  then have "(row_of N r div s) * s + column_of N r div s < N" unfolding N[symmetric] .
  then show "box_of N r < N" unfolding box_of_def sq .
qed

lemma encode_decode:
  assumes "0 < N"
  shows "candidate_of N r + N * column_of N r + N * N * row_of N r = r"
proof -
  have "r = r mod N + N * (r div N)" by simp
  also have "r div N = (r div N) mod N + N * ((r div N) div N)" by simp
  also have "(r div N) div N = r div (N * N)" by (simp add: div_mult2_eq)
  finally have "r = r mod N + N * ((r div N) mod N + N * (r div (N * N)))" .
  then show ?thesis
    by (simp add: candidate_of_def column_of_def row_of_def SUDOKU_SIZE_SQUARED_def
        algebra_simps)
qed

lemma constraint_ranges:
  assumes N: "N = s * s" and s: "0 < s" and r: "r < ROWS N"
  shows "cell_constraint N r < N * N"
    and "N * N \<le> row_constraint N r \<and> row_constraint N r < 2 * (N * N)"
    and "2 * (N * N) \<le> column_constraint N r \<and> column_constraint N r < 3 * (N * N)"
    and "3 * (N * N) \<le> box_constraint N r \<and> box_constraint N r < COLUMNS N"
proof -
  note d = decode_bounds[OF N s r]
  show "cell_constraint N r < N * N"
    using mult_add_less[OF d(2) d(3)] by (simp add: cell_constraint_def)
  show "N * N \<le> row_constraint N r \<and> row_constraint N r < 2 * (N * N)"
    using mult_add_less[OF d(2) d(1)] by (simp add: row_constraint_def SUDOKU_SIZE_SQUARED_def)
  show "2 * (N * N) \<le> column_constraint N r \<and> column_constraint N r < 3 * (N * N)"
    using mult_add_less[OF d(3) d(1)]
    by (simp add: column_constraint_def SUDOKU_SIZE_SQUARED_def)
  show "3 * (N * N) \<le> box_constraint N r \<and> box_constraint N r < COLUMNS N"
    using mult_add_less[OF d(4) d(1)]
    by (simp add: box_constraint_def SUDOKU_SIZE_SQUARED_def COLUMNS_def)
qed

lemma sudoku_ecp_iff:
  "sudoku_ecp N r c \<longleftrightarrow> r < ROWS N \<and> c \<in> {cell_constraint N r, row_constraint N r,
      column_constraint N r, box_constraint N r}"
  by (simp add: sudoku_ecp_def initializeExactCoverProblem_apply)

lemma sudoku_row_columns:
  assumes N: "N = s * s" and s: "0 < s" and r: "r < ROWS N"
  shows "filter (sudoku_ecp N r) [0..<COLUMNS N]
     = [cell_constraint N r, row_constraint N r, column_constraint N r, box_constraint N r]"
proof -
  note c = constraint_ranges[OF N s r]
  have "sudoku_ecp N r = (\<lambda>j. j \<in> {cell_constraint N r, row_constraint N r,
      column_constraint N r, box_constraint N r})"
    using r by (auto simp: sudoku_ecp_iff fun_eq_iff)
  then show ?thesis using c by (simp only:) (rule sorted_four_filter, simp_all)
qed

lemma sudoku_row_empty:
  assumes "\<not> r < ROWS N"
  shows "filter (sudoku_ecp N r) [0..<K] = []"
  using assms by (simp add: sudoku_ecp_iff)

lemma two_digits_eq:
  fixes a b x y N :: nat
  assumes "x < N" and "y < N"
  shows "a * N + x = b * N + y \<longleftrightarrow> a = b \<and> x = y"
proof
  assume e: "a * N + x = b * N + y"
  have "(a * N + x) div N = a" "(a * N + x) mod N = x" using assms by simp_all
  moreover have "(b * N + y) div N = b" "(b * N + y) mod N = y" using assms by simp_all
  ultimately show "a = b \<and> x = y" using e by metis
next
  assume "a = b \<and> x = y" then show "a * N + x = b * N + y" by simp
qed

lemma enc_decode:
  assumes "v < N" "c < N" "r < N"
  shows "enc N v c r < ROWS N" and "candidate_of N (enc N v c r) = v"
    and "column_of N (enc N v c r) = c" and "row_of N (enc N v c r) = r"
  unfolding enc_def using assms
  by (simp_all add: encode_bound decode_candidate decode_column decode_row)

lemma enc_inj:
  assumes "v < N" "c < N" "r < N" "v' < N" "c' < N" "r' < N"
    and "enc N v c r = enc N v' c' r'"
  shows "v = v' \<and> c = c' \<and> r = r'"
  using enc_decode(2-4)[OF assms(1-3)] enc_decode(2-4)[OF assms(4-6)] assms(7) by simp

lemma enc_surj:
  assumes N: "N = s * s" and s: "0 < s" and r: "r < ROWS N"
  shows "r = enc N (candidate_of N r) (column_of N r) (row_of N r)"
proof -
  have "0 < N" using N s by simp
  then show ?thesis unfolding enc_def by (simp add: encode_decode)
qed

text \<open>The rows with given values of two of the three coordinates.\<close>

lemma count_rows_by_image:
  assumes N: "N = s * s" and s: "0 < s"
    and f: "\<And>t. t \<in> D \<Longrightarrow> f t < ROWS N \<and> P (f t)"
    and g: "\<And>r. r < ROWS N \<Longrightarrow> P r \<Longrightarrow> r \<in> f ` D"
    and inj: "inj_on f D" and card: "card D = n"
  shows "length (filter P [0..<ROWS N]) = n"
proof -
  have "set (filter P [0..<ROWS N]) = f ` D" using f g by auto
  then have "card (set (filter P [0..<ROWS N])) = n" using inj card by (simp add: card_image)
  moreover have "distinct (filter P [0..<ROWS N])" by simp
  ultimately show ?thesis by (metis distinct_card)
qed

lemma count_cell:
  assumes N: "N = s * s" and s: "0 < s" and a: "a < N" and b: "b < N"
  shows "length (filter (\<lambda>r. row_of N r = a \<and> column_of N r = b) [0..<ROWS N]) = N"
proof (rule count_rows_by_image[OF N s, where f = "\<lambda>v. enc N v b a" and D = "{0..<N}"])
  fix t assume "t \<in> {0..<N}"
  then show "enc N t b a < ROWS N \<and> row_of N (enc N t b a) = a \<and> column_of N (enc N t b a) = b"
    using enc_decode[of t N b a] a b by simp
next
  fix r assume r: "r < ROWS N" and "row_of N r = a \<and> column_of N r = b"
  then have "r = enc N (candidate_of N r) b a" using enc_surj[OF N s r] by simp
  then show "r \<in> (\<lambda>v. enc N v b a) ` {0..<N}" using decode_bounds(1)[OF N s r] by auto
next
  show "inj_on (\<lambda>v. enc N v b a) {0..<N}"
    by (rule inj_onI) (use enc_inj[of _ N b a _ b a] a b in auto)
  show "card {0..<N} = N" by simp
qed

lemma count_row_value:
  assumes N: "N = s * s" and s: "0 < s" and a: "a < N" and b: "b < N"
  shows "length (filter (\<lambda>r. row_of N r = a \<and> candidate_of N r = b) [0..<ROWS N]) = N"
proof (rule count_rows_by_image[OF N s, where f = "\<lambda>c. enc N b c a" and D = "{0..<N}"])
  fix t assume "t \<in> {0..<N}"
  then show "enc N b t a < ROWS N \<and> row_of N (enc N b t a) = a \<and> candidate_of N (enc N b t a) = b"
    using enc_decode[of b N t a] a b by simp
next
  fix r assume r: "r < ROWS N" and "row_of N r = a \<and> candidate_of N r = b"
  then have "r = enc N b (column_of N r) a" using enc_surj[OF N s r] by simp
  then show "r \<in> (\<lambda>c. enc N b c a) ` {0..<N}" using decode_bounds(3)[OF N s r] by auto
next
  show "inj_on (\<lambda>c. enc N b c a) {0..<N}"
    by (rule inj_onI) (use enc_inj[of b N _ a b _ a] a b in auto)
  show "card {0..<N} = N" by simp
qed

lemma count_column_value:
  assumes N: "N = s * s" and s: "0 < s" and a: "a < N" and b: "b < N"
  shows "length (filter (\<lambda>r. column_of N r = a \<and> candidate_of N r = b) [0..<ROWS N]) = N"
proof (rule count_rows_by_image[OF N s, where f = "\<lambda>r. enc N b a r" and D = "{0..<N}"])
  fix t assume "t \<in> {0..<N}"
  then show "enc N b a t < ROWS N \<and> column_of N (enc N b a t) = a
      \<and> candidate_of N (enc N b a t) = b"
    using enc_decode[of b N a t] a b by simp
next
  fix r assume r: "r < ROWS N" and "column_of N r = a \<and> candidate_of N r = b"
  then have "r = enc N b a (row_of N r)" using enc_surj[OF N s r] by simp
  then show "r \<in> (\<lambda>r. enc N b a r) ` {0..<N}" using decode_bounds(2)[OF N s r] by auto
next
  show "inj_on (\<lambda>r. enc N b a r) {0..<N}"
    by (rule inj_onI) (use enc_inj[of b N a _ b a _] a b in auto)
  show "card {0..<N} = N" by simp
qed

lemma div_block:
  fixes s q :: nat
  assumes "0 < s"
  shows "{r. r div s = q} = {q * s..<q * s + s}"
proof (intro set_eqI iffI)
  fix r assume "r \<in> {r. r div s = q}"
  then have q: "r div s = q" by simp
  have "r = (r div s) * s + r mod s" by simp
  moreover have "r mod s < s" using assms by simp
  ultimately have "q * s \<le> r" "r < q * s + s" unfolding q by linarith+
  then show "r \<in> {q * s..<q * s + s}" by simp
next
  fix r assume "r \<in> {q * s..<q * s + s}"
  then have "s * q \<le> r" "r < s * Suc q" by (simp_all add: mult.commute)
  then have "r div s = q" by (rule div_nat_eqI)
  then show "r \<in> {r. r div s = q}" by simp
qed

lemma count_box_value:
  assumes N: "N = s * s" and s: "0 < s" and a: "a < N" and b: "b < N"
  shows "length (filter (\<lambda>r. box_of N r = a \<and> candidate_of N r = b) [0..<ROWS N]) = N"
proof (rule count_rows_by_image[OF N s, where f = "\<lambda>(r, c). enc N b c r"
      and D = "{r. r div s = a div s} \<times> {c. c div s = a mod s}"])
  have sq: "SUDOKU_SIZE_SQUARE_ROOT N = s" unfolding N by (rule sqrt_of_square)
  have blk: "x < N" if "x div s = q" "q < s" for x q
  proof -
    have "x < q * s + s" using that(1) s div_block[OF s, of q] by auto
    also have "\<dots> = Suc q * s" by simp
    also have "\<dots> \<le> s * s" using that(2) by (intro mult_le_mono1) simp
    finally show ?thesis unfolding N .
  qed
  have qa: "a div s < s" "a mod s < s" using a N s by (simp_all add: less_mult_imp_div_less)
  have box_iff: "(r div s) * s + c div s = a \<longleftrightarrow> r div s = a div s \<and> c div s = a mod s"
    if "c < N" for r c
  proof -
    have cs: "c div s < s" using that N s by (simp add: less_mult_imp_div_less)
    have "a = (a div s) * s + a mod s" by simp
    then have "(r div s) * s + c div s = a
        \<longleftrightarrow> (r div s) * s + c div s = (a div s) * s + a mod s" by simp
    also have "\<dots> \<longleftrightarrow> r div s = a div s \<and> c div s = a mod s"
      using cs qa(2) by (rule two_digits_eq)
    finally show ?thesis .
  qed
  {
    fix t assume t: "t \<in> {r. r div s = a div s} \<times> {c. c div s = a mod s}"
    obtain r c where rc: "t = (r, c)" by (cases t)
    have r: "r div s = a div s" and c: "c div s = a mod s" using t rc by auto
    have rN: "r < N" "c < N" using blk[OF r qa(1)] blk[OF c qa(2)] by auto
    note e = enc_decode[OF b rN(2) rN(1)]
    have "box_of N (enc N b c r) = a"
      unfolding box_of_def sq e using box_iff[OF rN(2), of r] r c by simp
    then show "(case t of (r, c) \<Rightarrow> enc N b c r) < ROWS N
        \<and> box_of N (case t of (r, c) \<Rightarrow> enc N b c r) = a
        \<and> candidate_of N (case t of (r, c) \<Rightarrow> enc N b c r) = b"
      using e rc by simp
  next
    fix r assume r: "r < ROWS N" and p: "box_of N r = a \<and> candidate_of N r = b"
    note d = decode_bounds[OF N s r]
    have "(row_of N r div s) * s + column_of N r div s = a"
      using p unfolding box_of_def sq by simp
    then have "row_of N r div s = a div s \<and> column_of N r div s = a mod s"
      using box_iff[OF d(3)] by simp
    moreover have "r = enc N b (column_of N r) (row_of N r)" using enc_surj[OF N s r] p by simp
    ultimately show "r \<in> (\<lambda>(r, c). enc N b c r) `
        ({r. r div s = a div s} \<times> {c. c div s = a mod s})"
      by (metis (mono_tags, lifting) SigmaI case_prod_conv image_eqI mem_Collect_eq)
  next
    show "inj_on (\<lambda>(r, c). enc N b c r) ({r. r div s = a div s} \<times> {c. c div s = a mod s})"
    proof (rule inj_onI)
      fix t t' assume t: "t \<in> {r. r div s = a div s} \<times> {c. c div s = a mod s}"
        and t': "t' \<in> {r. r div s = a div s} \<times> {c. c div s = a mod s}"
        and e: "(case t of (r, c) \<Rightarrow> enc N b c r) = (case t' of (r, c) \<Rightarrow> enc N b c r)"
      obtain r c r' c' where rc: "t = (r, c)" "t' = (r', c')" by (cases t, cases t')
      have "r < N" "c < N" "r' < N" "c' < N"
        using t t' rc blk[OF _ qa(1)] blk[OF _ qa(2)] by auto
      then show "t = t'" using enc_inj[of b N c r b c' r'] b e rc by simp
    qed
    show "card ({r. r div s = a div s} \<times> {c. c div s = a mod s}) = N"
      unfolding div_block[OF s] card_cartesian_product N by simp
  }
qed

lemma sudoku_column_count:
  assumes N: "N = s * s" and s: "0 < s" and c: "c < COLUMNS N"
  shows "length (filter (\<lambda>r. sudoku_ecp N r c) [0..<ROWS N]) = N"
proof -
  have N0: "0 < N" using N s by simp
  define q where "q = c div (N * N)"
  define m where "m = c mod (N * N)"
  define a where "a = m div N"
  define b where "b = m mod N"
  have mN: "m < N * N" unfolding m_def using N0 by simp
  have a: "a < N" unfolding a_def using mN N0 by (simp add: less_mult_imp_div_less)
  have b: "b < N" unfolding b_def using N0 by simp
  have m: "m = a * N + b" unfolding a_def b_def by simp
  have cq: "c = q * (N * N) + m" unfolding q_def m_def by (rule div_mult_mod_eq[symmetric])
  have q4: "q < 4" unfolding q_def using c N0
    by (simp add: COLUMNS_def less_mult_imp_div_less mult.assoc)
  have cong: "filter (\<lambda>r. sudoku_ecp N r c) [0..<ROWS N] = filter P [0..<ROWS N]"
    if "\<And>r. r < ROWS N \<Longrightarrow> sudoku_ecp N r c = P r" for P
    by (rule filter_cong) (use that in auto)
  consider "q = 0" | "q = 1" | "q = 2" | "q = 3" using q4 by linarith
  then show ?thesis
  proof cases
    case 1
    have "sudoku_ecp N r c = (row_of N r = a \<and> column_of N r = b)" if r: "r < ROWS N" for r
    proof -
      note cr = constraint_ranges[OF N s r]
      note d = decode_bounds[OF N s r]
      have "sudoku_ecp N r c = (cell_constraint N r = c)"
        using r cr mN unfolding sudoku_ecp_iff cq 1 by auto
      also have "\<dots> = (row_of N r * N + column_of N r = a * N + b)"
        unfolding cq 1 m by (simp add: cell_constraint_def)
      also have "\<dots> = (row_of N r = a \<and> column_of N r = b)"
        using d(3) b by (rule two_digits_eq)
      finally show ?thesis .
    qed
    then show ?thesis using cong count_cell[OF N s a b] by simp
  next
    case 2
    have "sudoku_ecp N r c = (row_of N r = a \<and> candidate_of N r = b)" if r: "r < ROWS N" for r
    proof -
      note cr = constraint_ranges[OF N s r]
      note d = decode_bounds[OF N s r]
      have "sudoku_ecp N r c = (row_constraint N r = c)"
        using r cr mN unfolding sudoku_ecp_iff cq 2 by auto
      also have "\<dots> = (row_of N r * N + candidate_of N r = a * N + b)"
        unfolding cq 2 m by (auto simp add: row_constraint_def SUDOKU_SIZE_SQUARED_def)
      also have "\<dots> = (row_of N r = a \<and> candidate_of N r = b)"
        using d(1) b by (rule two_digits_eq)
      finally show ?thesis .
    qed
    then show ?thesis using cong count_row_value[OF N s a b] by simp
  next
    case 3
    have "sudoku_ecp N r c = (column_of N r = a \<and> candidate_of N r = b)" if r: "r < ROWS N" for r
    proof -
      note cr = constraint_ranges[OF N s r]
      note d = decode_bounds[OF N s r]
      have "sudoku_ecp N r c = (column_constraint N r = c)"
        using r cr mN unfolding sudoku_ecp_iff cq 3 by auto
      also have "\<dots> = (column_of N r * N + candidate_of N r = a * N + b)"
        unfolding cq 3 m by (auto simp add: column_constraint_def SUDOKU_SIZE_SQUARED_def)
      also have "\<dots> = (column_of N r = a \<and> candidate_of N r = b)"
        using d(1) b by (rule two_digits_eq)
      finally show ?thesis .
    qed
    then show ?thesis using cong count_column_value[OF N s a b] by simp
  next
    case 4
    have "sudoku_ecp N r c = (box_of N r = a \<and> candidate_of N r = b)" if r: "r < ROWS N" for r
    proof -
      note cr = constraint_ranges[OF N s r]
      note d = decode_bounds[OF N s r]
      have "sudoku_ecp N r c = (box_constraint N r = c)"
        using r cr mN unfolding sudoku_ecp_iff cq 4 by auto
      also have "\<dots> = (box_of N r * N + candidate_of N r = a * N + b)"
        unfolding cq 4 m by (auto simp add: box_constraint_def SUDOKU_SIZE_SQUARED_def)
      also have "\<dots> = (box_of N r = a \<and> candidate_of N r = b)"
        using d(1) b by (rule two_digits_eq)
      finally show ?thesis .
    qed
    then show ?thesis using cong count_box_value[OF N s a b] by simp
  qed
qed

lemma sudoku_build:
  assumes N: "N = s * s" and s: "0 < s"
  shows "\<exists>A rows. Sudoku_built N (built_state N mem) A rows"
proof -
  have K: "0 < COLUMNS N" using N s by (simp add: COLUMNS_def)
  from initializeDoublyLinkedList_Built(1)[OF K, of "sudoku_ecp N" mem] obtain A rows free
    where B: "Built N (sudoku_ecp N) (ROWS N) 0 (built_state N mem) A rows free"
    unfolding built_state_def by blast
  note b = BuiltD[OF B]
  have 1: "map (columnNode (built_state N mem)) (rows r)
      = [Suc (cell_constraint N r), Suc (row_constraint N r),
         Suc (column_constraint N r), Suc (box_constraint N r)]" if "r < ROWS N" for r
    using b(2)[of r] that sudoku_row_columns[OF N s that] by simp
  have 2: "rows r = []" if "\<not> r < ROWS N" for r
  proof -
    have "map (columnNode (built_state N mem)) (rows r) = []"
      using b(2)[of r] that sudoku_row_empty[OF that] by (simp split: if_splits)
    then show ?thesis by simp
  qed
  have 3: "map (arow A) (vl A (Suc c)) = filter (\<lambda>r. sudoku_ecp N r c) [0..<ROWS N]"
    if "c < COLUMNS N" for c using b(4)[OF that] by simp
  show ?thesis unfolding Sudoku_built_def using b(1,3) 1 2 3 by blast
qed

lemma Sudoku_builtD:
  assumes "Sudoku_built N st A rows"
  shows "\<exists>free. BInv st A rows free (COLUMNS N)"
    and "\<And>r. r < ROWS N \<Longrightarrow> map (columnNode st) (rows r)
           = [Suc (cell_constraint N r), Suc (row_constraint N r),
              Suc (column_constraint N r), Suc (box_constraint N r)]"
    and "\<And>r. \<not> r < ROWS N \<Longrightarrow> rows r = []"
    and "\<And>z. z \<in> anodes A \<Longrightarrow> identifier' st z = ident_of N (arow A z)"
    and "\<And>c. c < COLUMNS N \<Longrightarrow> map (arow A) (vl A (Suc c))
           = filter (\<lambda>r. sudoku_ecp N r c) [0..<ROWS N]"
  using assms unfolding Sudoku_built_def by blast+

lemma Sudoku_built_facts:
  assumes N: "N = s * s" and s: "0 < s" and sb: "Sudoku_built N st A rows"
  shows "Inv st A" and "headNode st = 0"
    and "acols A = [1..<Suc (COLUMNS N)]" and "active A = [1..<Suc (COLUMNS N)]"
    and "\<And>c. c \<in> set (active A) \<Longrightarrow> length (vl A c) = N \<and> columnSize st c = int N"
    and "\<And>z. z \<in> anodes A \<Longrightarrow> arow A z < ROWS N \<and> z \<in> set (rows (arow A z))"
    and "\<And>r. r < ROWS N \<Longrightarrow> length (rows r) = 4 \<and> set (rows r) = {z \<in> anodes A. arow A z = r}"
    and "\<And>y. y \<in> anodes A \<Longrightarrow> length (aoth A y) = 3"
proof -
  note d = Sudoku_builtD[OF sb]
  from d(1) obtain free where B: "BInv st A rows free (COLUMNS N)" by blast
  note b = BInvD[OF B]
  show inv: "Inv st A" using BInv_Inv[OF B] .
  show "headNode st = 0" "acols A = [1..<Suc (COLUMNS N)]" "active A = [1..<Suc (COLUMNS N)]"
    using b(1,2,3) by simp_all
  show "length (vl A c) = N \<and> columnSize st c = int N" if c: "c \<in> set (active A)" for c
  proof -
    have "0 < c \<and> c < Suc (COLUMNS N)" using c unfolding b(3) by (simp del: upt_Suc)
    then obtain c' where c': "c = Suc c'" "c' < COLUMNS N"
      using gr0_implies_Suc[of c] by auto
    have "length (map (arow A) (vl A (Suc c'))) = N"
      unfolding d(5)[OF c'(2)] using sudoku_column_count[OF N s c'(2)] .
    then have l: "length (vl A c) = N" unfolding c' by simp
    have "c \<in> set (acols A)" using c b(2,3) by simp
    then show ?thesis using l vert_okD(4)[OF b(7)] by simp
  qed
  show az: "arow A z < ROWS N \<and> z \<in> set (rows (arow A z))" if z: "z \<in> anodes A" for z
  proof -
    have m: "z \<in> set (rows (arow A z))" using b(8)[OF z] by simp
    then have "rows (arow A z) \<noteq> []" by auto
    then show ?thesis using d(3)[of "arow A z"] m by blast
  qed
  show rl: "length (rows r) = 4 \<and> set (rows r) = {z \<in> anodes A. arow A z = r}"
    if r: "r < ROWS N" for r
  proof -
    have "length (map (columnNode st) (rows r)) = 4" unfolding d(2)[OF r] by simp
    then show ?thesis using BInv_rows_set[OF B, of r] by simp
  qed
  show "length (aoth A y) = 3" if y: "y \<in> anodes A" for y
  proof -
    from BInv_oth[OF B y] obtain as bs where
      sp: "rows (arow A y) = as @ y # bs" "aoth A y = bs @ as" by blast
    have "length (rows (arow A y)) = 4" using rl az[OF y] by simp
    then show ?thesis unfolding sp by simp
  qed
qed

subsection \<open>The loops of updateDoublyLinkedList\<close>

lemma store_clue_fields [simp]:
  "leftNode (store_clue N input s y) = leftNode s"
  "rightNode (store_clue N input s y) = rightNode s"
  "upperNode (store_clue N input s y) = upperNode s"
  "lowerNode (store_clue N input s y) = lowerNode s"
  "columnNode (store_clue N input s y) = columnNode s"
  "columnSize (store_clue N input s y) = columnSize s"
  "identifier' (store_clue N input s y) = identifier' s"
  "headNode (store_clue N input s y) = headNode s"
  "CURRENT_SOLUTION (store_clue N input s y) = CURRENT_SOLUTION s"
  by (simp_all add: store_clue_def split: prod.splits)

lemma store_clue_Inv [simp]: "Inv (store_clue N input s y) A = Inv s A"
  by (simp add: store_clue_def split: prod.splits)

lemma in_grid_cong: "identifier' s' = identifier' s \<Longrightarrow> in_grid N s' = in_grid N s"
  by (simp add: in_grid_def fun_eq_iff)

lemma clue_matches_cong:
  "identifier' s' = identifier' s \<Longrightarrow> clue_matches input s' = clue_matches input s"
  by (simp add: clue_matches_def fun_eq_iff)

lemma update_rows_walk:
  "npath (lowerNode s) x ys z \<Longrightarrow> c \<notin> set ys
   \<Longrightarrow> (\<forall>y \<in> set ys. in_grid N s y \<and> \<not> clue_matches input s y)
   \<Longrightarrow> update_rows N input s c x = update_rows N input s c z"
proof (induction ys arbitrary: x)
  case Nil
  then show ?case by simp
next
  case (Cons y ys)
  then have x: "x = y" "x \<noteq> c" "in_grid N s x" "\<not> clue_matches input s x"
    and p: "npath (lowerNode s) (lowerNode s x) ys z" by auto
  have "update_rows N input s c x = update_rows N input s c (lowerNode s x)"
    using x by (subst update_rows.simps) simp
  also have "\<dots> = update_rows N input s c z" using Cons.IH[OF p] Cons.prems by simp
  finally show ?case .
qed

lemma update_rows_end: "update_rows N input s c c = Some s"
  by (subst update_rows.simps) simp

lemma column_npath:
  assumes inv: "Inv s A" and c: "c \<in> set (acols A)" and split: "vl A c = pre @ post"
  shows "npath (lowerNode s) (lowerNode s (last (c # pre))) post c" and "c \<notin> set (vl A c)"
proof -
  note st = InvD(1)[OF inv] and v = InvD(2)[OF inv]
  show n: "c \<notin> set (vl A c)" using vert_okD(3)[OF v c] static_okD(4)[OF st c] by blast
  have d: "dpath (lowerNode s) (upperNode s) c (pre @ post) c"
    using vert_okD(1)[OF v c] split by simp
  show "npath (lowerNode s) (lowerNode s (last (c # pre))) post c"
  proof (cases pre rule: rev_cases)
    case Nil
    then show ?thesis using dpath_npath[OF d] n split by simp
  next
    case (snoc pre' y)
    then have "dpath (lowerNode s) (upperNode s) y post c"
      using d by (simp add: dpath_append)
    then show ?thesis using dpath_npath[of "lowerNode s" "upperNode s" y post c] n split snoc
      by simp
  qed
qed

lemma update_rows_none_match:
  assumes inv: "Inv s A" and c: "c \<in> set (acols A)"
    and no: "\<forall>y \<in> set (vl A c). in_grid N s y \<and> \<not> clue_matches input s y"
  shows "update_rows N input s c (lowerNode s c) = Some s"
proof -
  note np = column_npath[OF inv c, of "[]" "vl A c"]
  have "update_rows N input s c (lowerNode s c) = update_rows N input s c c"
    using update_rows_walk[OF _ np(2) no, of "lowerNode s c" c] np(1) by simp
  then show ?thesis by (simp add: update_rows_end)
qed

lemma vl_acover_subset: "set (vl (acover A e) d) \<subseteq> set (vl A d)"
  by auto

lemma vl_acover_seq_subset: "set (vl (acover_seq A cs) d) \<subseteq> set (vl A d)"
proof (induction cs arbitrary: A)
  case Nil
  then show ?case by simp
next
  case (Cons e cs)
  have "set (vl (acover_seq (acover A e) cs) d) \<subseteq> set (vl (acover A e) d)" by (rule Cons.IH)
  then show ?case using vl_acover_subset[of A e d] by auto
qed

lemma acover_frozen:
  assumes inv: "Inv s A" and e: "e \<in> set (active A)"
    and c: "c \<in> set (acols A)" and n: "c \<notin> set (active A)"
  shows "vl (acover A e) c = vl A c"
proof -
  note st = InvD(1)[OF inv] and v = InvD(2)[OF inv] and rw = InvD(4)[OF inv]
  have ea: "e \<in> set (acols A)" using ring_okD(3)[OF InvD(3)[OF inv]] e by blast
  have "z \<notin> set (row_nodes A (vl A e))" if z: "z \<in> set (vl A c)" for z
  proof
    assume "z \<in> set (row_nodes A (vl A e))"
    then obtain w where w: "w \<in> set (vl A e)" "z \<in> set (aoth A w)"
      by (auto simp: in_row_nodes)
    have wa: "w \<in> anodes A" "columnNode s w = e" using vert_okD(3)[OF v ea w(1)] by auto
    have "columnNode s z \<in> set (active A)"
      using rw wa w e unfolding rows_ok_def by auto
    then show False using vert_okD(3)[OF v c z] n by simp
  qed
  then show ?thesis by (simp add: filter_id_conv)
qed

lemma acover_seq_frozen:
  "Inv s A \<Longrightarrow> distinct cs \<Longrightarrow> set cs \<subseteq> set (active A)
   \<Longrightarrow> c \<in> set (acols A) \<Longrightarrow> c \<notin> set (active A)
   \<Longrightarrow> vl (acover_seq A cs) c = vl A c"
proof (induction cs arbitrary: s A)
  case Nil
  then show ?case by simp
next
  case (Cons e cs)
  have e: "e \<in> set (active A)" using Cons.prems by simp
  have inv1: "Inv (covered s A e) (acover A e)" using covered_Inv[OF Cons.prems(1) e] .
  have "vl (acover_seq (acover A e) cs) c = vl (acover A e) c"
    using Cons.prems by (intro Cons.IH[OF inv1]) auto
  then show ?case using acover_frozen[OF Cons.prems(1) e Cons.prems(4,5)] by simp
qed

lemma ring_sorted:
  assumes inv: "Inv s A" and srt: "sorted (acols A)" and c: "c \<in> set (active A)"
  shows "leftNode s c = headNode s \<or> (leftNode s c \<in> set (active A) \<and> leftNode s c < c)"
    and "rightNode s c = headNode s \<or> (rightNode s c \<in> set (active A) \<and> c < rightNode s c)"
proof -
  note st = InvD(1)[OF inv] and rg = InvD(3)[OF inv]
  from ring_neighbours(5)[OF inv c] obtain as bs where sp: "active A = as @ c # bs" by blast
  have "sorted (filter (\<lambda>c. c \<in> set (active A)) (acols A))" using srt by (rule sorted_wrt_filter)
  then have so: "sorted (as @ c # bs)" using ring_okD(2)[OF rg] sp by simp
  have di: "distinct (as @ c # bs)" using ring_ok_distinct[OF st rg] sp by simp
  have m: "leftNode s c = last (headNode s # as)" "rightNode s c = hd (bs @ [headNode s])"
    using dpath_mid[of "rightNode s" "leftNode s" "headNode s" as c bs "headNode s"]
      ring_okD(1)[OF rg] sp by simp_all
  show "leftNode s c = headNode s \<or> (leftNode s c \<in> set (active A) \<and> leftNode s c < c)"
  proof (cases as rule: rev_cases)
    case Nil
    then show ?thesis using m by simp
  next
    case (snoc as' a)
    have "a \<le> c" using so unfolding snoc by (simp add: sorted_append)
    moreover have "a \<noteq> c" using di unfolding snoc by simp
    ultimately show ?thesis using m sp snoc by simp
  qed
  show "rightNode s c = headNode s \<or> (rightNode s c \<in> set (active A) \<and> c < rightNode s c)"
  proof (cases bs)
    case Nil
    then show ?thesis using m by simp
  next
    case (Cons b bs')
    have "c \<le> b" using so unfolding Cons by (simp add: sorted_append)
    moreover have "b \<noteq> c" using di unfolding Cons by auto
    ultimately show ?thesis using m sp Cons by simp
  qed
qed

lemma covered_rightNode:
  "rightNode (covered s A e) = (rightNode s)(leftNode s e := rightNode s e)"
  by (simp add: covered_def)

lemma walk_ok_active:
  assumes "Inv s A" and "sorted (acols A)"
  shows "walk_ok s (set (active A))"
  unfolding walk_ok_def using ring_sorted(2)[OF assms] by blast

lemma walk_ok_covered:
  assumes inv: "Inv s A" and srt: "sorted (acols A)" and e: "e \<in> set (active A)"
    and S: "set (active A) \<subseteq> S" and h: "headNode s \<notin> S" and w: "walk_ok s S"
  shows "walk_ok (covered s A e) S"
  unfolding walk_ok_def
proof
  fix d assume d: "d \<in> S"
  note rs = ring_sorted[OF inv srt e]
  show "rightNode (covered s A e) d = headNode (covered s A e)
      \<or> (rightNode (covered s A e) d \<in> S \<and> d < rightNode (covered s A e) d)"
  proof (cases "d = leftNode s e")
    case True
    then have "leftNode s e \<noteq> headNode s" using d h by auto
    then have "d < e" using rs(1) True by simp
    then show ?thesis using rs(2) S True by (auto simp: covered_rightNode)
  next
    case False
    then show ?thesis using w d unfolding walk_ok_def by (simp add: covered_rightNode)
  qed
qed

lemma walk_ok_covered_seq:
  "Inv s A \<Longrightarrow> sorted (acols A) \<Longrightarrow> distinct cs \<Longrightarrow> set cs \<subseteq> set (active A)
   \<Longrightarrow> set (active A) \<subseteq> S \<Longrightarrow> headNode s \<notin> S \<Longrightarrow> walk_ok s S
   \<Longrightarrow> walk_ok (covered_seq s A cs) S"
proof (induction cs arbitrary: s A)
  case Nil
  then show ?case by simp
next
  case (Cons e cs)
  have e: "e \<in> set (active A)" using Cons.prems by simp
  have inv1: "Inv (covered s A e) (acover A e)" using covered_Inv[OF Cons.prems(1) e] .
  have w1: "walk_ok (covered s A e) S"
    using walk_ok_covered[OF Cons.prems(1,2) e Cons.prems(5,6,7)] .
  have "walk_ok (covered_seq (covered s A e) (acover A e) cs) S"
    using Cons.prems w1 by (intro Cons.IH[OF inv1]) auto
  then show ?case by simp
qed

lemma walk_ok_above: "walk_ok s S \<Longrightarrow> walk_ok s {d \<in> S. c < d}"
  unfolding walk_ok_def by auto

lemma covered_right_inactive:
  assumes inv: "Inv s A" and e: "e \<in> set (active A)"
    and d: "d \<notin> set (active A) - {e}" and h: "d \<noteq> headNode s"
  shows "rightNode (covered s A e) d = rightNode s d"
proof -
  note rg = InvD(3)[OF inv] and st = InvD(1)[OF inv]
  from ring_neighbours(5)[OF inv e] obtain as bs where sp: "active A = as @ e # bs" by blast
  have di: "distinct (as @ e # bs)" using ring_ok_distinct[OF st rg] sp by simp
  have m: "leftNode s e = last (headNode s # as)"
    using dpath_mid[of "rightNode s" "leftNode s" "headNode s" as e bs "headNode s"]
      ring_okD(1)[OF rg] sp by simp
  have "leftNode s e \<noteq> d"
  proof (cases as rule: rev_cases)
    case Nil
    then show ?thesis using m h by simp
  next
    case (snoc as' a)
    then have "leftNode s e = a" "a \<in> set (active A)" "a \<noteq> e" using m sp di by auto
    then show ?thesis using d by auto
  qed
  then show ?thesis by (simp add: covered_rightNode)
qed

lemma covered_seq_right_inactive:
  "Inv s A \<Longrightarrow> distinct cs \<Longrightarrow> set cs \<subseteq> set (active A)
   \<Longrightarrow> d \<notin> set (active A) - set (take 1 cs) \<Longrightarrow> d \<noteq> headNode s
   \<Longrightarrow> rightNode (covered_seq s A cs) d = rightNode s d"
proof (induction cs arbitrary: s A)
  case Nil
  then show ?case by simp
next
  case (Cons e cs)
  have e: "e \<in> set (active A)" using Cons.prems by simp
  have inv1: "Inv (covered s A e) (acover A e)" using covered_Inv[OF Cons.prems(1) e] .
  have d: "d \<notin> set (active A) - {e}" using Cons.prems(4) by simp
  have "rightNode (covered_seq (covered s A e) (acover A e) cs) d = rightNode (covered s A e) d"
    using Cons.prems d by (intro Cons.IH[OF inv1]) auto
  then show ?case using covered_right_inactive[OF Cons.prems(1) e d Cons.prems(5)] by simp
qed

lemma update_rows_one_match:
  assumes inv: "Inv s A" and c: "c \<in> set (active A)" and split: "vl A c = pre @ y # post"
    and grid: "\<forall>z \<in> set (vl A c). in_grid N s z"
    and m: "clue_matches input s y"
    and no: "\<forall>z \<in> set (pre @ post). \<not> clue_matches input s z"
  shows "update_rows N input s c (lowerNode s c)
      = Some (covered_seq (store_clue N input s y) A (c # row_cols s A y))"
proof -
  note st = InvD(1)[OF inv]
  let ?s0 = "store_clue N input s y"
  let ?A1 = "acover A c"
  let ?s1 = "covered ?s0 A c"
  let ?s2 = "covered_seq ?s1 ?A1 (row_cols s A y)"
  let ?A2 = "acover_seq ?A1 (row_cols s A y)"
  have inv0: "Inv ?s0 A" using inv by simp
  have yv: "y \<in> set (vl A c)" using split by simp
  note rc = row_cols_facts[OF inv c yv]
  note cv = Inv_coverable[OF inv c]
  have dv: "distinct (pre @ y # post)" using vert_okD(2)[OF InvD(2)[OF inv] cv(3)] split by simp
  have cn: "c \<notin> set (pre @ y # post)" using column_npath(2)[OF inv cv(3), of "[]" "vl A c"] split by simp
  \<comment> \<open>the nodes above the match\<close>
  have np: "npath (lowerNode s) (lowerNode s c) pre y"
  proof -
    have "dpath (lowerNode s) (upperNode s) c pre y"
      using vert_okD(1)[OF InvD(2)[OF inv] cv(3)] split by (simp add: dpath_append)
    then show ?thesis using dpath_npath[of "lowerNode s" "upperNode s" c pre y] dv by simp
  qed
  have 1: "update_rows N input s c (lowerNode s c) = update_rows N input s c y"
    using update_rows_walk[OF np, of c N input] cn grid no split by simp
  \<comment> \<open>the covers\<close>
  have inv1: "Inv ?s1 ?A1" using covered_Inv[OF inv0 c] .
  note st1 = InvD(1)[OF inv1]
  have ya1: "y \<in> anodes ?A1" using rc(1) by simp
  have cols: "map (columnNode ?s1) (aoth ?A1 y) = row_cols s A y"
    by (simp add: row_cols_def)
  have d: "distinct (map (columnNode ?s1) (aoth ?A1 y))" using rc(4) unfolding cols by simp
  have a: "columnNode ?s1 ` set (aoth ?A1 y) \<subseteq> set (active ?A1)"
    using rc(6) unfolding cols[symmetric] by simp
  have r: "rightNode ?s1 y = hd (aoth ?A1 y @ [y])"
    using dpath_hd[OF static_okD(6)[OF st1 ya1]] .
  have "cover_row_columns ?s1 y (hd (aoth ?A1 y @ [y]))
      = Some (covered_seq ?s1 ?A1 (map (columnNode ?s1) (aoth ?A1 y)))"
    using cover_row_columns_ok[OF inv1 ya1 _ d a, of "[]"] by simp
  then have cr: "cover_row_columns ?s1 y (rightNode ?s1 y) = Some ?s2"
    unfolding r cols .
  have cc: "coverColumn ?s0 c = Some ?s1" using coverColumn_Some[OF inv0 c] .
  have 2: "update_rows N input s c y = update_rows N input ?s2 c (lowerNode ?s2 y)"
    using rc(3) grid yv m cc cr by (subst update_rows.simps) simp
  \<comment> \<open>the nodes below the match, in the column as the covers have left it\<close>
  have inv2: "Inv ?s2 ?A2" using covered_seq_Inv[OF inv1 _ rc(6)] rc(4) by simp
  have ca2: "c \<in> set (acols ?A2)" using cv(3) by simp
  have "vl ?A2 c = vl ?A1 c"
    using acover_seq_frozen[OF inv1 _ rc(6), of c] rc(4) cv(3)
      ring_ok_distinct[OF InvD(1,3)[OF inv]] by simp
  then have v2: "vl ?A2 c = (pre @ [y]) @ post"
    using acover_vl_self[OF inv c] split by simp
  have np2: "npath (lowerNode ?s2) (lowerNode ?s2 y) post c"
    using column_npath(1)[OF inv2 ca2 v2] by simp
  have id2: "identifier' ?s2 = identifier' s" by simp
  have "update_rows N input ?s2 c (lowerNode ?s2 y) = update_rows N input ?s2 c c"
    using update_rows_walk[OF np2, of c N input] cn grid no split
    unfolding in_grid_cong[OF id2] clue_matches_cong[OF id2] by simp
  then have 3: "update_rows N input ?s2 c (lowerNode ?s2 y) = Some ?s2"
    by (simp add: update_rows_end)
  show ?thesis using 1 2 3 by simp
qed

lemma update_columns_idle:
  assumes inv: "Inv s A" and S: "S \<subseteq> set (acols A)" and w: "walk_ok s S"
    and no: "\<forall>d \<in> S. \<forall>y \<in> set (vl A d). in_grid N s y \<and> \<not> clue_matches input s y"
    and x: "x = headNode s \<or> x \<in> S"
  shows "update_columns N input s x = Some s"
proof -
  obtain K where K: "\<forall>d \<in> set (acols A). d \<le> K"
    using finite_nat_set_iff_bounded_le[of "set (acols A)"] by auto
  have main: "x \<in> S \<Longrightarrow> update_columns N input s x = Some s" for x
  proof (induction "K - x" arbitrary: x rule: less_induct)
    case less
    have xa: "x \<in> set (acols A)" using less.prems S by blast
    have xh: "x \<noteq> headNode s" using xa static_okD(2)[OF InvD(1)[OF inv]] by blast
    have rows: "update_rows N input s x (lowerNode s x) = Some s"
      using update_rows_none_match[OF inv xa] no less.prems by blast
    have nx: "update_columns N input s (rightNode s x) = Some s"
    proof (cases "rightNode s x = headNode s")
      case True
      then show ?thesis by (subst update_columns.simps) simp
    next
      case False
      then have r: "rightNode s x \<in> S" "x < rightNode s x"
        using w less.prems unfolding walk_ok_def by auto
      then have "rightNode s x \<le> K" using K S by blast
      then have "K - rightNode s x < K - x" using r(2) by simp
      then show ?thesis using less.hyps r(1) by blast
    qed
    show ?case using xh rows nx by (subst update_columns.simps) simp
  qed
  show ?thesis
  proof (cases "x = headNode s")
    case True
    then show ?thesis by (subst update_columns.simps) simp
  next
    case False
    then show ?thesis using main x by blast
  qed
qed

subsection \<open>The sudoku structure\<close>

lemma SudD:
  assumes "Sud N s A"
  shows "Inv s A" and "headNode s = 0" and "acols A = [1..<Suc (COLUMNS N)]"
    and "\<And>y. y \<in> anodes A \<Longrightarrow> arow A y < ROWS N"
    and "\<And>y. y \<in> anodes A \<Longrightarrow> identifier' s y = ident_of N (arow A y)"
    and "\<And>y. y \<in> anodes A \<Longrightarrow> columnNode s y \<in> set (cols_of N (arow A y))"
    and "\<And>y. y \<in> anodes A \<Longrightarrow> length (aoth A y) = 3"
    and "\<And>r c. r < ROWS N \<Longrightarrow> c \<in> set (cols_of N r)
           \<Longrightarrow> \<exists>y \<in> anodes A. arow A y = r \<and> columnNode s y = c"
    and "vis_ok s A"
  using assms unfolding Sud_def by blast+

lemma cols_of_facts:
  assumes N: "N = s * s" and s: "0 < s" and r: "r < ROWS N"
  shows "distinct (cols_of N r)" and "set (cols_of N r) \<subseteq> {1..COLUMNS N}"
    and "length (cols_of N r) = 4"
    and "\<And>k. Suc k \<in> set (cols_of N r) \<Longrightarrow> k < N * N \<Longrightarrow> cell_constraint N r = k"
    and "Suc (cell_constraint N r) \<in> set (cols_of N r)"
    and "cell_constraint N r < N * N"
proof -
  note cr = constraint_ranges[OF N s r]
  have K: "COLUMNS N = 4 * (N * N)" by (simp add: COLUMNS_def)
  show "distinct (cols_of N r)" using cr unfolding cols_of_def K by simp
  show "set (cols_of N r) \<subseteq> {1..COLUMNS N}" using cr unfolding cols_of_def K by simp
  show "length (cols_of N r) = 4" by (simp add: cols_of_def)
  show "cell_constraint N r = k" if "Suc k \<in> set (cols_of N r)" "k < N * N" for k
    using that cr unfolding cols_of_def K by auto
  show "Suc (cell_constraint N r) \<in> set (cols_of N r)" by (simp add: cols_of_def)
  show "cell_constraint N r < N * N" using cr(1) .
qed

lemma cell_div_mod:
  assumes N: "N = s * s" and s: "0 < s" and r: "r < ROWS N"
  shows "cell_constraint N r div N = row_of N r" and "cell_constraint N r mod N = column_of N r"
  using decode_bounds(3)[OF N s r] by (simp_all add: cell_constraint_def)

lemma clue_row_facts:
  assumes N: "N = s * s" and s: "0 < s" and k: "k < N * N"
    and c: "clue_row N input k = Some r"
  shows "r < ROWS N" and "cell_constraint N r = k"
    and "int (candidate_of N r) = input (k div N) (k mod N)"
    and "row_of N r = k div N" and "column_of N r = k mod N"
proof -
  have N0: "0 < N" using N s by simp
  define v where "v = input (k div N) (k mod N)"
  have v: "0 \<le> v" "v < int N" and re: "r = enc N (nat v) (k mod N) (k div N)"
    using c unfolding clue_row_def v_def[symmetric] by (auto simp: Let_def split: if_splits)
  have b: "nat v < N" "k mod N < N" "k div N < N"
    using v N0 k by (simp_all add: less_mult_imp_div_less)
  note e = enc_decode[OF b]
  show "r < ROWS N" using e(1) re by simp
  show rw: "row_of N r = k div N" and cl: "column_of N r = k mod N" using e(3,4) re by simp_all
  show "cell_constraint N r = k" unfolding cell_constraint_def rw cl by simp
  show "int (candidate_of N r) = input (k div N) (k mod N)"
    using e(2) re v unfolding v_def by simp
qed

lemma clue_row_iff:
  assumes N: "N = s * s" and s: "0 < s" and r: "r < ROWS N"
  shows "clue_row N input (cell_constraint N r) = Some r
     \<longleftrightarrow> int (candidate_of N r) = input (row_of N r) (column_of N r)"
proof
  assume c: "clue_row N input (cell_constraint N r) = Some r"
  have k: "cell_constraint N r < N * N" using constraint_ranges(1)[OF N s r] .
  show "int (candidate_of N r) = input (row_of N r) (column_of N r)"
    using clue_row_facts(3)[OF N s k c] unfolding cell_div_mod[OF N s r] .
next
  assume m: "int (candidate_of N r) = input (row_of N r) (column_of N r)"
  note d = decode_bounds[OF N s r]
  have "enc N (candidate_of N r) (column_of N r) (row_of N r) = r"
    using enc_surj[OF N s r] by simp
  then show "clue_row N input (cell_constraint N r) = Some r"
    unfolding clue_row_def cell_div_mod[OF N s r] m[symmetric] using d(1)
    by (simp add: Let_def)
qed

lemma Sud_match:
  assumes N: "N = s * s" and s: "0 < s" and sud: "Sud N st A" and y: "y \<in> anodes A"
  shows "in_grid N st y"
    and "clue_matches input st y
       \<longleftrightarrow> clue_row N input (cell_constraint N (arow A y)) = Some (arow A y)"
proof -
  note r = SudD(4)[OF sud y] and i = SudD(5)[OF sud y]
  note d = decode_bounds[OF N s r]
  show "in_grid N st y" using d by (simp add: in_grid_def i ident_of_def)
  show "clue_matches input st y
       \<longleftrightarrow> clue_row N input (cell_constraint N (arow A y)) = Some (arow A y)"
    unfolding clue_row_iff[OF N s r] by (simp add: clue_matches_def i ident_of_def)
qed

lemma Sud_row_columns:
  assumes sud: "Sud N st A" and y: "y \<in> anodes A"
  shows "columnNode st ` set (y # aoth A y) = set (cols_of N (arow A y))"
proof (intro set_eqI iffI)
  note st = InvD(1)[OF SudD(1)[OF sud]]
  fix c assume "c \<in> columnNode st ` set (y # aoth A y)"
  then obtain x where x: "x \<in> set (y # aoth A y)" "c = columnNode st x" by auto
  have "x \<in> anodes A \<and> arow A x = arow A y"
    using x(1) y aoth_sym(1,3)[OF st y] by auto
  then show "c \<in> set (cols_of N (arow A y))" using SudD(6)[OF sud, of x] x(2) by simp
next
  note st = InvD(1)[OF SudD(1)[OF sud]]
  fix c assume "c \<in> set (cols_of N (arow A y))"
  then obtain x where x: "x \<in> anodes A" "arow A x = arow A y" "columnNode st x = c"
    using SudD(8)[OF sud SudD(4)[OF sud y]] by blast
  have "x \<in> set (y # aoth A y)" using static_okD(9)[OF st y] x(1,2) by auto
  then show "c \<in> columnNode st ` set (y # aoth A y)" using x(3) by blast
qed

lemma Sud_row_cols:
  assumes sud: "Sud N st A" and c: "c \<in> set (active A)" and y: "y \<in> set (vl A c)"
  shows "set (c # row_cols st A y) = set (cols_of N (arow A y))"
proof -
  note rc = row_cols_facts[OF SudD(1)[OF sud] c y]
  have "set (c # row_cols st A y) = columnNode st ` set (y # aoth A y)"
    using rc(2) by (simp add: row_cols_def)
  then show ?thesis using Sud_row_columns[OF sud rc(1)] by simp
qed

lemma Sud_visible:
  assumes sud: "Sud N st A" and y: "y \<in> anodes A"
  shows "(columnNode st y \<in> set (active A) \<and> y \<in> set (vl A (columnNode st y)))
     \<longleftrightarrow> set (cols_of N (arow A y)) \<subseteq> set (active A)"
proof
  note inv = SudD(1)[OF sud]
  assume a: "columnNode st y \<in> set (active A) \<and> y \<in> set (vl A (columnNode st y))"
  then have "\<forall>x \<in> set (aoth A y). columnNode st x \<in> set (active A)"
    using InvD(4)[OF inv] y unfolding rows_ok_def by blast
  then have "columnNode st ` set (y # aoth A y) \<subseteq> set (active A)" using a by auto
  then show "set (cols_of N (arow A y)) \<subseteq> set (active A)"
    unfolding Sud_row_columns[OF sud y] .
next
  assume a: "set (cols_of N (arow A y)) \<subseteq> set (active A)"
  then have all: "\<forall>x \<in> set (y # aoth A y). columnNode st x \<in> set (active A)"
    unfolding Sud_row_columns[OF sud y, symmetric] by blast
  then have "y \<in> set (vl A (columnNode st y))"
    using SudD(9)[OF sud] y unfolding vis_ok_def by blast
  then show "columnNode st y \<in> set (active A) \<and> y \<in> set (vl A (columnNode st y))"
    using all by simp
qed

lemma vis_ok_acover:
  assumes inv: "Inv s A" and e: "e \<in> set (active A)" and vis: "vis_ok s A"
  shows "vis_ok (covered s A e) (acover A e)"
  unfolding vis_ok_def
proof (intro ballI impI)
  note st = InvD(1)[OF inv] and v = InvD(2)[OF inv]
  have ea: "e \<in> set (acols A)" using ring_okD(3)[OF InvD(3)[OF inv]] e by blast
  fix y assume y: "y \<in> anodes (acover A e)"
    and a: "\<forall>x \<in> set (y # aoth (acover A e) y).
              columnNode (covered s A e) x \<in> set (active (acover A e))"
  have ya: "y \<in> anodes A" using y by simp
  have a': "\<forall>x \<in> set (y # aoth A y). columnNode s x \<in> set (active A) \<and> columnNode s x \<noteq> e"
    using a by simp
  then have yv: "y \<in> set (vl A (columnNode s y))" using vis ya unfolding vis_ok_def by auto
  have "y \<notin> set (row_nodes A (vl A e))"
  proof
    assume "y \<in> set (row_nodes A (vl A e))"
    then obtain w where w: "w \<in> set (vl A e)" "y \<in> set (aoth A w)"
      by (auto simp: in_row_nodes)
    have wa: "w \<in> anodes A" "columnNode s w = e" using vert_okD(3)[OF v ea w(1)] by auto
    have "w \<in> set (aoth A y)" using aoth_sym(2)[OF st wa(1) w(2)] .
    then show False using a' wa(2) by auto
  qed
  then show "y \<in> set (vl (acover A e) (columnNode (covered s A e) y))" using yv by simp
qed

lemma vis_ok_acover_seq:
  "Inv s A \<Longrightarrow> distinct cs \<Longrightarrow> set cs \<subseteq> set (active A) \<Longrightarrow> vis_ok s A
   \<Longrightarrow> vis_ok (covered_seq s A cs) (acover_seq A cs)"
proof (induction cs arbitrary: s A)
  case Nil
  then show ?case by simp
next
  case (Cons e cs)
  have e: "e \<in> set (active A)" using Cons.prems by simp
  have inv1: "Inv (covered s A e) (acover A e)" using covered_Inv[OF Cons.prems(1) e] .
  have "vis_ok (covered_seq (covered s A e) (acover A e) cs) (acover_seq (acover A e) cs)"
    using Cons.prems vis_ok_acover[OF Cons.prems(1) e Cons.prems(4)]
    by (intro Cons.IH[OF inv1]) auto
  then show ?case by simp
qed

lemma vis_ok_globals [simp]:
  "vis_ok (s\<lparr>CURRENT_SOLUTION := v\<rparr>) A = vis_ok s A"
  "vis_ok (s\<lparr>SUDOKU_SOLUTION := w\<rparr>) A = vis_ok s A"
  "vis_ok (store_clue N input s y) A = vis_ok s A"
  by (simp_all add: vis_ok_def)

lemma Sud_globals [simp]:
  "Sud N (s\<lparr>CURRENT_SOLUTION := v\<rparr>) A = Sud N s A"
  "Sud N (s\<lparr>SUDOKU_SOLUTION := w\<rparr>) A = Sud N s A"
  "Sud N (store_clue M input s y) A = Sud N s A"
  by (simp_all add: Sud_def)

lemma Sud_covered_seq:
  assumes sud: "Sud N s A" and d: "distinct cs" and a: "set cs \<subseteq> set (active A)"
  shows "Sud N (covered_seq s A cs) (acover_seq A cs)"
  unfolding Sud_def
  using covered_seq_Inv[OF SudD(1)[OF sud] d a] vis_ok_acover_seq[OF SudD(1)[OF sud] d a SudD(9)[OF sud]]
    SudD(2-8)[OF sud]
  by simp

lemma Sud_built:
  assumes N: "N = s * s" and s: "0 < s" and sb: "Sudoku_built N st A rows"
  shows "Sud N st A" and "active A = [1..<Suc (COLUMNS N)]"
proof -
  note f = Sudoku_built_facts[OF N s sb] and d = Sudoku_builtD[OF sb]
  from d(1) obtain free where B: "BInv st A rows free (COLUMNS N)" by blast
  note b = BInvD[OF B]
  have cols: "map (columnNode st) (rows r) = cols_of N r" if "r < ROWS N" for r
    using d(2)[OF that] by (simp add: cols_of_def)
  have 1: "arow A y < ROWS N \<and> identifier' st y = ident_of N (arow A y)
      \<and> columnNode st y \<in> set (cols_of N (arow A y)) \<and> length (aoth A y) = 3"
    if y: "y \<in> anodes A" for y
  proof -
    have r: "arow A y < ROWS N" "y \<in> set (rows (arow A y))" using f(6)[OF y] by auto
    have "columnNode st y \<in> set (map (columnNode st) (rows (arow A y)))" using r(2) by simp
    then show ?thesis using r(1) d(4)[OF y] f(8)[OF y] unfolding cols[OF r(1)] by simp
  qed
  have 2: "\<exists>y \<in> anodes A. arow A y = r \<and> columnNode st y = c"
    if r: "r < ROWS N" and c: "c \<in> set (cols_of N r)" for r c
  proof -
    have "c \<in> set (map (columnNode st) (rows r))" using c cols[OF r] by simp
    then obtain y where "y \<in> set (rows r)" "columnNode st y = c" by auto
    then show ?thesis using f(7)[OF r] by auto
  qed
  have 3: "vis_ok st A" unfolding vis_ok_def using b(8) by blast
  show "Sud N st A" unfolding Sud_def using f(1,2,3) 1 2 3 by blast
  show "active A = [1..<Suc (COLUMNS N)]" using f(4) .
qed

lemma PreInvD:
  assumes "PreInv N input k s0 s A"
  shows "Sud N s A"
    and "active A = filter (\<lambda>c. c \<notin> set (covered_cols N (accepted N input k)))
                    [1..<Suc (COLUMNS N)]"
    and "SUDOKU_SOLUTION s = store_rows N (accepted N input k) (SUDOKU_SOLUTION s0)"
    and "CURRENT_SOLUTION s = CURRENT_SOLUTION s0"
  using assms unfolding PreInv_def by blast+

lemma PreInv_active:
  assumes "PreInv N input k s0 s A"
  shows "c \<in> set (active A)
     \<longleftrightarrow> 1 \<le> c \<and> c \<le> COLUMNS N \<and> c \<notin> set (covered_cols N (accepted N input k))"
  unfolding PreInvD(2)[OF assms] by (auto simp del: upt_Suc)

lemma accepted_Suc: "accepted N input (Suc k) = accept_clue N input k (accepted N input k)"
  by (simp add: accepted_def)

lemma accepted_mono: "set (accepted N input k) \<subseteq> set (accepted N input (Suc k))"
  unfolding accepted_Suc by (auto simp: accept_clue_def split: option.splits)

lemma accepted_src:
  "r \<in> set (accepted N input k) \<Longrightarrow> \<exists>j < k. clue_row N input j = Some r"
proof (induction k)
  case 0
  then show ?case by (simp add: accepted_def)
next
  case (Suc k)
  show ?case
  proof (cases "r \<in> set (accepted N input k)")
    case True
    then show ?thesis using Suc.IH less_Suc_eq by blast
  next
    case False
    then have "clue_row N input k = Some r"
      using Suc.prems unfolding accepted_Suc
      by (auto simp: accept_clue_def split: option.splits if_splits)
    then show ?thesis by blast
  qed
qed

lemma conflict_refl: "conflict N r r"
  by (auto simp: conflict_def cols_of_def)

lemma accepted_hit:
  "j < k \<Longrightarrow> clue_row N input j = Some r
   \<Longrightarrow> \<exists>r' \<in> set (accepted N input k). conflict N r r'"
proof (induction k)
  case 0
  then show ?case by simp
next
  case (Suc k)
  show ?case
  proof (cases "j < k")
    case True
    then show ?thesis using Suc.IH Suc.prems(2) accepted_mono[of N input k] by blast
  next
    case False
    then have jk: "j = k" using Suc.prems(1) by simp
    show ?thesis
    proof (cases "\<exists>r' \<in> set (accepted N input k). conflict N r r'")
      case True
      then show ?thesis using accepted_mono[of N input k] by blast
    next
      case False
      then have "accepted N input (Suc k) = accepted N input k @ [r]"
        using Suc.prems(2) jk unfolding accepted_Suc by (simp add: accept_clue_def)
      then show ?thesis using conflict_refl[of N r] by simp
    qed
  qed
qed

lemma in_covered_cols:
  "c \<in> set (covered_cols N rs) \<longleftrightarrow> (\<exists>r \<in> set rs. c \<in> set (cols_of N r))"
  by (auto simp: covered_cols_def)

lemma accepted_rows:
  assumes N: "N = s * s" and s: "0 < s" and k: "k \<le> N * N"
    and r: "r \<in> set (accepted N input k)"
  shows "r < ROWS N" and "cell_constraint N r < k"
    and "clue_row N input (cell_constraint N r) = Some r"
proof -
  from accepted_src[OF r] obtain j where j: "j < k" "clue_row N input j = Some r" by blast
  have jn: "j < N * N" using j(1) k by simp
  note f = clue_row_facts[OF N s jn j(2)]
  show "r < ROWS N" using f(1) .
  show "cell_constraint N r < k" using f(2) j(1) by simp
  show "clue_row N input (cell_constraint N r) = Some r" using f(2) j(2) by simp
qed

lemma cell_active:
  assumes N: "N = s * s" and s: "0 < s" and pre: "PreInv N input k s0 st A"
    and k: "k \<le> j" and j: "j < N * N"
  shows "Suc j \<in> set (active A)"
proof -
  have "Suc j \<notin> set (covered_cols N (accepted N input k))"
  proof
    assume "Suc j \<in> set (covered_cols N (accepted N input k))"
    then obtain r where r: "r \<in> set (accepted N input k)" "Suc j \<in> set (cols_of N r)"
      by (auto simp: in_covered_cols)
    have kn: "k \<le> N * N" using k j by simp
    note a = accepted_rows[OF N s kn r(1)]
    have "cell_constraint N r = j" using cols_of_facts(4)[OF N s a(1) r(2) j] .
    then show False using a(2) k by simp
  qed
  moreover have "Suc j \<le> COLUMNS N" using j by (simp add: COLUMNS_def)
  ultimately show ?thesis unfolding PreInv_active[OF pre] by simp
qed

lemma live_match:
  assumes N: "N = s * s" and s: "0 < s" and pre: "PreInv N input k s0 st A"
    and y: "y \<in> anodes A" and c: "columnNode st y \<in> set (active A)"
    and v: "y \<in> set (vl A (columnNode st y))" and m: "clue_matches input st y"
  shows "k \<le> cell_constraint N (arow A y)"
    and "clue_row N input (cell_constraint N (arow A y)) = Some (arow A y)"
    and "\<not> (\<exists>r' \<in> set (accepted N input k). conflict N (arow A y) r')"
proof -
  note sud = PreInvD(1)[OF pre]
  show cr: "clue_row N input (cell_constraint N (arow A y)) = Some (arow A y)"
    using Sud_match(2)[OF N s sud y] m by simp
  have sub: "set (cols_of N (arow A y)) \<subseteq> set (active A)"
    using Sud_visible[OF sud y] c v by simp
  show nc: "\<not> (\<exists>r' \<in> set (accepted N input k). conflict N (arow A y) r')"
  proof
    assume "\<exists>r' \<in> set (accepted N input k). conflict N (arow A y) r'"
    then obtain r' c' where r': "r' \<in> set (accepted N input k)"
      "c' \<in> set (cols_of N (arow A y))" "c' \<in> set (cols_of N r')"
      unfolding conflict_def by blast
    have "c' \<in> set (covered_cols N (accepted N input k))"
      using r'(1,3) by (auto simp: in_covered_cols)
    moreover have "c' \<in> set (active A)" using sub r'(2) by blast
    ultimately show False unfolding PreInv_active[OF pre] by simp
  qed
  show "k \<le> cell_constraint N (arow A y)"
  proof (rule ccontr)
    assume "\<not> k \<le> cell_constraint N (arow A y)"
    then have "cell_constraint N (arow A y) < k" by simp
    from accepted_hit[OF this cr] nc show False by blast
  qed
qed

lemma cell_column_rows:
  assumes N: "N = s * s" and s: "0 < s" and sud: "Sud N st A"
    and k: "k < N * N" and y: "y \<in> set (vl A (Suc k))"
  shows "y \<in> anodes A" and "columnNode st y = Suc k" and "cell_constraint N (arow A y) = k"
proof -
  note inv = SudD(1)[OF sud]
  have ca: "Suc k \<in> set (acols A)"
    using k unfolding SudD(3)[OF sud] by (simp add: COLUMNS_def del: upt_Suc)
  show ya: "y \<in> anodes A" and yc: "columnNode st y = Suc k"
    using vert_okD(3)[OF InvD(2)[OF inv] ca y] by auto
  have "Suc k \<in> set (cols_of N (arow A y))" using SudD(6)[OF sud ya] yc by simp
  then show "cell_constraint N (arow A y) = k"
    using cols_of_facts(4)[OF N s SudD(4)[OF sud ya] _ k] by simp
qed

lemma sorted_columns: "Sud N st A \<Longrightarrow> sorted (acols A)"
  by (simp add: SudD(3) del: upt_Suc)

lemma preload_step_idle:
  assumes N: "N = s * s" and s: "0 < s" and pre: "PreInv N input k s0 st A"
    and k: "k < N * N"
    and nc: "\<not> (\<exists>r. clue_row N input k = Some r
                \<and> \<not> (\<exists>r' \<in> set (accepted N input k). conflict N r r'))"
  shows "update_rows N input st (Suc k) (lowerNode st (Suc k)) = Some st"
    and "PreInv N input (Suc k) s0 st A"
    and "\<forall>d \<in> set (active A). \<forall>y \<in> set (vl A d).
           clue_matches input st y \<longrightarrow> k < cell_constraint N (arow A y)"
proof -
  note sud = PreInvD(1)[OF pre]
  note inv = SudD(1)[OF sud]
  have ca: "Suc k \<in> set (acols A)"
    using k unfolding SudD(3)[OF sud] by (simp add: COLUMNS_def del: upt_Suc)
  have act: "Suc k \<in> set (active A)" using cell_active[OF N s pre le_refl k] .
  have live: "k < cell_constraint N (arow A y)"
    if d: "d \<in> set (active A)" and y: "y \<in> set (vl A d)" and m: "clue_matches input st y"
    for d y
  proof -
    have da: "d \<in> set (acols A)" using ring_okD(3)[OF InvD(3)[OF inv]] d by blast
    have ya: "y \<in> anodes A" "columnNode st y = d" using vert_okD(3)[OF InvD(2)[OF inv] da y] by auto
    note l = live_match[OF N s pre ya(1) _ _ m, unfolded ya(2), OF d y]
    have "cell_constraint N (arow A y) \<noteq> k" using l(2,3) nc by auto
    then show ?thesis using l(1) by simp
  qed
  then show "\<forall>d \<in> set (active A). \<forall>y \<in> set (vl A d).
           clue_matches input st y \<longrightarrow> k < cell_constraint N (arow A y)" by blast
  have "in_grid N st y \<and> \<not> clue_matches input st y" if y: "y \<in> set (vl A (Suc k))" for y
  proof -
    note c = cell_column_rows[OF N s sud k y]
    show ?thesis using Sud_match(1)[OF N s sud c(1)] live[OF act y] c(3) by auto
  qed
  then show "update_rows N input st (Suc k) (lowerNode st (Suc k)) = Some st"
    using update_rows_none_match[OF inv ca] by blast
  have "accepted N input (Suc k) = accepted N input k"
    using nc unfolding accepted_Suc by (auto simp: accept_clue_def split: option.splits)
  then show "PreInv N input (Suc k) s0 st A" using pre unfolding PreInv_def by simp
qed

lemma ring_succ:
  assumes inv: "Inv s A" and srt: "sorted (acols A)" and c: "c \<in> set (active A)"
    and n: "Suc c \<in> set (active A)"
  shows "rightNode s c = Suc c"
proof -
  note st = InvD(1)[OF inv] and rg = InvD(3)[OF inv]
  from ring_neighbours(5)[OF inv c] obtain as bs where sp: "active A = as @ c # bs" by blast
  have "sorted (filter (\<lambda>c. c \<in> set (active A)) (acols A))" using srt by (rule sorted_wrt_filter)
  then have so: "sorted (as @ c # bs)" using ring_okD(2)[OF rg] sp by simp
  have di: "distinct (as @ c # bs)" using ring_ok_distinct[OF st rg] sp by simp
  have m: "rightNode s c = hd (bs @ [headNode s])"
    using dpath_mid[of "rightNode s" "leftNode s" "headNode s" as c bs "headNode s"]
      ring_okD(1)[OF rg] sp by simp
  have "Suc c \<notin> set as" using so by (auto simp: sorted_append)
  then have nb: "Suc c \<in> set bs" using n sp by auto
  then obtain b bs' where bs: "bs = b # bs'" by (cases bs) auto
  have "c \<le> b" "b \<noteq> c" using so di unfolding bs by (auto simp: sorted_append)
  moreover have "b \<le> Suc c" using so nb unfolding bs by (auto simp: sorted_append)
  ultimately show ?thesis using m bs by simp
qed

lemma store_rows_snoc:
  "store_rows N (rs @ [r]) sol
     = (store_rows N rs sol)[cell_constraint N r := int (candidate_of N r)]"
  by (simp add: store_rows_def)

lemma covered_cols_snoc: "covered_cols N (rs @ [r]) = covered_cols N rs @ cols_of N r"
  by (simp add: covered_cols_def)

lemma preload_step_cover:
  assumes N: "N = s * s" and s: "0 < s" and pre: "PreInv N input k s0 st A"
    and k: "k < N * N" and cr: "clue_row N input k = Some r"
    and nc: "\<not> (\<exists>r' \<in> set (accepted N input k). conflict N r r')"
  shows "\<exists>st' A'. update_rows N input st (Suc k) (lowerNode st (Suc k)) = Some st'
     \<and> PreInv N input (Suc k) s0 st' A'
     \<and> rightNode st' (Suc k) = rightNode st (Suc k)
     \<and> walk_ok st' (set (active A))
     \<and> acols A' = acols A \<and> identifier' st' = identifier' st \<and> arow A' = arow A
     \<and> (\<forall>d \<in> set (active A). d \<noteq> Suc k \<longrightarrow> (\<forall>y \<in> set (vl A' d).
           clue_matches input st y \<longrightarrow> k < cell_constraint N (arow A y)))"
proof -
  note sud = PreInvD(1)[OF pre]
  note inv = SudD(1)[OF sud]
  note sta = InvD(1)[OF inv] and v = InvD(2)[OF inv]
  note f = clue_row_facts[OF N s k cr]
  let ?c = "Suc k"
  have act: "?c \<in> set (active A)" using cell_active[OF N s pre le_refl k] .
  have ca: "?c \<in> set (acols A)" using ring_okD(3)[OF InvD(3)[OF inv]] act by blast
  have sub: "set (cols_of N r) \<subseteq> set (active A)"
  proof
    fix c assume c: "c \<in> set (cols_of N r)"
    have "c \<notin> set (covered_cols N (accepted N input k))"
      using nc c unfolding conflict_def in_covered_cols by blast
    then show "c \<in> set (active A)"
      using cols_of_facts(2)[OF N s f(1)] c unfolding PreInv_active[OF pre] by auto
  qed
  have "?c \<in> set (cols_of N r)" using cols_of_facts(5)[OF N s f(1)] f(2) by simp
  from SudD(8)[OF sud f(1) this] obtain y where
    y: "y \<in> anodes A" "arow A y = r" "columnNode st y = ?c" by blast
  have yv: "y \<in> set (vl A ?c)" using Sud_visible[OF sud y(1)] sub y(2,3) by simp
  then obtain pre' post where split: "vl A ?c = pre' @ y # post" by (auto simp: in_set_conv_decomp)
  have dv: "distinct (pre' @ y # post)" using vert_okD(2)[OF v ca] split by simp
  have only: "z = y" if z: "z \<in> set (vl A ?c)" and m: "clue_matches input st z" for z
  proof -
    note c = cell_column_rows[OF N s sud k z]
    have "clue_row N input k = Some (arow A z)"
      using live_match(2)[OF N s pre c(1) _ _ m] act z c(2,3) by simp
    then have "arow A z = arow A y" using cr y(2) by simp
    then show ?thesis using static_okD(10)[OF sta c(1) y(1)] c(2) y(3) by simp
  qed
  have no: "\<forall>z \<in> set (pre' @ post). \<not> clue_matches input st z"
  proof
    fix z assume z: "z \<in> set (pre' @ post)"
    then have "z \<in> set (vl A ?c)" "z \<noteq> y" using split dv by auto
    then show "\<not> clue_matches input st z" using only by blast
  qed
  have grid: "\<forall>z \<in> set (vl A ?c). in_grid N st z"
    using Sud_match(1)[OF N s sud] vert_okD(3)[OF v ca] by blast
  have m: "clue_matches input st y"
    using Sud_match(2)[OF N s sud y(1), of input] cr f(2) y(2) by simp
  let ?cs = "?c # row_cols st A y"
  let ?s0 = "store_clue N input st y"
  let ?st' = "covered_seq ?s0 A ?cs"
  let ?A' = "acover_seq A ?cs"
  note rc = row_cols_facts[OF inv act yv]
  have inv0: "Inv ?s0 A" using inv by simp
  have sud0: "Sud N ?s0 A" using sud by simp
  have 1: "update_rows N input st ?c (lowerNode st ?c) = Some ?st'"
    using update_rows_one_match[OF inv act split grid m no] .
  have cols: "set ?cs = set (cols_of N r)" using Sud_row_cols[OF sud act yv] y(2) by simp
  have acc: "accepted N input (Suc k) = accepted N input k @ [r]"
    using cr nc unfolding accepted_Suc by (simp add: accept_clue_def)
  have sud': "Sud N ?st' ?A'" using Sud_covered_seq[OF sud0 rc(4,5)] .
  have "active ?A' = filter (\<lambda>z. z \<notin> set ?cs) (active A)" by (rule acover_seq_active)
  also have "\<dots> = filter (\<lambda>c. c \<notin> set (covered_cols N (accepted N input (Suc k))))
      [1..<Suc (COLUMNS N)]"
    unfolding PreInvD(2)[OF pre] acc covered_cols_snoc cols
    by (simp add: conj_commute del: upt_Suc)
  finally have act': "active ?A' = filter (\<lambda>c. c \<notin> set (covered_cols N (accepted N input (Suc k))))
      [1..<Suc (COLUMNS N)]" .
  have "SUDOKU_SOLUTION ?st' = (SUDOKU_SOLUTION st)[cell_constraint N r := int (candidate_of N r)]"
    using f(3,4,5) SudD(5)[OF sud y(1)] y(2)
    by (simp add: store_clue_def ident_of_def cell_constraint_def)
  then have sol: "SUDOKU_SOLUTION ?st' = store_rows N (accepted N input (Suc k)) (SUDOKU_SOLUTION s0)"
    unfolding acc store_rows_snoc PreInvD(3)[OF pre] .
  have 2: "PreInv N input (Suc k) s0 ?st' ?A'"
    unfolding PreInv_def using sud' act' sol PreInvD(4)[OF pre] by simp
  have hd0: "headNode ?s0 = 0" using SudD(2)[OF sud] by simp
  have "rightNode ?st' ?c = rightNode ?s0 ?c"
    using covered_seq_right_inactive[OF inv0 rc(4,5), of ?c] hd0 by simp
  then have 3: "rightNode ?st' ?c = rightNode st ?c" by simp
  have hn: "headNode ?s0 \<notin> set (active A)"
    using static_okD(2)[OF sta] ring_okD(3)[OF InvD(3)[OF inv]] by auto
  have 4: "walk_ok ?st' (set (active A))"
    using walk_ok_covered_seq[OF inv0 sorted_columns[OF sud] rc(4,5) subset_refl hn
        walk_ok_active[OF inv0 sorted_columns[OF sud]]] .
  have 5: "k < cell_constraint N (arow A y')"
    if d: "d \<in> set (active A)" "d \<noteq> ?c" and y': "y' \<in> set (vl ?A' d)"
      and m': "clue_matches input st y'" for d y'
  proof -
    have in1: "y' \<in> set (vl (acover A ?c) d)"
      using vl_acover_seq_subset[of "acover A ?c" "row_cols st A y" d] y' by auto
    then have in0: "y' \<in> set (vl A d)" by simp
    have da: "d \<in> set (acols A)" using ring_okD(3)[OF InvD(3)[OF inv]] d(1) by blast
    have ya: "y' \<in> anodes A" "columnNode st y' = d"
      using vert_okD(3)[OF v da in0] by auto
    note l = live_match[OF N s pre ya(1) _ _ m', unfolded ya(2), OF d(1) in0]
    have "cell_constraint N (arow A y') \<noteq> k"
    proof
      assume "cell_constraint N (arow A y') = k"
      then have "arow A y' = arow A y" using l(2) cr y(2) by simp
      moreover have "y' \<noteq> y" using ya(2) y(3) d(2) by auto
      ultimately have "y' \<in> set (aoth A y)" using static_okD(9)[OF sta y(1)] ya(1) by simp
      then have "y' \<in> set (row_nodes A (vl A ?c))" using yv by (auto simp: in_row_nodes)
      then show False using in1 by simp
    qed
    then show ?thesis using l(1) by simp
  qed
  have 6: "acols ?A' = acols A" "identifier' ?st' = identifier' st" "arow ?A' = arow A"
    by simp_all
  show ?thesis using 1 2 3 4 5 6 by blast
qed

lemma preload_step:
  assumes N: "N = s * s" and s: "0 < s" and pre: "PreInv N input k s0 st A"
    and k: "k < N * N"
  shows "\<exists>st' A'. update_rows N input st (Suc k) (lowerNode st (Suc k)) = Some st'
     \<and> PreInv N input (Suc k) s0 st' A'
     \<and> rightNode st' (Suc k) = rightNode st (Suc k)
     \<and> walk_ok st' (set (active A))
     \<and> (\<forall>d \<in> set (active A). d \<noteq> Suc k \<longrightarrow> (\<forall>y \<in> set (vl A' d).
           in_grid N st' y \<and> (clue_matches input st' y \<longrightarrow> k < cell_constraint N (arow A' y))))"
proof (cases "\<exists>r. clue_row N input k = Some r
                \<and> \<not> (\<exists>r' \<in> set (accepted N input k). conflict N r r')")
  case True
  then obtain r where r: "clue_row N input k = Some r"
    "\<not> (\<exists>r' \<in> set (accepted N input k). conflict N r r')" by blast
  from preload_step_cover[OF N s pre k r] obtain st' A' where
    c: "update_rows N input st (Suc k) (lowerNode st (Suc k)) = Some st'"
      "PreInv N input (Suc k) s0 st' A'"
      "rightNode st' (Suc k) = rightNode st (Suc k)"
      "walk_ok st' (set (active A))"
      "acols A' = acols A" "identifier' st' = identifier' st" "arow A' = arow A"
      "\<forall>d \<in> set (active A). d \<noteq> Suc k \<longrightarrow> (\<forall>y \<in> set (vl A' d).
           clue_matches input st y \<longrightarrow> k < cell_constraint N (arow A y))"
    by blast
  note sud' = PreInvD(1)[OF c(2)]
  have "in_grid N st' y \<and> (clue_matches input st' y \<longrightarrow> k < cell_constraint N (arow A' y))"
    if d: "d \<in> set (active A)" "d \<noteq> Suc k" and y: "y \<in> set (vl A' d)" for d y
  proof -
    have "d \<in> set (acols A')"
      using ring_okD(3)[OF InvD(3)[OF SudD(1)[OF PreInvD(1)[OF pre]]]] d(1) c(5) by auto
    then have "y \<in> anodes A'" using vert_okD(3)[OF InvD(2)[OF SudD(1)[OF sud']] _ y] by simp
    then have "in_grid N st' y" using Sud_match(1)[OF N s sud'] by blast
    then show ?thesis using c(8) d y unfolding clue_matches_cong[OF c(6)] c(7) by blast
  qed
  then show ?thesis using c(1-4) by blast
next
  case False
  note i = preload_step_idle[OF N s pre k False]
  note sud = PreInvD(1)[OF pre]
  note inv = SudD(1)[OF sud]
  have "in_grid N st y \<and> (clue_matches input st y \<longrightarrow> k < cell_constraint N (arow A y))"
    if d: "d \<in> set (active A)" and y: "y \<in> set (vl A d)" for d y
  proof -
    have "d \<in> set (acols A)" using ring_okD(3)[OF InvD(3)[OF inv]] d by blast
    then have "y \<in> anodes A" using vert_okD(3)[OF InvD(2)[OF inv] _ y] by simp
    then have "in_grid N st y" using Sud_match(1)[OF N s sud] by blast
    then show ?thesis using i(3) d y by blast
  qed
  then show ?thesis using i(1,2) walk_ok_active[OF inv sorted_columns[OF sud]] by blast
qed

lemma preload_loop:
  assumes N: "N = s * s" and s: "0 < s"
  shows "PreInv N input k s0 st A \<Longrightarrow> k < N * N
     \<Longrightarrow> \<exists>st' A'. update_columns N input st (Suc k) = Some st' \<and> PreInv N input (N * N) s0 st' A'"
proof (induction "N * N - k" arbitrary: k st A rule: less_induct)
  case less
  note pre = less.prems(1) and k = less.prems(2)
  note sud = PreInvD(1)[OF pre]
  note inv = SudD(1)[OF sud]
  from preload_step[OF N s pre k] obtain st' A' where
    c: "update_rows N input st (Suc k) (lowerNode st (Suc k)) = Some st'"
      "PreInv N input (Suc k) s0 st' A'"
      "rightNode st' (Suc k) = rightNode st (Suc k)"
      "walk_ok st' (set (active A))"
      "\<forall>d \<in> set (active A). d \<noteq> Suc k \<longrightarrow> (\<forall>y \<in> set (vl A' d).
           in_grid N st' y \<and> (clue_matches input st' y \<longrightarrow> k < cell_constraint N (arow A' y)))"
    by blast
  note sud' = PreInvD(1)[OF c(2)]
  note inv' = SudD(1)[OF sud']
  have hd: "Suc k \<noteq> headNode st" using SudD(2)[OF sud] by simp
  have act: "Suc k \<in> set (active A)" using cell_active[OF N s pre le_refl k] .
  have "\<exists>t B. update_columns N input st' (rightNode st' (Suc k)) = Some t
      \<and> PreInv N input (N * N) s0 t B"
  proof (cases "Suc k < N * N")
    case True
    have "Suc (Suc k) \<in> set (active A)" using cell_active[OF N s pre _ True] by simp
    then have "rightNode st (Suc k) = Suc (Suc k)"
      using ring_succ[OF inv sorted_columns[OF sud] act] by simp
    moreover have "N * N - Suc k < N * N - k" using k by simp
    ultimately show ?thesis using less.hyps[OF _ c(2) True] c(3) by simp
  next
    case False
    then have e: "Suc k = N * N" using k by simp
    let ?S = "{d \<in> set (active A). Suc k < d}"
    have S: "?S \<subseteq> set (acols A')"
      using ring_okD(3)[OF InvD(3)[OF inv]] SudD(3)[OF sud] SudD(3)[OF sud'] by auto
    have w: "walk_ok st' ?S" using walk_ok_above[OF c(4)] .
    have no: "\<forall>d \<in> ?S. \<forall>y \<in> set (vl A' d). in_grid N st' y \<and> \<not> clue_matches input st' y"
    proof (intro ballI)
      fix d y assume d: "d \<in> ?S" and y: "y \<in> set (vl A' d)"
      have g: "in_grid N st' y"
        "clue_matches input st' y \<longrightarrow> k < cell_constraint N (arow A' y)"
        using c(5) d y by auto
      have "y \<in> anodes A'" using vert_okD(3)[OF InvD(2)[OF inv'] _ y] S d by blast
      then have "cell_constraint N (arow A' y) < N * N"
        using cols_of_facts(6)[OF N s SudD(4)[OF sud']] by blast
      then show "in_grid N st' y \<and> \<not> clue_matches input st' y" using g e by auto
    qed
    have x: "rightNode st' (Suc k) = headNode st' \<or> rightNode st' (Suc k) \<in> ?S"
      using ring_sorted(2)[OF inv sorted_columns[OF sud] act] c(3)
        SudD(2)[OF sud] SudD(2)[OF sud'] by auto
    have "update_columns N input st' (rightNode st' (Suc k)) = Some st'"
      using update_columns_idle[OF inv' S w no x] .
    then show ?thesis using c(2) e by auto
  qed
  then show ?case using hd c(1) by (subst update_columns.simps) simp
qed

lemma accepted_0 [simp]: "accepted N input 0 = []"
  by (simp add: accepted_def)

lemma preload_total:
  assumes N: "N = s * s" and s: "0 < s" and sb: "Sudoku_built N st A rows"
  shows "\<exists>st' A'. updateDoublyLinkedList N input st = Some st'
     \<and> PreInv N input (N * N) st st' A'"
proof -
  note b = Sud_built[OF N s sb]
  have N0: "0 < N * N" using N s by simp
  have pre: "PreInv N input 0 st st A"
    unfolding PreInv_def using b by (simp add: covered_cols_def store_rows_def)
  have "Suc 0 \<in> set (active A)" using cell_active[OF N s pre le_refl N0] .
  then obtain bs where "active A = Suc 0 # bs" unfolding b(2) using N0
    by (cases "[1..<Suc (COLUMNS N)]") (auto simp: upt_conv_Cons simp del: upt_Suc)
  then have "rightNode st (headNode st) = Suc 0"
    using dpath_hd[OF ring_okD(1)[OF InvD(3)[OF SudD(1)[OF b(1)]]]] by simp
  then show ?thesis
    unfolding updateDoublyLinkedList_def using preload_loop[OF N s pre N0] by simp
qed

subsection \<open>The search on the structure left by the clues\<close>

lemma conflict_cases:
  assumes N: "N = s * s" and s: "0 < s" and r: "r < ROWS N" and r': "r' < ROWS N"
    and c: "conflict N r r'"
  shows "cell_constraint N r = cell_constraint N r'
     \<or> (candidate_of N r = candidate_of N r'
         \<and> (row_of N r = row_of N r' \<or> column_of N r = column_of N r' \<or> box_of N r = box_of N r'))"
proof -
  note a = constraint_ranges[OF N s r] and b = constraint_ranges[OF N s r']
  note d = decode_bounds[OF N s r] and d' = decode_bounds[OF N s r']
  have K: "COLUMNS N = 4 * (N * N)" by (simp add: COLUMNS_def)
  from c consider "cell_constraint N r = cell_constraint N r'"
    | "row_constraint N r = row_constraint N r'"
    | "column_constraint N r = column_constraint N r'"
    | "box_constraint N r = box_constraint N r'"
    using a b unfolding conflict_def cols_of_def K by auto
  then show ?thesis
  proof cases
    case 1
    then show ?thesis by simp
  next
    case 2
    then have "row_of N r * N + candidate_of N r = row_of N r' * N + candidate_of N r'"
      by (simp add: row_constraint_def)
    then show ?thesis using two_digits_eq[OF d(1) d'(1)] by blast
  next
    case 3
    then have "column_of N r * N + candidate_of N r = column_of N r' * N + candidate_of N r'"
      by (simp add: column_constraint_def)
    then show ?thesis using two_digits_eq[OF d(1) d'(1)] by blast
  next
    case 4
    then have "box_of N r * N + candidate_of N r = box_of N r' * N + candidate_of N r'"
      by (simp add: box_constraint_def)
    then show ?thesis using two_digits_eq[OF d(1) d'(1)] by blast
  qed
qed

lemma conflict_sym: "conflict N r r' \<Longrightarrow> conflict N r' r"
  unfolding conflict_def by blast

lemma cols_of_inj:
  assumes N: "N = s * s" and s: "0 < s" and r: "r < ROWS N" and r': "r' < ROWS N"
    and e: "set (cols_of N r) \<subseteq> set (cols_of N r')"
  shows "r = r'"
proof -
  note a = constraint_ranges[OF N s r] and b = constraint_ranges[OF N s r']
  note d = decode_bounds[OF N s r] and d' = decode_bounds[OF N s r']
  have K: "COLUMNS N = 4 * (N * N)" by (simp add: COLUMNS_def)
  have "Suc (cell_constraint N r) \<in> set (cols_of N r')"
    "Suc (row_constraint N r) \<in> set (cols_of N r')"
    using e by (auto simp: cols_of_def)
  then have 1: "cell_constraint N r = cell_constraint N r'"
    and 2: "row_constraint N r = row_constraint N r'"
    using a b unfolding cols_of_def K by auto
  have "row_of N r * N + candidate_of N r = row_of N r' * N + candidate_of N r'"
    using 2 by (simp add: row_constraint_def)
  then have rc: "row_of N r = row_of N r'" "candidate_of N r = candidate_of N r'"
    using two_digits_eq[OF d(1) d'(1)] by blast+
  have "column_of N r = column_of N r'" using 1 rc(1) by (simp add: cell_constraint_def)
  then show ?thesis using enc_surj[OF N s r] enc_surj[OF N s r'] rc by simp
qed

lemma distinct_singleton: "distinct xs \<Longrightarrow> set xs = {y} \<Longrightarrow> xs = [y]"
proof (cases xs)
  case Nil
  assume "set xs = {y}" then show ?thesis using Nil by simp
next
  case (Cons a as)
  assume d: "distinct xs" and s: "set xs = {y}"
  have "a = y" using s Cons by auto
  moreover have "as = []"
  proof (cases as)
    case Nil then show ?thesis .
  next
    case (Cons b bs)
    then have "b \<in> set xs" "b \<noteq> a" using d \<open>xs = a # as\<close> by auto
    then show ?thesis using s \<open>a = y\<close> by auto
  qed
  ultimately show ?thesis using Cons by simp
qed

lemma single_row_column:
  assumes N: "N = s * s" and s: "0 < s" and sud: "Sud N st A"
    and r0: "r0 < ROWS N" and act: "set (active A) = set (cols_of N r0)"
    and c: "c \<in> set (active A)"
  shows "\<exists>y. vl A c = [y] \<and> y \<in> anodes A \<and> arow A y = r0"
proof -
  note inv = SudD(1)[OF sud]
  note sta = InvD(1)[OF inv] and v = InvD(2)[OF inv]
  have ca: "c \<in> set (acols A)" using ring_okD(3)[OF InvD(3)[OF inv]] c by blast
  have "c \<in> set (cols_of N r0)" using c act by simp
  from SudD(8)[OF sud r0 this] obtain y where
    y: "y \<in> anodes A" "arow A y = r0" "columnNode st y = c" by blast
  have "set (cols_of N (arow A y)) \<subseteq> set (active A)" unfolding y(2) act by simp
  then have yv: "y \<in> set (vl A c)" using Sud_visible[OF sud y(1)] y(3) by simp
  have "z = y" if z: "z \<in> set (vl A c)" for z
  proof -
    have za: "z \<in> anodes A" "columnNode st z = c" using vert_okD(3)[OF v ca z] by auto
    have "columnNode st z \<in> set (active A) \<and> z \<in> set (vl A (columnNode st z))"
      unfolding za(2) using c z by simp
    then have "set (cols_of N (arow A z)) \<subseteq> set (active A)"
      using Sud_visible[OF sud za(1)] by blast
    then have "set (cols_of N (arow A z)) \<subseteq> set (cols_of N r0)" unfolding act .
    then have "arow A z = r0" using cols_of_inj[OF N s SudD(4)[OF sud za(1)] r0] by simp
    then show ?thesis using static_okD(10)[OF sta za(1) y(1)] za(2) y(2,3) by simp
  qed
  then have "set (vl A c) = {y}" using yv by blast
  then have "vl A c = [y]" using distinct_singleton[OF vert_okD(2)[OF v ca]] by simp
  then show ?thesis using y by blast
qed

lemma search_single_row:
  assumes N: "N = s * s" and s: "0 < s" and sud: "Sud N st A"
    and r0: "r0 < ROWS N" and act: "set (active A) = set (cols_of N r0)"
    and cs: "CURRENT_SOLUTION st = []"
  shows "search N (Suc 0) st = None"
    and "\<exists>t. search N (Suc (Suc 0)) st = Some (False, t)
           \<and> SUDOKU_SOLUTION t
               = (SUDOKU_SOLUTION st)[cell_constraint N r0 := int (candidate_of N r0)]"
proof -
  note inv = SudD(1)[OF sud]
  have "set (active A) \<noteq> {}" unfolding act by (simp add: cols_of_def)
  then have ne: "active A \<noteq> []" by simp
  have first: "\<exists>c y. c \<in> set (active A) \<and> vl A c = [] @ y # [] \<and> y \<in> anodes A \<and> arow A y = r0
      \<and> search N (Suc d) st = search_rows (search N d) (covered st A c) c y" for d
  proof -
    from search_first_column[OF inv ne, of N d] obtain c where
      c: "c \<in> set (active A)"
      "search N (Suc d) st
        = search_rows (search N d) (covered st A c) c (hd (vl A c @ [c]))" by blast
    from single_row_column[OF N s sud r0 act c(1)] obtain y where
      y: "vl A c = [y]" "y \<in> anodes A" "arow A y = r0" by blast
    have "hd (vl A c @ [c]) = y" "vl A c = [] @ y # []" using y(1) by simp_all
    then show ?thesis using c y(2,3) by metis
  qed
  show "search N (Suc 0) st = None"
  proof -
    from first[of 0] obtain c y where
      c: "c \<in> set (active A)" "vl A c = [] @ y # []"
      "search N (Suc 0) st = search_rows (search N 0) (covered st A c) c y" by blast
    have "search N 0 (row_state st A c y) = None" by simp
    from search_rows_iter(1)[OF inv c(1,2), of "search N 0", OF this] show ?thesis
      unfolding c(3) .
  qed
  show "\<exists>t. search N (Suc (Suc 0)) st = Some (False, t)
           \<and> SUDOKU_SOLUTION t
               = (SUDOKU_SOLUTION st)[cell_constraint N r0 := int (candidate_of N r0)]"
  proof -
    from first[of "Suc 0"] obtain c y where
      c: "c \<in> set (active A)" "vl A c = [] @ y # []" "y \<in> anodes A" "arow A y = r0"
      "search N (Suc (Suc 0)) st = search_rows (search N (Suc 0)) (covered st A c) c y"
      by blast
    have yv: "y \<in> set (vl A c)" using c(2) by simp
    let ?rs = "row_state st A c y"
    note rs = row_state_facts[OF inv c(1) yv]
    have "set (c # row_cols st A y) = set (active A)"
      using Sud_row_cols[OF sud c(1) yv] c(4) act by simp
    then have "active (row_abs st A c y) = []" unfolding row_abs_active
      by (simp add: filter_empty_conv)
    then have "rightNode ?rs (headNode ?rs) = headNode ?rs"
      using ring_empty_iff[OF rs(2)] by simp
    then have "search N (Suc 0) ?rs = Some (False, store_solution N ?rs)" by simp
    from search_rows_iter(2)[OF inv c(1,2), of "search N (Suc 0)", OF this]
    have 1: "search N (Suc (Suc 0)) st = Some (False, store_solution N ?rs)"
      unfolding c(5) .
    have id: "identifier' ?rs y = ident_of N r0"
      using SudD(5)[OF sud c(3)] c(4) by (simp add: row_state_def)
    have sol: "SUDOKU_SOLUTION ?rs = SUDOKU_SOLUTION st" by (simp add: row_state_def)
    have "store_solution N ?rs = store_row N y ?rs"
      unfolding store_solution_def rs(4) cs by simp
    then have 2: "SUDOKU_SOLUTION (store_solution N ?rs)
        = (SUDOKU_SOLUTION st)[cell_constraint N r0 := int (candidate_of N r0)]"
      using id sol by (simp add: store_row_def ident_of_def cell_constraint_def)
    show ?thesis using 1 2 by blast
  qed
qed

subsection \<open>The number of clues taken\<close>

lemma accepted_distinct_cols:
  assumes N: "N = s * s" and s: "0 < s"
  shows "k \<le> N * N \<Longrightarrow> distinct (covered_cols N (accepted N input k))
     \<and> length (covered_cols N (accepted N input k)) = 4 * length (accepted N input k)"
proof (induction k)
  case 0
  then show ?case by (simp add: covered_cols_def)
next
  case (Suc k)
  then have ih: "distinct (covered_cols N (accepted N input k))"
    "length (covered_cols N (accepted N input k)) = 4 * length (accepted N input k)"
    and k: "k < N * N" by simp_all
  show ?case
  proof (cases "\<exists>r. clue_row N input k = Some r
                \<and> \<not> (\<exists>r' \<in> set (accepted N input k). conflict N r r')")
    case True
    then obtain r where r: "clue_row N input k = Some r"
      "\<not> (\<exists>r' \<in> set (accepted N input k). conflict N r r')" by blast
    have acc: "accepted N input (Suc k) = accepted N input k @ [r]"
      using r unfolding accepted_Suc by (simp add: accept_clue_def)
    note cf = cols_of_facts[OF N s clue_row_facts(1)[OF N s k r(1)]]
    have "set (covered_cols N (accepted N input k)) \<inter> set (cols_of N r) = {}"
      using r(2) unfolding conflict_def by (auto simp: in_covered_cols)
    then show ?thesis unfolding acc covered_cols_snoc using ih cf(1,3) by simp
  next
    case False
    then have "accepted N input (Suc k) = accepted N input k"
      unfolding accepted_Suc by (auto simp: accept_clue_def split: option.splits)
    then show ?thesis using ih by simp
  qed
qed

lemma preload_active_length:
  assumes N: "N = s * s" and s: "0 < s" and pre: "PreInv N input (N * N) s0 st A"
  shows "length (active A) = 4 * (N * N - length (accepted N input (N * N)))"
proof -
  let ?cs = "covered_cols N (accepted N input (N * N))"
  note d = accepted_distinct_cols[OF N s le_refl, of input]
  have sub: "set ?cs \<subseteq> set [1..<Suc (COLUMNS N)]"
  proof
    fix c assume "c \<in> set ?cs"
    then obtain r where r: "r \<in> set (accepted N input (N * N))" "c \<in> set (cols_of N r)"
      by (auto simp: in_covered_cols)
    show "c \<in> set [1..<Suc (COLUMNS N)]"
      using cols_of_facts(2)[OF N s accepted_rows(1)[OF N s le_refl r(1)]] r(2)
      by (auto simp del: upt_Suc)
  qed
  have di: "distinct [1..<Suc (COLUMNS N)]" by (simp del: upt_Suc)
  have "length (active A) = length [1..<Suc (COLUMNS N)] - length ?cs"
    unfolding PreInvD(2)[OF pre] using length_filter_notin[OF di _ sub] d by blast
  then show ?thesis using d by (simp add: COLUMNS_def del: upt_Suc)
qed

lemma search_after_preload:
  assumes N: "N = s * s" and s: "0 < s" and pre: "PreInv N input (N * N) s0 st A"
    and d: "N * N - length (accepted N input (N * N)) < d"
  shows "\<exists>r. search N d st = Some r"
proof -
  note sud = PreInvD(1)[OF pre]
  have "length (active A) div Suc 3 = N * N - length (accepted N input (N * N))"
    unfolding preload_active_length[OF N s pre] by simp
  then have l: "length (active A) div Suc 3 < d" using d by simp
  have "\<forall>y \<in> anodes A. length (aoth A y) = 3" using SudD(7)[OF sud] by blast
  from search_total[OF SudD(1)[OF sud] this l, of N] show ?thesis by blast
qed

lemma consistentD:
  assumes "consistent N input" and "j < N * N" and "k < N * N" and "j \<noteq> k"
    and "input (j div N) (j mod N) = input (k div N) (k mod N)"
    and "0 \<le> input (k div N) (k mod N)" and "input (k div N) (k mod N) < int N"
  shows "j div N \<noteq> k div N \<and> j mod N \<noteq> k mod N \<and> cell_box N j \<noteq> cell_box N k"
proof -
  have "\<forall>j \<in> set [0..<N * N]. \<forall>k \<in> set [0..<N * N].
        \<not> (j \<noteq> k \<and> input (j div N) (j mod N) = input (k div N) (k mod N)
             \<and> 0 \<le> input (k div N) (k mod N) \<and> input (k div N) (k mod N) < int N
             \<and> (j div N = k div N \<or> j mod N = k mod N \<or> cell_box N j = cell_box N k))"
    using assms(1) unfolding consistent_def list_all_iff .
  moreover have "j \<in> set [0..<N * N]" "k \<in> set [0..<N * N]" using assms(2,3) by simp_all
  ultimately have "\<not> (j \<noteq> k \<and> input (j div N) (j mod N) = input (k div N) (k mod N)
             \<and> 0 \<le> input (k div N) (k mod N) \<and> input (k div N) (k mod N) < int N
             \<and> (j div N = k div N \<or> j mod N = k mod N \<or> cell_box N j = cell_box N k))"
    by blast
  then show ?thesis using assms(4-7) by blast
qed

lemma consistent_no_conflict:
  assumes N: "N = s * s" and s: "0 < s" and con: "consistent N input"
    and j: "j < N * N" and k: "k < N * N" and ne: "j \<noteq> k"
    and rj: "clue_row N input j = Some r" and rk: "clue_row N input k = Some r'"
  shows "\<not> conflict N r r'"
proof
  assume c: "conflict N r r'"
  note fj = clue_row_facts[OF N s j rj] and fk = clue_row_facts[OF N s k rk]
  have bj: "box_of N r = cell_box N j" and bk: "box_of N r' = cell_box N k"
    unfolding box_of_def cell_box_def fj(4,5) fk(4,5) by simp_all
  have vk: "0 \<le> input (k div N) (k mod N)" "input (k div N) (k mod N) < int N"
    using fk(3) decode_bounds(1)[OF N s fk(1)] by linarith+
  from conflict_cases[OF N s fj(1) fk(1) c] fj(2) fk(2) ne
  have cc: "candidate_of N r = candidate_of N r'"
    "row_of N r = row_of N r' \<or> column_of N r = column_of N r' \<or> box_of N r = box_of N r'"
    by auto
  have "input (j div N) (j mod N) = input (k div N) (k mod N)"
    using cc(1) fj(3) fk(3) by simp
  then have "j div N \<noteq> k div N \<and> j mod N \<noteq> k mod N \<and> cell_box N j \<noteq> cell_box N k"
    using consistentD[OF con j k ne _ vk] by blast
  then show False using cc(2) unfolding fj(4,5) fk(4,5) bj bk by simp
qed

lemma accepted_consistent:
  assumes N: "N = s * s" and s: "0 < s" and con: "consistent N input"
  shows "k \<le> N * N \<Longrightarrow> length (accepted N input k)
     = length (filter (\<lambda>j. clue_row N input j \<noteq> None) [0..<k])"
proof (induction k)
  case 0
  then show ?case by simp
next
  case (Suc k)
  then have ih: "length (accepted N input k)
     = length (filter (\<lambda>j. clue_row N input j \<noteq> None) [0..<k])" and k: "k < N * N"
    by simp_all
  show ?case
  proof (cases "clue_row N input k")
    case None
    then show ?thesis using ih unfolding accepted_Suc by (simp add: accept_clue_def)
  next
    case (Some r)
    have "\<not> (\<exists>r' \<in> set (accepted N input k). conflict N r r')"
    proof
      assume "\<exists>r' \<in> set (accepted N input k). conflict N r r'"
      then obtain r' where r': "r' \<in> set (accepted N input k)" "conflict N r r'" by blast
      from accepted_src[OF r'(1)] obtain j where j: "j < k" "clue_row N input j = Some r'"
        by blast
      have "j < N * N" "j \<noteq> k" using j(1) k by simp_all
      from consistent_no_conflict[OF N s con this(1) k this(2) j(2) Some] r'(2)
      show False using conflict_sym by blast
    qed
    then show ?thesis using ih Some unfolding accepted_Suc by (simp add: accept_clue_def)
  qed
qed

lemma clues_well_formed:
  assumes wf: "well_formed N input"
  shows "filter (\<lambda>j. clue_row N input j \<noteq> None) [0..<N * N] = clues N input"
  unfolding clues_def
proof (rule filter_cong[OF refl])
  fix k assume "k \<in> set [0..<N * N]"
  then have "- 1 \<le> input (k div N) (k mod N) \<and> input (k div N) (k mod N) < int N"
    using wf unfolding well_formed_def list_all_iff by simp
  then show "(clue_row N input k \<noteq> None) = (input (k div N) (k mod N) \<noteq> - 1)"
    by (auto simp: clue_row_def Let_def)
qed

subsection \<open>Runs of sudokuSolver\<close>

lemma sudokuSolver_run:
  assumes N: "N = s * s" and s: "0 < s"
  shows "\<exists>st A. PreInv N input (N * N) (built_state N (initial_globals N mem)) st A
     \<and> updateDoublyLinkedList N input (built_state N (initial_globals N mem)) = Some st
     \<and> (\<forall>d. sudokuSolver N d input mem = search N d st)
     \<and> CURRENT_SOLUTION st = []
     \<and> SUDOKU_SOLUTION st
         = store_rows N (accepted N input (N * N)) ((replicate (N * N) 0)[0 := - 1])"
proof -
  let ?m = "initial_globals N mem"
  have K: "0 < COLUMNS N" using N s by (simp add: COLUMNS_def)
  from sudoku_build[OF N s, of ?m] obtain A rows where
    sb: "Sudoku_built N (built_state N ?m) A rows" by blast
  from preload_total[OF N s sb, of input] obtain st A' where
    p: "updateDoublyLinkedList N input (built_state N ?m) = Some st"
      "PreInv N input (N * N) (built_state N ?m) st A'" by blast
  have g: "CURRENT_SOLUTION (built_state N ?m) = []"
    "SUDOKU_SOLUTION (built_state N ?m) = (replicate (N * N) 0)[0 := - 1]"
    unfolding built_state_def
    using initializeDoublyLinkedList_Built(2,3)[OF K, of "sudoku_ecp N" ?m]
    by (simp_all add: initial_globals_def)
  have "sudokuSolver N d input mem = search N d st" for d
    using p(1) by (simp add: sudokuSolver_def built_state_def sudoku_ecp_def)
  then show ?thesis using p PreInvD(3,4)[OF p(2)] g by auto
qed

lemma bad_grid_accepted:
  "filter (\<lambda>c. c \<notin> set (covered_cols 4 (accepted 4 (grid_of bad_grid) (4 * 4))))
     [1..<Suc (COLUMNS 4)] = cols_of 4 60"
  by code_simp

lemma bad_grid_solution:
  "(store_rows 4 (accepted 4 (grid_of bad_grid) (4 * 4)) ((replicate (4 * 4) 0)[0 := - 1]))
     [cell_constraint 4 60 := int (candidate_of 4 60)]
   = [0, 1, 2, 3, 2, 3, 0, 1, 1, 0, 3, 2, 3, 2, 1, 0]"
  by code_simp

lemma bad_grid_run:
  shows "sudokuSolver 4 (Suc 0) (grid_of bad_grid) mem = None"
    and "\<exists>t. sudokuSolver 4 (Suc (Suc 0)) (grid_of bad_grid) mem = Some (False, t)
           \<and> SUDOKU_SOLUTION t = [0, 1, 2, 3, 2, 3, 0, 1, 1, 0, 3, 2, 3, 2, 1, 0]"
proof -
  have N: "(4::nat) = 2 * 2" and s: "(0::nat) < 2" by simp_all
  from sudokuSolver_run[OF N s, of "grid_of bad_grid" mem] obtain st A where
    r: "PreInv 4 (grid_of bad_grid) (4 * 4) (built_state 4 (initial_globals 4 mem)) st A"
      "\<forall>d. sudokuSolver 4 d (grid_of bad_grid) mem = search 4 d st"
      "CURRENT_SOLUTION st = []"
      "SUDOKU_SOLUTION st = store_rows 4 (accepted 4 (grid_of bad_grid) (4 * 4))
          ((replicate (4 * 4) 0)[0 := - 1])"
    by blast
  have act: "set (active A) = set (cols_of 4 60)"
    unfolding PreInvD(2)[OF r(1)] bad_grid_accepted ..
  have r0: "60 < ROWS 4" by (simp add: ROWS_def)
  note sr = search_single_row[OF N s PreInvD(1)[OF r(1)] r0 act r(3)]
  show "sudokuSolver 4 (Suc 0) (grid_of bad_grid) mem = None" using sr(1) r(2) by simp
  show "\<exists>t. sudokuSolver 4 (Suc (Suc 0)) (grid_of bad_grid) mem = Some (False, t)
           \<and> SUDOKU_SOLUTION t = [0, 1, 2, 3, 2, 3, 0, 1, 1, 0, 3, 2, 3, 2, 1, 0]"
    using sr(2) r(2) unfolding r(4) bad_grid_solution by simp
qed

lemma accepted_added:
  assumes N: "N = s * s" and s: "0 < s"
  shows "m \<le> N * N \<Longrightarrow> r \<in> set (accepted N input m)
     \<Longrightarrow> \<not> (\<exists>r' \<in> set (accepted N input (cell_constraint N r)). conflict N r r')"
proof (induction m)
  case 0
  then show ?case by simp
next
  case (Suc m)
  then have m: "m < N * N" by simp
  show ?case
  proof (cases "r \<in> set (accepted N input m)")
    case True
    then show ?thesis using Suc.IH m by simp
  next
    case False
    then have c: "clue_row N input m = Some r"
      "\<not> (\<exists>r' \<in> set (accepted N input m). conflict N r r')"
      using Suc.prems(2) unfolding accepted_Suc
      by (auto simp: accept_clue_def split: option.splits if_splits)
    then show ?thesis using clue_row_facts(2)[OF N s m c(1)] by simp
  qed
qed

lemma ignored_clue:
  assumes N: "N = s * s" and s: "0 < s" and pre: "PreInv N input (N * N) s0 st A"
    and k: "k < N * N" and c: "clue_row N input k = Some r"
    and x: "\<exists>r' \<in> set (accepted N input k). conflict N r r'"
  shows "r \<notin> set (accepted N input (N * N))" and "Suc k \<in> set (active A)"
proof -
  note f = clue_row_facts[OF N s k c]
  show n: "r \<notin> set (accepted N input (N * N))"
    using accepted_added[OF N s le_refl, of r input] x f(2) by auto
  have "Suc k \<notin> set (covered_cols N (accepted N input (N * N)))"
  proof
    assume "Suc k \<in> set (covered_cols N (accepted N input (N * N)))"
    then obtain r' where r': "r' \<in> set (accepted N input (N * N))" "Suc k \<in> set (cols_of N r')"
      by (auto simp: in_covered_cols)
    note a = accepted_rows[OF N s le_refl r'(1)]
    have "cell_constraint N r' = k" using cols_of_facts(4)[OF N s a(1) r'(2) k] .
    then have "r' = r" using a(3) c by simp
    then show False using n r'(1) by simp
  qed
  moreover have "Suc k \<le> COLUMNS N" using k by (simp add: COLUMNS_def)
  ultimately show "Suc k \<in> set (active A)" unfolding PreInv_active[OF pre] by simp
qed

subsection \<open>The call of search that finds the solution\<close>

lemma npath_cong:
  "npath nxt a xs b \<Longrightarrow> (\<And>z. z \<in> set xs \<Longrightarrow> nxt' z = nxt z) \<Longrightarrow> npath nxt' a xs b"
  by (induction xs arbitrary: a) auto

lemma covered_column_npath:
  assumes inv: "Inv s A" and c: "c \<in> set (active A)"
  shows "npath (lowerNode (covered s A c)) (lowerNode (covered s A c) c) (vl A c) c"
proof -
  note cv = Inv_coverable[OF inv c]
  have l: "lowerNode (covered s A c) z = lowerNode s z" if "z \<in> set (c # vl A c)" for z
    using covered_column_links(1)[OF inv c that] .
  have "npath (lowerNode s) (lowerNode s c) (vl A c) c"
    using column_npath(1)[OF inv cv(3), of "[]" "vl A c"] by simp
  then have "npath (lowerNode (covered s A c)) (lowerNode s c) (vl A c) c"
    by (rule npath_cong) (simp add: l)
  then show ?thesis using l[of c] by simp
qed

lemma search_chosen_column:
  assumes inv: "Inv s A" and ne: "active A \<noteq> []"
  shows "\<exists>c pre post. active A = pre @ c # post
     \<and> (\<forall>z \<in> set pre. columnSize s c < columnSize s z)
     \<and> (\<forall>z \<in> set post. columnSize s c \<le> columnSize s z)
     \<and> choose_column s (rightNode s (headNode s))
           (rightNode s (rightNode s (headNode s))) = Some c
     \<and> coverColumn s c = Some (covered s A c)
     \<and> (\<forall>N d. search N (Suc d) s
            = Option.bind (coverColumn s c)
                (\<lambda>s1. search_rows (search N d) s1 c (lowerNode s1 c)))
     \<and> (\<forall>N d. search N (Suc d) s
            = search_rows (search N d) (covered s A c) c (hd (vl A c @ [c])))"
proof -
  from choose_column_ok[OF inv ne] obtain c pre post where
    ch: "choose_column s (rightNode s (headNode s))
           (rightNode s (rightNode s (headNode s))) = Some c"
    and ac: "active A = pre @ c # post"
    and lt: "\<forall>z \<in> set pre. columnSize s c < columnSize s z"
    and le: "\<forall>z \<in> set post. columnSize s c \<le> columnSize s z" by blast
  have c: "c \<in> set (active A)" using ac by simp
  note cv = Inv_coverable[OF inv c]
  have "lowerNode (covered s A c) c = lowerNode s c"
    using covered_column_links(1)[OF inv c, of c] by simp
  also have "\<dots> = hd (vl A c @ [c])"
    using dpath_hd[OF vert_okD(1)[OF InvD(2)[OF inv] cv(3)]] .
  finally have low: "lowerNode (covered s A c) c = hd (vl A c @ [c])" .
  have hn: "rightNode s (headNode s) \<noteq> headNode s" using ring_empty_iff[OF inv] ne by simp
  have 1: "search N (Suc d) s
            = Option.bind (coverColumn s c)
                (\<lambda>s1. search_rows (search N d) s1 c (lowerNode s1 c))" for N d
    using hn ch by simp
  have 2: "search N (Suc d) s
      = search_rows (search N d) (covered s A c) c (hd (vl A c @ [c]))" for N d
    using hn ch coverColumn_Some[OF inv c] low by simp
  show ?thesis using ac lt le ch coverColumn_Some[OF inv c] 1 2 by blast
qed

lemma search_empty_column:
  assumes inv: "Inv s A" and c0: "c0 \<in> set (active A)" and em: "vl A c0 = []"
  shows "search N (Suc d) s = Some (True, s)"
proof -
  have ne: "active A \<noteq> []" using c0 by auto
  from search_chosen_column[OF inv ne] obtain c pre post where
    ac: "active A = pre @ c # post"
    and lt: "\<forall>z \<in> set pre. columnSize s c < columnSize s z"
    and le: "\<forall>z \<in> set post. columnSize s c \<le> columnSize s z"
    and e: "\<forall>N d. search N (Suc d) s
      = search_rows (search N d) (covered s A c) c (hd (vl A c @ [c]))" by blast
  have c: "c \<in> set (active A)" using ac by simp
  have sz: "columnSize s z = int (length (vl A z))" if "z \<in> set (active A)" for z
    using vert_okD(4)[OF InvD(2)[OF inv]] ring_okD(3)[OF InvD(3)[OF inv]] that by blast
  have "columnSize s c \<le> columnSize s c0" using c0 lt le unfolding ac by auto
  then have "vl A c = []" using sz[OF c] sz[OF c0] em by simp
  then show ?thesis using e search_rows_done[OF inv c] by simp
qed

lemma search_rows_solved_in:
  assumes inv: "Inv s A" and c: "c \<in> set (active A)"
    and restore: "\<And>y x. y \<in> set (vl A c) \<Longrightarrow> rec (row_state s A c y) = Some (True, x)
        \<Longrightarrow> x = row_state s A c y"
  shows "vl A c = pre @ ys
     \<Longrightarrow> search_rows rec (covered s A c) c (hd (ys @ [c])) = Some (False, s')
     \<Longrightarrow> \<exists>y \<in> set ys. rec (row_state s A c y) = Some (False, s')"
proof (induction ys arbitrary: pre)
  case Nil
  then show ?case using search_rows_done[OF inv c, of rec] by simp
next
  case (Cons y ys)
  have yv: "y \<in> set (vl A c)" using Cons.prems(1) by simp
  note it = search_rows_iter[OF inv c Cons.prems(1), of rec]
  have r: "search_rows rec (covered s A c) c y = Some (False, s')" using Cons.prems(2) by simp
  show ?case
  proof (cases "rec (row_state s A c y)")
    case None
    then show ?thesis using it(1) r by simp
  next
    case (Some p)
    obtain b x where p: "p = (b, x)" by (cases p) auto
    show ?thesis
    proof (cases b)
      case False
      then have "rec (row_state s A c y) = Some (False, x)" using Some p by simp
      then show ?thesis using it(2)[of x] r by auto
    next
      case True
      then have "rec (row_state s A c y) = Some (True, x)" using Some p by simp
      then have t: "rec (row_state s A c y) = Some (True, row_state s A c y)"
        using restore[OF yv] by simp
      have "search_rows rec (covered s A c) c (hd (ys @ [c])) = Some (False, s')"
        using it(3)[OF t] r by simp
      from Cons.IH[of "pre @ [y]", OF _ this] Cons.prems(1) show ?thesis by auto
    qed
  qed
qed

lemma search_solved_step:
  assumes inv: "Inv s A" and ne: "active A \<noteq> []"
    and r: "search N (Suc d) s = Some (False, s')"
  shows "\<exists>c y. c \<in> set (active A)
     \<and> choose_column s (rightNode s (headNode s))
           (rightNode s (rightNode s (headNode s))) = Some c
     \<and> y \<in> set (vl A c) \<and> search N d (row_state s A c y) = Some (False, s')"
proof -
  from search_chosen_column[OF inv ne] obtain c pre post where
    ac: "active A = pre @ c # post"
    and ch: "choose_column s (rightNode s (headNode s))
           (rightNode s (rightNode s (headNode s))) = Some c"
    and e: "\<forall>N d. search N (Suc d) s
      = search_rows (search N d) (covered s A c) c (hd (vl A c @ [c]))" by blast
  have c: "c \<in> set (active A)" using ac by simp
  have restore: "x = row_state s A c y"
    if "y \<in> set (vl A c)" "search N d (row_state s A c y) = Some (True, x)" for y x
    using search_restore[OF row_state_facts(2)[OF inv c that(1)] that(2)] .
  have sr: "search_rows (search N d) (covered s A c) c (hd (vl A c @ [c])) = Some (False, s')"
    using r e by simp
  have sp: "vl A c = [] @ vl A c" by simp
  have "\<exists>y \<in> set (vl A c). search N d (row_state s A c y) = Some (False, s')"
    by (rule search_rows_solved_in[where rec="search N d" and pre="[]" and ys="vl A c",
          OF inv c restore sp sr])
  then show ?thesis using c ch by auto
qed

lemma row_state_down:
  assumes inv: "Inv s A" and ne: "active A \<noteq> []"
    and ch: "choose_column s (rightNode s (headNode s))
           (rightNode s (rightNode s (headNode s))) = Some c"
    and c: "c \<in> set (active A)" and y: "y \<in> set (vl A c)"
  shows "coverColumn s c = Some (covered s A c)"
    and "cover_row_columns
           ((covered s A c)\<lparr>CURRENT_SOLUTION := CURRENT_SOLUTION (covered s A c) @ [y]\<rparr>) y
           (rightNode (covered s A c) y) = Some (row_state s A c y)"
    and "descends (row_state s A c y) t \<Longrightarrow> descends s t"
proof -
  show cc: "coverColumn s c = Some (covered s A c)" using coverColumn_Some[OF inv c] .
  show cr: "cover_row_columns
           ((covered s A c)\<lparr>CURRENT_SOLUTION := CURRENT_SOLUTION (covered s A c) @ [y]\<rparr>) y
           (rightNode (covered s A c) y) = Some (row_state s A c y)"
    using row_state_facts(1)[OF inv c y] by simp
  have hn: "rightNode s (headNode s) \<noteq> headNode s" using ring_empty_iff[OF inv] ne by simp
  show "descends s t" if "descends (row_state s A c y) t"
    using descends.down[OF hn ch cc covered_column_npath[OF inv c] y cr that] .
qed



lemma dead_end_rows:
  "list_all (\<lambda>r. cell_constraint 4 r \<noteq> 15
      \<or> (\<exists>c \<in> set (cols_of 4 r).
            c \<in> set (covered_cols 4 (accepted 4 (grid_of dead_end_grid) (4 * 4)))))
     [0..<ROWS 4]"
  by code_simp

lemma dead_end_first:
  "hd (filter (\<lambda>c. c \<notin> set (covered_cols 4 (accepted 4 (grid_of dead_end_grid) (4 * 4))))
         [1..<Suc (COLUMNS 4)] @ [0]) = 1"
  by code_simp

lemma dead_end_live_row:
  "2 < ROWS 4 \<and> 1 \<in> set (cols_of 4 2)
   \<and> list_all (\<lambda>c. 1 \<le> c \<and> c \<le> COLUMNS 4
         \<and> c \<notin> set (covered_cols 4 (accepted 4 (grid_of dead_end_grid) (4 * 4))))
       (cols_of 4 2)"
  by code_simp

lemma dead_end_cell:
  "(1::nat) \<le> 16 \<and> 16 \<le> COLUMNS 4
   \<and> 16 \<notin> set (covered_cols 4 (accepted 4 (grid_of dead_end_grid) (4 * 4)))"
  by code_simp

lemma dead_end_state:
  "\<exists>st A. updateDoublyLinkedList 4 (grid_of dead_end_grid)
              (built_state 4 (initial_globals 4 mem)) = Some st
     \<and> Sud 4 st A \<and> 16 \<in> set (active A) \<and> vl A 16 = []
     \<and> rightNode st (headNode st) = 1 \<and> 1 \<in> set (active A) \<and> vl A 1 \<noteq> []
     \<and> (\<forall>d. sudokuSolver 4 d (grid_of dead_end_grid) mem = search 4 d st)"
proof -
  have N: "(4::nat) = 2 * 2" and s: "(0::nat) < 2" by simp_all
  from sudokuSolver_run[OF N s, of "grid_of dead_end_grid" mem] obtain st A where
    r: "PreInv 4 (grid_of dead_end_grid) (4 * 4) (built_state 4 (initial_globals 4 mem)) st A"
      "updateDoublyLinkedList 4 (grid_of dead_end_grid) (built_state 4 (initial_globals 4 mem))
         = Some st"
      "\<forall>d. sudokuSolver 4 d (grid_of dead_end_grid) mem = search 4 d st"
    by blast
  note sud = PreInvD(1)[OF r(1)]
  note inv = SudD(1)[OF sud]
  have k: "(15::nat) < 4 * 4" by simp
  have a: "16 \<in> set (active A)" unfolding PreInv_active[OF r(1)] using dead_end_cell .
  have "y \<notin> set (vl A 16)" for y
  proof
    assume y: "y \<in> set (vl A 16)"
    then have y': "y \<in> set (vl A (Suc 15))" by simp
    note c = cell_column_rows[OF N s sud k y']
    have "set (cols_of 4 (arow A y)) \<subseteq> set (active A)"
      using Sud_visible[OF sud c(1)] a y c(2) by simp
    then have no: "\<forall>c \<in> set (cols_of 4 (arow A y)).
        c \<notin> set (covered_cols 4 (accepted 4 (grid_of dead_end_grid) (4 * 4)))"
      using PreInv_active[OF r(1)] by blast
    have "arow A y \<in> set [0..<ROWS 4]" using SudD(4)[OF sud c(1)] by simp
    then have "cell_constraint 4 (arow A y) \<noteq> 15
      \<or> (\<exists>c \<in> set (cols_of 4 (arow A y)).
            c \<in> set (covered_cols 4 (accepted 4 (grid_of dead_end_grid) (4 * 4))))"
      using dead_end_rows unfolding list_all_iff by blast
    then show False using c(3) no by blast
  qed
  then have e: "vl A 16 = []" by (cases "vl A 16") auto
  have "rightNode st (headNode st) = hd (active A @ [headNode st])"
    using dpath_hd[OF ring_okD(1)[OF InvD(3)[OF inv]]] .
  then have f: "rightNode st (headNode st) = 1"
    unfolding PreInvD(2)[OF r(1)] SudD(2)[OF sud] dead_end_first .
  note lr = dead_end_live_row
  have sub: "set (cols_of 4 2) \<subseteq> set (active A)"
  proof
    fix c assume "c \<in> set (cols_of 4 2)"
    then have "1 \<le> c \<and> c \<le> COLUMNS 4
         \<and> c \<notin> set (covered_cols 4 (accepted 4 (grid_of dead_end_grid) (4 * 4)))"
      using lr unfolding list_all_iff by blast
    then show "c \<in> set (active A)" unfolding PreInv_active[OF r(1)] .
  qed
  from SudD(8)[OF sud, of 2 1] lr obtain y where
    y: "y \<in> anodes A" "arow A y = 2" "columnNode st y = 1" by blast
  have "columnNode st y \<in> set (active A) \<and> y \<in> set (vl A (columnNode st y))"
    using Sud_visible[OF sud y(1)] sub unfolding y(2) by simp
  then have o: "1 \<in> set (active A)" "vl A 1 \<noteq> []" unfolding y(3) by auto
  show ?thesis using r(2,3) sud a e f o by blast
qed

text \<open>
  Termination. For every grid \<open>search\<close> returns, with \<open>True\<close> (no solution) or \<open>False\<close>
  (solved), as soon as the number of nested calls allowed is more than \<open>N * N\<close> minus the
  number of clues taken by \<open>updateDoublyLinkedList\<close>. For a well formed grid in which no
  two clues are in conflict, all the clues are taken.
\<close>

theorem search_terminates:
  assumes "N = s * s" and "0 < s"
  shows "(\<forall>d. N * N - length (accepted N input (N * N)) < d
            \<longrightarrow> (\<exists>r. sudokuSolver N d input mem = Some r))
     \<and> (well_formed N input \<and> consistent N input
          \<longrightarrow> length (accepted N input (N * N)) = length (clues N input))"
proof -
  from sudokuSolver_run[OF assms, of input mem] obtain st A where
    r: "PreInv N input (N * N) (built_state N (initial_globals N mem)) st A"
      "\<forall>d. sudokuSolver N d input mem = search N d st" by blast
  have 1: "\<exists>r. sudokuSolver N d input mem = Some r"
    if "N * N - length (accepted N input (N * N)) < d" for d
    using search_after_preload[OF assms r(1) that] r(2) by simp
  have 2: "length (accepted N input (N * N)) = length (clues N input)"
    if "well_formed N input" "consistent N input"
    using accepted_consistent[OF assms that(2) le_refl] clues_well_formed[OF that(1)] by simp
  show ?thesis using 1 2 by blast
qed

theorem search_terminates_example:
  "(4::nat) = 2 * 2 \<and> (0::nat) < 2
   \<and> well_formed 4 (grid_of sample_grid) \<and> consistent 4 (grid_of sample_grid)
   \<and> length (clues 4 (grid_of sample_grid)) = 12
   \<and> (\<forall>mem. \<exists>r. sudokuSolver 4 (Suc (4 * 4 - 12)) (grid_of sample_grid) mem = Some r)"
proof -
  have w: "well_formed 4 (grid_of sample_grid)" by code_simp
  have c: "consistent 4 (grid_of sample_grid)" by code_simp
  have l: "length (clues 4 (grid_of sample_grid)) = 12" by code_simp
  have "\<exists>r. sudokuSolver 4 (Suc (4 * 4 - 12)) (grid_of sample_grid) mem = Some r" for mem
  proof -
    have N: "(4::nat) = 2 * 2" and s: "(0::nat) < 2" by simp_all
    note t = search_terminates[OF N s, of "grid_of sample_grid" mem]
    have "length (accepted 4 (grid_of sample_grid) (4 * 4)) = 12" using t w c l by simp
    then show ?thesis using t by simp
  qed
  then show ?thesis using w c l by simp
qed

section \<open>Claims\<close>

text \<open>
  C6. The candidate "cell (r, c) holds value v" has linear index \<open>v + N*c + N*N*r\<close>: the
  program decodes that index back to (v, r, c), and the matrix built by
  \<open>initializeExactCoverProblem\<close> has a one in row \<open>v + N*c + N*N*r\<close> exactly at the four
  columns \<open>r*N + c\<close>, \<open>N*N + r*N + v\<close>, \<open>2*N*N + c*N + v\<close> and \<open>3*N*N + b*N + v\<close> with
  \<open>b = (r div s)*s + c div s\<close>, where \<open>N = s*s\<close>. The four columns are pairwise different,
  and the row built by \<open>initializeMatrix\<close> has the same ones.
\<close>

theorem C6_constraint_indexer:
  assumes "N = s * s" and "r < N" and "c < N" and "v < N"
  shows "v + N * c + N * N * r < ROWS N
    \<and> candidate_of N (v + N * c + N * N * r) = v
    \<and> row_of N (v + N * c + N * N * r) = r
    \<and> column_of N (v + N * c + N * N * r) = c
    \<and> box_of N (v + N * c + N * N * r) = (r div s) * s + c div s
    \<and> (\<forall>j. initializeExactCoverProblem N EXACT_COVER_PROBLEM (v + N * c + N * N * r) j
           = (j \<in> {r * N + c, N * N + r * N + v, 2 * N * N + c * N + v,
                   3 * N * N + ((r div s) * s + c div s) * N + v}))
    \<and> distinct [r * N + c, N * N + r * N + v, 2 * N * N + c * N + v,
                 3 * N * N + ((r div s) * s + c div s) * N + v]
    \<and> (\<forall>j < COLUMNS N. sequence (initializeMatrix N ! (v + N * c + N * N * r)) ! j
           = (j \<in> {r * N + c, N * N + r * N + v, 2 * N * N + c * N + v,
                   3 * N * N + ((r div s) * s + c div s) * N + v}))"
  using constraint_indexer_facts[OF assms] by simp

theorem C6_constraint_indexer_witness:
  "(4::nat) = 2 * 2 \<and> (2::nat) < 4 \<and> (1::nat) < 4 \<and> (3::nat) < 4
   \<and> candidate_of 4 (3 + 4 * 1 + 4 * 4 * 2) = 3 \<and> row_of 4 (3 + 4 * 1 + 4 * 4 * 2) = 2
   \<and> column_of 4 (3 + 4 * 1 + 4 * 4 * 2) = 1
   \<and> box_of 4 (3 + 4 * 1 + 4 * 4 * 2) = (2 div 2) * 2 + 1 div 2"
  using C6_constraint_indexer[of 4 2 2 1 3] by simp

text \<open>
  C2. In every state that satisfies the invariant \<open>Inv\<close> of the structure (the states the
  program reaches), for every active column \<open>c\<close> and every row \<open>y\<close> of its list: covering
  the row as \<open>search\<close> does (\<open>coverColumn\<close> of the column, the row pushed on
  \<open>CURRENT_SOLUTION\<close>, then \<open>coverColumn\<close> of the columns of its other nodes) succeeds, and
  uncovering it as \<open>search\<close> does (the other columns from right to left, then the column)
  gives back exactly the state before: every link, every column size, the column ring.
\<close>

theorem C2_cover_uncover_round_trip:
  assumes "Inv s A" and "c \<in> set (active A)" and "y \<in> set (vl A c)"
  shows "\<exists>s1 s2. coverColumn s c = Some s1
     \<and> cover_row_columns (s1\<lparr>CURRENT_SOLUTION := CURRENT_SOLUTION s1 @ [y]\<rparr>) y (rightNode s1 y)
         = Some s2
     \<and> uncover_row_columns s2 (leftNode s2 y)
         = Some (s1\<lparr>CURRENT_SOLUTION := CURRENT_SOLUTION s1 @ [y]\<rparr>)
     \<and> uncoverColumn s1 c = Some s"
proof -
  note rs = row_state_facts[OF assms]
  have "coverColumn s c = Some (covered s A c)" using coverColumn_Some[OF assms(1,2)] .
  moreover have "uncoverColumn (covered s A c) c = Some s"
    using uncoverColumn_covered[OF assms(1,2)] .
  ultimately show ?thesis using rs(1,3) by auto
qed

theorem C2_cover_uncover_round_trip_witness:
  "Inv example_state example_abs \<and> 1 \<in> set (active example_abs)
   \<and> 3 \<in> set (vl example_abs 1)
   \<and> (\<exists>s1 s2. coverColumn example_state 1 = Some s1
     \<and> cover_row_columns (s1\<lparr>CURRENT_SOLUTION := CURRENT_SOLUTION s1 @ [3]\<rparr>) 3 (rightNode s1 3)
         = Some s2
     \<and> uncover_row_columns s2 (leftNode s2 3)
         = Some (s1\<lparr>CURRENT_SOLUTION := CURRENT_SOLUTION s1 @ [3]\<rparr>)
     \<and> uncoverColumn s1 1 = Some example_state)"
proof -
  have 1: "1 \<in> set (active example_abs)" and 2: "3 \<in> set (vl example_abs 1)"
    by (simp_all add: example_abs_def)
  show ?thesis
    using C2_cover_uncover_round_trip[OF example_Inv 1 2] example_Inv 1 2 by simp
qed



text \<open>
  C9. In a state that satisfies the invariant and has a column in the ring, a call of
  \<open>search\<close> branches on the column \<open>c\<close> returned by its loop that looks for the smallest
  column: \<open>search\<close> is \<open>coverColumn\<close> of \<open>c\<close> followed by the loop over the rows below \<open>c\<close>,
  and when it reports a solution the recursive call that found it was made for a row of
  \<open>c\<close>. The size of \<open>c\<close> is at most the size of every column of the ring and strictly below
  the size of every column before it in the ring; the ring lists the active columns in
  the order of their construction, and the size of a column is the number of rows in its
  list.
\<close>

theorem C9_smallest_column_first:
  assumes "Inv s A" and "active A \<noteq> []"
  shows "\<exists>c pre post.
      choose_column s (rightNode s (headNode s)) (rightNode s (rightNode s (headNode s))) = Some c
      \<and> active A = pre @ c # post
      \<and> (\<forall>z \<in> set (active A). columnSize s c \<le> columnSize s z)
      \<and> (\<forall>z \<in> set pre. columnSize s c < columnSize s z)
      \<and> active A = filter (\<lambda>z. z \<in> set (active A)) (acols A)
      \<and> (\<forall>z \<in> set (active A). columnSize s z = int (length (vl A z)))
      \<and> (\<exists>s1. coverColumn s c = Some s1)
      \<and> (\<forall>N d. search N (Suc d) s
            = Option.bind (coverColumn s c)
                (\<lambda>s1. search_rows (search N d) s1 c (lowerNode s1 c)))
      \<and> (\<forall>N d s'. search N (Suc d) s = Some (False, s') \<longrightarrow>
            (\<exists>s1 y s2. coverColumn s c = Some s1 \<and> y \<in> set (vl A c)
               \<and> cover_row_columns (s1\<lparr>CURRENT_SOLUTION := CURRENT_SOLUTION s1 @ [y]\<rparr>) y
                    (rightNode s1 y) = Some s2
               \<and> search N d s2 = Some (False, s')))"
proof -
  from search_chosen_column[OF assms] obtain c pre post where
    ac: "active A = pre @ c # post"
    and lt: "\<forall>z \<in> set pre. columnSize s c < columnSize s z"
    and le: "\<forall>z \<in> set post. columnSize s c \<le> columnSize s z"
    and ch: "choose_column s (rightNode s (headNode s))
           (rightNode s (rightNode s (headNode s))) = Some c"
    and cc: "coverColumn s c = Some (covered s A c)"
    and se: "\<forall>N d. search N (Suc d) s
            = Option.bind (coverColumn s c)
                (\<lambda>s1. search_rows (search N d) s1 c (lowerNode s1 c))" by blast
  have all: "\<forall>z \<in> set (active A). columnSize s c \<le> columnSize s z"
    unfolding ac using lt le by auto
  have sz: "\<forall>z \<in> set (active A). columnSize s z = int (length (vl A z))"
    using vert_okD(4)[OF InvD(2)[OF assms(1)]] ring_okD(3)[OF InvD(3)[OF assms(1)]] by blast
  have sol: "\<exists>s1 y s2. coverColumn s c = Some s1 \<and> y \<in> set (vl A c)
               \<and> cover_row_columns (s1\<lparr>CURRENT_SOLUTION := CURRENT_SOLUTION s1 @ [y]\<rparr>) y
                    (rightNode s1 y) = Some s2
               \<and> search N d s2 = Some (False, s')"
    if r: "search N (Suc d) s = Some (False, s')" for N d s'
  proof -
    from search_solved_step[OF assms r] obtain c' y where
      c': "c' \<in> set (active A)"
      "choose_column s (rightNode s (headNode s))
           (rightNode s (rightNode s (headNode s))) = Some c'"
      "y \<in> set (vl A c')" "search N d (row_state s A c' y) = Some (False, s')" by blast
    have e: "c' = c" using c'(2) ch by simp
    note rd = row_state_down(1,2)[OF assms c'(2,1,3)]
    show ?thesis using rd c'(3,4) unfolding e by blast
  qed
  have cs: "\<exists>s1. coverColumn s c = Some s1" using cc by blast
  show ?thesis
    using ch ac all lt ring_okD(2)[OF InvD(3)[OF assms(1)]] sz cs se sol by blast
qed

text \<open>
  In the state left by \<open>updateDoublyLinkedList\<close> for \<open>dead_end_grid\<close> the first column of
  the ring has rows and the column of the last cell has none: \<open>search\<close> branches on a
  column that is smaller than the first one.
\<close>

theorem C9_smallest_column_first_witness:
  "\<forall>mem. \<exists>st A c.
     updateDoublyLinkedList 4 (grid_of dead_end_grid) (built_state 4 (initial_globals 4 mem))
        = Some st
     \<and> Inv st A \<and> active A \<noteq> []
     \<and> choose_column st (rightNode st (headNode st))
          (rightNode st (rightNode st (headNode st))) = Some c
     \<and> columnSize st c = 0 \<and> 0 < columnSize st (rightNode st (headNode st))
     \<and> c \<noteq> rightNode st (headNode st)
     \<and> (\<exists>s1. coverColumn st c = Some s1)
     \<and> search 4 (Suc 0) st
          = Option.bind (coverColumn st c)
              (\<lambda>s1. search_rows (search 4 0) s1 c (lowerNode s1 c))"
proof
  fix mem
  from dead_end_state[of mem] obtain st A where
    b: "updateDoublyLinkedList 4 (grid_of dead_end_grid) (built_state 4 (initial_globals 4 mem))
         = Some st"
      "Sud 4 st A" "16 \<in> set (active A)" "vl A 16 = []"
      "rightNode st (headNode st) = 1" "1 \<in> set (active A)" "vl A 1 \<noteq> []" by blast
  note inv = SudD(1)[OF b(2)]
  have ne: "active A \<noteq> []" using b(3) by auto
  from C9_smallest_column_first[OF inv ne] obtain c pre post where
    ac: "active A = pre @ c # post" and
    c: "choose_column st (rightNode st (headNode st))
          (rightNode st (rightNode st (headNode st))) = Some c"
      "\<forall>z \<in> set (active A). columnSize st c \<le> columnSize st z"
      "\<forall>z \<in> set (active A). columnSize st z = int (length (vl A z))"
      "\<exists>s1. coverColumn st c = Some s1"
      "\<forall>N d. search N (Suc d) st
            = Option.bind (coverColumn st c)
                (\<lambda>s1. search_rows (search N d) s1 c (lowerNode s1 c))"
    by blast
  have s16: "columnSize st 16 = 0" using c(3) b(3,4) by simp
  have s1: "0 < columnSize st 1" using c(3) b(6,7) by simp
  have "c \<in> set (active A)" unfolding ac by simp
  then have "0 \<le> columnSize st c" using c(3) by simp
  moreover have "columnSize st c \<le> 0" using c(2) b(3) s16 by fastforce
  ultimately have z: "columnSize st c = 0" by simp
  have d: "c \<noteq> 1" using z s1 by auto
  have s1': "0 < columnSize st (rightNode st (headNode st))" using s1 b(5) by simp
  have d': "c \<noteq> rightNode st (headNode st)" using d b(5) by simp
  have se: "search 4 (Suc 0) st
          = Option.bind (coverColumn st c)
              (\<lambda>s1. search_rows (search 4 0) s1 c (lowerNode s1 c))" using c(5) by blast
  show "\<exists>st A c.
     updateDoublyLinkedList 4 (grid_of dead_end_grid) (built_state 4 (initial_globals 4 mem))
        = Some st
     \<and> Inv st A \<and> active A \<noteq> []
     \<and> choose_column st (rightNode st (headNode st))
          (rightNode st (rightNode st (headNode st))) = Some c
     \<and> columnSize st c = 0 \<and> 0 < columnSize st (rightNode st (headNode st))
     \<and> c \<noteq> rightNode st (headNode st)
     \<and> (\<exists>s1. coverColumn st c = Some s1)
     \<and> search 4 (Suc 0) st
          = Option.bind (coverColumn st c)
              (\<lambda>s1. search_rows (search 4 0) s1 c (lowerNode s1 c))"
    by (intro exI[of _ st] exI[of _ A] exI[of _ c] conjI b(1) inv ne c(1) z s1' d' c(4) se)
qed

text \<open>
  C10. When a call of \<open>search\<close> made in a state that satisfies the invariant returns
  \<open>true\<close> (no solution below this call), the state it returns is the state at the call:
  all links, all column sizes, \<open>CURRENT_SOLUTION\<close> and \<open>SUDOKU_SOLUTION\<close>.
\<close>

theorem C10_failure_restores_state:
  assumes "Inv s A" and "search N d s = Some (True, s')"
  shows "s' = s"
  using assms by (rule search_restore)

theorem C10_failure_restores_state_witness:
  "Inv empty_column_state empty_column_abs
   \<and> search 1 1 empty_column_state = Some (True, empty_column_state)"
proof -
  have ne: "active empty_column_abs \<noteq> []"
    and em: "\<forall>c \<in> set (active empty_column_abs). vl empty_column_abs c = []"
    by (simp_all add: empty_column_abs_def)
  have r: "search 1 (Suc 0) empty_column_state = Some (True, empty_column_state)"
    using search_no_rows[OF empty_column_Inv ne em] .
  show ?thesis
    using C10_failure_restores_state[OF empty_column_Inv r] empty_column_Inv r by simp
qed

text \<open>
  C5. For every perfect square \<open>N = s * s\<close> the structure built by
  \<open>initializeDoublyLinkedList\<close> from the matrix of \<open>initializeExactCoverProblem\<close>
  has exactly \<open>4 * N * N\<close> columns in the header ring, every column has size \<open>N\<close>
  (the stored \<open>columnSize\<close> and the length of its vertical list), its nodes belong to
  exactly the rows \<open>0 ..< N * N * N\<close>, and every node has three other nodes in its row:
  every row has four nodes, in four distinct columns, which are the columns of the four
  constraints of the row. The structure is built in arbitrary initial memory.
\<close>

theorem C5_build_counts:
  assumes "N = s * s" and "0 < s"
  shows "\<exists>A. Inv (built_state N mem) A
     \<and> active A = [1..<Suc (4 * N * N)] \<and> acols A = active A \<and> length (active A) = 4 * N * N
     \<and> (\<forall>c \<in> set (active A). columnSize (built_state N mem) c = int N \<and> length (vl A c) = N)
     \<and> arow A ` anodes A = {0..<N * N * N}
     \<and> (\<forall>y \<in> anodes A. length (aoth A y) = 3
           \<and> distinct (map (columnNode (built_state N mem)) (y # aoth A y))
           \<and> set (map (columnNode (built_state N mem)) (y # aoth A y))
               = {Suc (cell_constraint N (arow A y)), Suc (row_constraint N (arow A y)),
                  Suc (column_constraint N (arow A y)), Suc (box_constraint N (arow A y))})"
proof -
  define st where "st = built_state N mem"
  from sudoku_build[OF assms(1,2), of mem] obtain A rows where
    sb: "Sudoku_built N st A rows" unfolding st_def by blast
  note f = Sudoku_built_facts[OF assms(1,2) sb]
  note d = Sudoku_builtD[OF sb]
  from d(1) obtain free where B: "BInv st A rows free (COLUMNS N)" by blast
  have K: "COLUMNS N = 4 * N * N" by (simp add: COLUMNS_def)
  have 1: "active A = [1..<Suc (4 * N * N)]" "acols A = active A"
    "length (active A) = 4 * N * N"
    using f(3,4) unfolding K by simp_all
  have 2: "\<forall>c \<in> set (active A). columnSize st c = int N \<and> length (vl A c) = N"
    using f(5) by blast
  have 3: "arow A ` anodes A = {0..<N * N * N}"
  proof (intro set_eqI iffI)
    fix r assume "r \<in> arow A ` anodes A"
    then show "r \<in> {0..<N * N * N}" using f(6) by (auto simp: ROWS_def)
  next
    fix r assume "r \<in> {0..<N * N * N}"
    then have r: "r < ROWS N" by (simp add: ROWS_def)
    then have "rows r \<noteq> []" using f(7)[OF r] by auto
    then obtain z where "z \<in> set (rows r)" by (cases "rows r") auto
    then show "r \<in> arow A ` anodes A" using f(7)[OF r] by auto
  qed
  have 4: "length (aoth A y) = 3
      \<and> distinct (map (columnNode st) (y # aoth A y))
      \<and> set (map (columnNode st) (y # aoth A y))
          = {Suc (cell_constraint N (arow A y)), Suc (row_constraint N (arow A y)),
             Suc (column_constraint N (arow A y)), Suc (box_constraint N (arow A y))}"
    if y: "y \<in> anodes A" for y
  proof -
    from BInv_oth[OF B y] obtain as bs where
      sp: "rows (arow A y) = as @ y # bs" "aoth A y = bs @ as" by blast
    have r: "arow A y < ROWS N" using f(6)[OF y] by simp
    have dm: "distinct (map (columnNode st) (rows (arow A y)))"
      using BInvD(11)[OF B] .
    have "set (map (columnNode st) (y # aoth A y)) = set (map (columnNode st) (rows (arow A y)))"
      unfolding sp by auto
    moreover have "distinct (map (columnNode st) (y # aoth A y))"
      using dm unfolding sp by auto
    ultimately show ?thesis using f(8)[OF y] unfolding d(2)[OF r] by simp
  qed
  show ?thesis using f(1) 1 2 3 4 unfolding st_def by blast
qed

theorem C5_build_counts_witness:
  "(4::nat) = 2 * 2 \<and> (0::nat) < 2 \<and>
   (\<forall>mem. \<exists>A. Inv (built_state 4 mem) A
     \<and> length (active A) = 64
     \<and> (\<forall>c \<in> set (active A). columnSize (built_state 4 mem) c = 4)
     \<and> arow A ` anodes A = {0..<64}
     \<and> (\<forall>y \<in> anodes A. length (aoth A y) = 3))"
proof -
  have "\<exists>A. Inv (built_state 4 mem) A
     \<and> length (active A) = 64
     \<and> (\<forall>c \<in> set (active A). columnSize (built_state 4 mem) c = 4)
     \<and> arow A ` anodes A = {0..<64}
     \<and> (\<forall>y \<in> anodes A. length (aoth A y) = 3)" for mem
  proof -
    have "(4::nat) = 2 * 2" and "(0::nat) < 2" by simp_all
    from C5_build_counts[OF this, of mem] obtain A where
      a: "Inv (built_state 4 mem) A" "length (active A) = 4 * 4 * 4"
        "\<forall>c \<in> set (active A). columnSize (built_state 4 mem) c = int 4 \<and> length (vl A c) = 4"
        "arow A ` anodes A = {0..<4 * 4 * 4}"
        "\<forall>y \<in> anodes A. length (aoth A y) = 3
           \<and> distinct (map (columnNode (built_state 4 mem)) (y # aoth A y))
           \<and> set (map (columnNode (built_state 4 mem)) (y # aoth A y))
               = {Suc (cell_constraint 4 (arow A y)), Suc (row_constraint 4 (arow A y)),
                  Suc (column_constraint 4 (arow A y)), Suc (box_constraint 4 (arow A y))}"
      by blast
    have "length (active A) = 64" using a(2) by simp
    moreover have "\<forall>c \<in> set (active A). columnSize (built_state 4 mem) c = 4"
      using a(3) by simp
    moreover have "arow A ` anodes A = {0..<64}" using a(4) by simp
    moreover have "\<forall>y \<in> anodes A. length (aoth A y) = 3" using a(5) by blast
    ultimately show ?thesis using a(1) by blast
  qed
  then show ?thesis by simp
qed

text \<open>
  C7. \<open>updateDoublyLinkedList\<close> has a result on the structure built for every grid, whatever
  integers the grid holds: there is no error. The result is described by \<open>accepted\<close>: the
  columns left in the ring are those of no clue taken, and \<open>SUDOKU_SOLUTION\<close> holds the
  values of the clues taken. A clue whose row of the matrix shares a column with a clue
  taken before (its node is no longer in the list of its column when the loops reach it) is
  not taken: nothing is covered for it, and the column of its cell stays in the ring.
\<close>

theorem C7_preload_ignores_dead_clues:
  assumes "N = s * s" and "0 < s"
  shows "\<exists>t A. updateDoublyLinkedList N input (built_state N mem) = Some t
     \<and> Inv t A
     \<and> active A = filter (\<lambda>c. c \<notin> set (covered_cols N (accepted N input (N * N))))
                    [1..<Suc (COLUMNS N)]
     \<and> SUDOKU_SOLUTION t = store_rows N (accepted N input (N * N)) (SUDOKU_SOLUTION mem)
     \<and> (\<forall>k r. k < N * N \<and> clue_row N input k = Some r
            \<and> (\<exists>r' \<in> set (accepted N input k). conflict N r r')
          \<longrightarrow> r \<notin> set (accepted N input (N * N)) \<and> Suc k \<in> set (active A))"
proof -
  have K: "0 < COLUMNS N" using assms by (simp add: COLUMNS_def)
  from sudoku_build[OF assms, of mem] obtain A rows where
    sb: "Sudoku_built N (built_state N mem) A rows" by blast
  from preload_total[OF assms sb, of input] obtain t A' where
    p: "updateDoublyLinkedList N input (built_state N mem) = Some t"
      "PreInv N input (N * N) (built_state N mem) t A'" by blast
  have "SUDOKU_SOLUTION (built_state N mem) = SUDOKU_SOLUTION mem"
    unfolding built_state_def using initializeDoublyLinkedList_Built(3)[OF K] .
  then have sol: "SUDOKU_SOLUTION t = store_rows N (accepted N input (N * N)) (SUDOKU_SOLUTION mem)"
    using PreInvD(3)[OF p(2)] by simp
  have ign: "\<forall>k r. k < N * N \<and> clue_row N input k = Some r
            \<and> (\<exists>r' \<in> set (accepted N input k). conflict N r r')
          \<longrightarrow> r \<notin> set (accepted N input (N * N)) \<and> Suc k \<in> set (active A')"
    using ignored_clue[OF assms p(2)] by blast
  show ?thesis
    using p(1) SudD(1)[OF PreInvD(1)[OF p(2)]] PreInvD(2)[OF p(2)] sol ign by blast
qed

text \<open>
  In \<open>bad_grid\<close> the clue of the last cell (value 3, row 63 of the matrix) is in conflict
  with clues taken before: the fifteen other clues are taken, and the column of cell 15
  (node 16) is still in the ring after \<open>updateDoublyLinkedList\<close>.
\<close>

theorem C7_preload_ignores_dead_clues_witness:
  "(4::nat) = 2 * 2 \<and> (0::nat) < 2
   \<and> clue_row 4 (grid_of bad_grid) 15 = Some 63
   \<and> (\<forall>mem. \<exists>t A. updateDoublyLinkedList 4 (grid_of bad_grid) (built_state 4 mem) = Some t
         \<and> Inv t A \<and> active A = [16, 29, 45, 61]
         \<and> 63 \<notin> set (accepted 4 (grid_of bad_grid) (4 * 4)))"
proof -
  have c: "clue_row 4 (grid_of bad_grid) 15 = Some 63" by code_simp
  have x: "\<exists>r' \<in> set (accepted 4 (grid_of bad_grid) 15). conflict 4 63 r'" by code_simp
  have a: "cols_of 4 60 = [16, 29, 45, 61]" by code_simp
  have "\<exists>t A. updateDoublyLinkedList 4 (grid_of bad_grid) (built_state 4 mem) = Some t
         \<and> Inv t A \<and> active A = [16, 29, 45, 61]
         \<and> 63 \<notin> set (accepted 4 (grid_of bad_grid) (4 * 4))" for mem
  proof -
    have N: "(4::nat) = 2 * 2" and s: "(0::nat) < 2" by simp_all
    from C7_preload_ignores_dead_clues[OF N s, of "grid_of bad_grid" mem] obtain t A where
      t: "updateDoublyLinkedList 4 (grid_of bad_grid) (built_state 4 mem) = Some t"
        "Inv t A"
        "active A = filter (\<lambda>c. c \<notin> set (covered_cols 4 (accepted 4 (grid_of bad_grid) (4 * 4))))
                    [1..<Suc (COLUMNS 4)]"
        "\<forall>k r. k < 4 * 4 \<and> clue_row 4 (grid_of bad_grid) k = Some r
            \<and> (\<exists>r' \<in> set (accepted 4 (grid_of bad_grid) k). conflict 4 r r')
          \<longrightarrow> r \<notin> set (accepted 4 (grid_of bad_grid) (4 * 4)) \<and> Suc k \<in> set (active A)"
      by blast
    have "(15::nat) < 4 * 4 \<and> clue_row 4 (grid_of bad_grid) 15 = Some 63
        \<and> (\<exists>r' \<in> set (accepted 4 (grid_of bad_grid) 15). conflict 4 63 r')"
      using c x by simp
    then have "63 \<notin> set (accepted 4 (grid_of bad_grid) (4 * 4))" using t(4) by blast
    then show ?thesis using t(1,2) t(3)[unfolded bad_grid_accepted a] by blast
  qed
  then show ?thesis using c by simp
qed

text \<open>
  C4. The grid \<open>bad_grid\<close> is well formed and has sixteen clues, so that the bound of the
  claim on the depth of the recursion is 0. The run that allows no call of \<open>search\<close> below
  the first one has no result: \<open>search\<close> calls itself once, for the cell of the clue that
  \<open>updateDoublyLinkedList\<close> has skipped, and with that call it reports a solved grid.
\<close>

theorem C4_depth_counterexample:
  "well_formed 4 (grid_of bad_grid) \<and> length (clues 4 (grid_of bad_grid)) = 4 * 4
   \<and> (\<forall>mem. sudokuSolver 4 (Suc (4 * 4 - length (clues 4 (grid_of bad_grid))))
               (grid_of bad_grid) mem = None)
   \<and> (\<forall>mem. \<exists>t. sudokuSolver 4 (Suc (Suc (4 * 4 - length (clues 4 (grid_of bad_grid)))))
               (grid_of bad_grid) mem = Some (False, t))"
proof -
  have w: "well_formed 4 (grid_of bad_grid)" by code_simp
  have l: "length (clues 4 (grid_of bad_grid)) = 4 * 4" by code_simp
  show ?thesis unfolding l using w bad_grid_run[of _] by auto
qed

text \<open>
  C3. The grid \<open>bad_grid\<close> holds the value 3 twice in its last line, and \<open>sudokuSolver\<close>
  reports a solved grid for it instead of \<open>No Solution Found\<close>.
\<close>

theorem C3_contradictory_grid_reported_solved:
  "grid_of bad_grid 3 0 = 3 \<and> grid_of bad_grid 3 3 = 3
   \<and> (\<forall>mem. \<exists>t. sudokuSolver 4 (Suc (Suc 0)) (grid_of bad_grid) mem = Some (False, t))"
proof -
  have "grid_of bad_grid 3 0 = 3" "grid_of bad_grid 3 3 = 3"
    by (simp_all add: grid_of_def bad_grid_def)
  then show ?thesis using bad_grid_run(2) by blast
qed

text \<open>
  C1. For \<open>bad_grid\<close> the grid printed with the report of a solution has 0 in the last cell,
  where the grid read has the clue 3.
\<close>

theorem C1_clue_not_preserved:
  "grid_of bad_grid 3 3 = 3
   \<and> (\<forall>mem. \<exists>t. sudokuSolver 4 (Suc (Suc 0)) (grid_of bad_grid) mem = Some (False, t)
         \<and> SUDOKU_SOLUTION t ! (3 * 4 + 3) = 0)"
proof -
  have g: "grid_of bad_grid 3 3 = 3" by (simp add: grid_of_def bad_grid_def)
  have "\<exists>t. sudokuSolver 4 (Suc (Suc 0)) (grid_of bad_grid) mem = Some (False, t)
         \<and> SUDOKU_SOLUTION t ! (3 * 4 + 3) = 0" for mem
  proof -
    from bad_grid_run(2)[of mem] obtain t where
      t: "sudokuSolver 4 (Suc (Suc 0)) (grid_of bad_grid) mem = Some (False, t)"
      "SUDOKU_SOLUTION t = [0, 1, 2, 3, 2, 3, 0, 1, 1, 0, 3, 2, 3, 2, 1, 0]" by blast
    have "SUDOKU_SOLUTION t ! (3 * 4 + 3) = 0" unfolding t(2) by simp
    then show ?thesis using t(1) by blast
  qed
  then show ?thesis using g by blast
qed

end
